(* ===== verification/Prelude.thy ===== *)
theory Prelude
  imports Main "HOL-Library.Word"
begin

text \<open>
  The prelude of the development: the outcome type in which every kernel operation
  returns, the combinators that sequence operations, the weakest-precondition calculus
  the component proofs use, byte memories with little-endian loads and stores, and
  the generic lemmas on lists and searches that several components share.
\<close>

section \<open>Outcomes of kernel code\<close>

text \<open>
  A kernel operation is a function from the kernel state to an outcome. It either
  returns a value (\<open>Ok\<close>) or control does not come back to the caller (\<open>Stop\<close>):
  \<^item> \<open>Panic msg\<close>: the code called \<open>panic(msg)\<close>;
  \<^item> \<open>Undef what\<close>: the C code would read or write outside an object, or follow a null
    pointer, so that the language gives it no meaning;
  \<^item> \<open>Spin\<close>: the code busy-waits for a spinlock that another processor holds;
  \<^item> \<open>Switch\<close>: the process gave up the processor in \<open>sched()\<close>; the state is the one
    the scheduler continues from.
\<close>

datatype stop = Panic string | Undef string | Spin | Switch

datatype ('s, 'a) outcome = Ok 'a 's | Stop stop 's

type_synonym ('s, 'a) cmd = "'s \<Rightarrow> ('s, 'a) outcome"

definition ret :: "'a \<Rightarrow> ('s, 'a) cmd" where
  "ret a s = Ok a s"

definition bnd :: "('s, 'a) cmd \<Rightarrow> ('a \<Rightarrow> ('s, 'b) cmd) \<Rightarrow> ('s, 'b) cmd" where
  "bnd m f s = (case m s of Ok a s' \<Rightarrow> f a s' | Stop r s' \<Rightarrow> Stop r s')"

definition stop_with :: "stop \<Rightarrow> ('s, 'a) cmd" where
  "stop_with r s = Stop r s"

abbreviation panic :: "string \<Rightarrow> ('s, 'a) cmd" where
  "panic msg \<equiv> stop_with (Panic msg)"

abbreviation undef :: "string \<Rightarrow> ('s, 'a) cmd" where
  "undef what \<equiv> stop_with (Undef what)"

definition modify :: "('s \<Rightarrow> 's) \<Rightarrow> ('s, unit) cmd" where
  "modify f s = Ok () (f s)"

definition gets :: "('s \<Rightarrow> 'a) \<Rightarrow> ('s, 'a) cmd" where
  "gets f s = Ok (f s) s"

text \<open>\<open>withS\<close> reads the state and continues with a command that depends on it.\<close>

definition withS :: "('s \<Rightarrow> ('s, 'a) cmd) \<Rightarrow> ('s, 'a) cmd" where
  "withS f s = f s s"

text \<open>\<open>skip\<close> is the empty statement, \<open>run\<close> a block of statements in order.\<close>

definition skip :: "('s, unit) cmd" where
  "skip s = Ok () s"

primrec run :: "('s, unit) cmd list \<Rightarrow> ('s, unit) cmd" where
  "run [] = skip"
| "run (c # cs) = bnd c (\<lambda>_. run cs)"

text \<open>\<open>andthen cs m\<close>: a block of statements followed by a command that returns a value.\<close>

definition andthen :: "('s, unit) cmd list \<Rightarrow> ('s, 'a) cmd \<Rightarrow> ('s, 'a) cmd" where
  "andthen cs m = bnd (run cs) (\<lambda>_. m)"

definition unlessM :: "('s \<Rightarrow> bool) \<Rightarrow> ('s, unit) cmd \<Rightarrow> ('s, unit) cmd" where
  "unlessM P c s = (if P s then Ok () s else c s)"

definition whenM :: "('s \<Rightarrow> bool) \<Rightarrow> ('s, unit) cmd \<Rightarrow> ('s, unit) cmd" where
  "whenM P c s = (if P s then c s else Ok () s)"

text \<open>A C statement \<open>if(e) panic(msg);\<close>\<close>

definition panic_if :: "('s \<Rightarrow> bool) \<Rightarrow> string \<Rightarrow> ('s, unit) cmd" where
  "panic_if P msg s = (if P s then Stop (Panic msg) s else Ok () s)"

text \<open>A loop over a list of indices, body by body.\<close>

primrec forM :: "'i list \<Rightarrow> ('i \<Rightarrow> ('s, unit) cmd) \<Rightarrow> ('s, unit) cmd" where
  "forM [] c = skip"
| "forM (i # is) c = bnd (c i) (\<lambda>_. forM is c)"

text \<open>Discards the result of a call used as a statement.\<close>

definition call :: "('s, 'a) cmd \<Rightarrow> ('s, unit) cmd" where
  "call m = bnd m (\<lambda>_. skip)"

named_theorems exec_simps \<open>evaluation of the combinators on a given state\<close>

lemma exec_combinators [exec_simps]:
  "ret a s = Ok a s"
  "bnd m f s = (case m s of Ok a s' \<Rightarrow> f a s' | Stop r s' \<Rightarrow> Stop r s')"
  "stop_with r s = Stop r s"
  "modify g s = Ok () (g s)"
  "gets h s = Ok (h s) s"
  "withS k s = k s s"
  "skip s = Ok () s"
  "andthen cs m s = bnd (run cs) (\<lambda>_. m) s"
  "unlessM P c s = (if P s then Ok () s else c s)"
  "whenM P c s = (if P s then c s else Ok () s)"
  "panic_if P msg s = (if P s then Stop (Panic msg) s else Ok () s)"
  "call m s = bnd m (\<lambda>_. skip) s"
  by (simp_all add: ret_def bnd_def stop_with_def modify_def gets_def withS_def skip_def
      andthen_def unlessM_def whenM_def panic_if_def call_def)

lemma bnd_Ok [simp]: "m s = Ok a s' \<Longrightarrow> bnd m f s = f a s'"
  by (simp add: bnd_def)

lemma bnd_Stop [simp]: "m s = Stop r s' \<Longrightarrow> bnd m f s = Stop r s'"
  by (simp add: bnd_def)

lemma bnd_assoc: "bnd (bnd m f) g = bnd m (\<lambda>a. bnd (f a) g)"
  by (rule ext) (simp add: bnd_def split: outcome.splits)

lemma bnd_skip [simp]: "bnd m (\<lambda>_. skip) = m"
  by (rule ext) (simp add: bnd_def skip_def split: outcome.splits)

lemma bnd_eq_OkE:
  assumes "bnd m f s = Ok b s''"
  obtains a s' where "m s = Ok a s'" "f a s' = Ok b s''"
  using assms by (auto simp: bnd_def split: outcome.splits)

lemma run_append: "run (cs @ ds) = bnd (run cs) (\<lambda>_. run ds)"
  by (induction cs) (auto simp: bnd_def skip_def fun_eq_iff split: outcome.splits)


section \<open>Weakest preconditions\<close>

text \<open>
  \<open>wp m Q R s\<close>: from state \<open>s\<close>, if \<open>m\<close> returns \<open>a\<close> in \<open>s'\<close> then \<open>Q a s'\<close>, and if
  it stops for reason \<open>r\<close> in \<open>s'\<close> then \<open>R r s'\<close>. Both exits are covered, because the
  state left at \<open>Switch\<close> is the one the rest of the system continues from.
\<close>

definition wp :: "('s, 'a) cmd \<Rightarrow> ('a \<Rightarrow> 's \<Rightarrow> bool) \<Rightarrow> (stop \<Rightarrow> 's \<Rightarrow> bool) \<Rightarrow> 's \<Rightarrow> bool" where
  "wp m Q R s = (case m s of Ok a s' \<Rightarrow> Q a s' | Stop r s' \<Rightarrow> R r s')"

named_theorems wp_rules \<open>weakest preconditions of commands\<close>

lemma wp_combinators [wp_rules]:
  "wp (ret a) Q R s = Q a s"
  "wp (bnd n f) Q R s = wp n (\<lambda>b. wp (f b) Q R) R s"
  "wp (stop_with r) Q R s = R r s"
  "wp (modify g) Q' R s = Q' () (g s)"
  "wp (gets h) Q R s = Q (h s) s"
  "wp (withS k) Q R s = wp (k s) Q R s"
  "wp skip Q' R s = Q' () s"
  "wp (run []) Q' R s = Q' () s"
  "wp (run (c # cs)) Q' R s = wp c (\<lambda>_. wp (run cs) Q' R) R s"
  "wp (andthen cs m) Q R s = wp (run cs) (\<lambda>_. wp m Q R) R s"
  "wp (unlessM P c) Q' R s = (if P s then Q' () s else wp c Q' R s)"
  "wp (whenM P c) Q' R s = (if P s then wp c Q' R s else Q' () s)"
  "wp (panic_if P msg) Q' R s = (if P s then R (Panic msg) s else Q' () s)"
  "wp (call n) Q' R s = wp n (\<lambda>_. Q' ()) R s"
  "wp (if b then m else m') Q R s = (if b then wp m Q R s else wp m' Q R s)"
  by (simp_all add: wp_def exec_simps split: outcome.splits)

lemma wp_Ok: "m s = Ok a s' \<Longrightarrow> wp m Q R s = Q a s'"
  by (simp add: wp_def)

lemma wp_Stop: "m s = Stop r s' \<Longrightarrow> wp m Q R s = R r s'"
  by (simp add: wp_def)

lemma wp_OkD: "wp m Q R s \<Longrightarrow> m s = Ok a s' \<Longrightarrow> Q a s'"
  by (simp add: wp_def)

lemma wp_StopD: "wp m Q R s \<Longrightarrow> m s = Stop r s' \<Longrightarrow> R r s'"
  by (simp add: wp_def)

lemma wp_mono:
  assumes "wp m Q R s" and "\<And>a s'. Q a s' \<Longrightarrow> Q' a s'" and "\<And>r s'. R r s' \<Longrightarrow> R' r s'"
  shows "wp m Q' R' s"
  using assms by (auto simp: wp_def split: outcome.splits)

lemma wp_forM:
  assumes "I s" and "\<And>i s. i \<in> set is \<Longrightarrow> I s \<Longrightarrow> wp (c i) (\<lambda>_. I) R s"
  shows "wp (forM is c) (\<lambda>_. I) R s"
  using assms
proof (induction "is" arbitrary: s)
  case Nil
  then show ?case by (simp add: wp_rules)
next
  case (Cons i "is")
  have "wp (c i) (\<lambda>_. I) R s" using Cons.prems by simp
  then have "wp (c i) (\<lambda>_ s'. wp (forM is c) (\<lambda>_. I) R s') R s"
    by (rule wp_mono) (use Cons in auto)
  then show ?case by (simp add: wp_rules)
qed

lemma forM_append: "forM (is @ js) c = bnd (forM is c) (\<lambda>_. forM js c)"
  by (induction "is") (auto simp: bnd_def skip_def fun_eq_iff split: outcome.splits)

text \<open>A counted loop whose bodies all return, with an assertion per index.\<close>

lemma forM_upt_Ok:
  assumes "J 0 s" and "\<And>i s. i < n \<Longrightarrow> J i s \<Longrightarrow> \<exists>t. c i s = Ok () t \<and> J (Suc i) t"
  shows "\<exists>t. forM [0..<n] c s = Ok () t \<and> J n t"
  using assms
proof (induction n)
  case 0
  then show ?case by (simp add: exec_simps)
next
  case (Suc n)
  then obtain t where t: "forM [0..<n] c s = Ok () t" "J n t" by force
  moreover obtain u where "c n t = Ok () u" "J (Suc n) u" using Suc.prems(2) t(2) by blast
  ultimately show ?case by (simp add: forM_append exec_simps)
qed

text \<open>\<open>keeps I m\<close>: the command keeps the state predicate \<open>I\<close>, however it ends.\<close>

definition keeps :: "('s \<Rightarrow> bool) \<Rightarrow> ('s, 'a) cmd \<Rightarrow> bool" where
  "keeps I m \<longleftrightarrow> (\<forall>s. I s \<longrightarrow> wp m (\<lambda>_. I) (\<lambda>_. I) s)"

named_theorems keeps_intros \<open>preservation of state predicates\<close>

lemma keepsI: "(\<And>s. I s \<Longrightarrow> wp m (\<lambda>_. I) (\<lambda>_. I) s) \<Longrightarrow> keeps I m"
  by (simp add: keeps_def)

lemma keepsD: "keeps I m \<Longrightarrow> I s \<Longrightarrow> wp m (\<lambda>_. I) (\<lambda>_. I) s"
  by (simp add: keeps_def)

lemma keeps_ret [keeps_intros]: "keeps I (ret a)"
  and keeps_skip [keeps_intros]: "keeps I skip"
  and keeps_gets [keeps_intros]: "keeps I (gets h)"
  and keeps_stop [keeps_intros]: "keeps I (stop_with r)"
  and keeps_panic_if [keeps_intros]: "keeps I (panic_if P msg)"
  by (simp_all add: keeps_def wp_rules)

lemma keeps_modify: "(\<And>s. I s \<Longrightarrow> I (g s)) \<Longrightarrow> keeps I (modify g)"
  by (simp add: keeps_def wp_rules)

lemma keeps_bnd [keeps_intros]: "keeps I m \<Longrightarrow> (\<And>a. keeps I (f a)) \<Longrightarrow> keeps I (bnd m f)"
  unfolding keeps_def wp_combinators(2) by (blast intro: wp_mono)

lemma keeps_withS [keeps_intros]: "(\<And>s. keeps I (k s)) \<Longrightarrow> keeps I (withS k)"
  by (simp add: keeps_def wp_rules)

lemma keeps_if [keeps_intros]: "keeps I m \<Longrightarrow> keeps I m' \<Longrightarrow> keeps I (if b then m else m')"
  by simp

lemma keeps_run_Nil [keeps_intros]: "keeps I (run [])"
  by (simp add: keeps_def wp_rules)

lemma keeps_run_Cons [keeps_intros]: "keeps I c \<Longrightarrow> keeps I (run cs) \<Longrightarrow> keeps I (run (c # cs))"
  by (simp add: keeps_bnd)

lemma keeps_andthen [keeps_intros]: "keeps I (run cs) \<Longrightarrow> keeps I m \<Longrightarrow> keeps I (andthen cs m)"
  by (simp add: andthen_def keeps_bnd)

lemma keeps_unlessM [keeps_intros]: "keeps I c \<Longrightarrow> keeps I (unlessM P c)"
  and keeps_whenM [keeps_intros]: "keeps I c \<Longrightarrow> keeps I (whenM P c)"
  by (simp_all add: keeps_def wp_rules)

lemma keeps_call [keeps_intros]: "keeps I m \<Longrightarrow> keeps I (call m)"
  by (simp add: call_def keeps_bnd keeps_skip)

lemma keeps_forM [keeps_intros]: "(\<And>i. i \<in> set is \<Longrightarrow> keeps I (c i)) \<Longrightarrow> keeps I (forM is c)"
  by (rule keepsI, rule wp_forM) (auto dest: keepsD)

lemma keeps_Ok: "keeps I m \<Longrightarrow> I s \<Longrightarrow> m s = Ok a s' \<Longrightarrow> I s'"
  by (drule (1) keepsD) (erule (1) wp_OkD)

lemma keeps_Stop: "keeps I m \<Longrightarrow> I s \<Longrightarrow> m s = Stop r s' \<Longrightarrow> I s'"
  by (drule (1) keepsD) (erule (1) wp_StopD)


section \<open>Bytes, memories and 32-bit values\<close>

text \<open>
  A byte array or an address space is a function from addresses to bytes. Unsigned 32-bit
  quantities that are read from memory are natural numbers below \<open>2 ^ 32\<close>; \<open>u32\<close>
  is the truncation the hardware performs.
\<close>

type_synonym byte = "8 word"
type_synonym memory = "nat \<Rightarrow> byte"

definition u32 :: "nat \<Rightarrow> nat" where
  "u32 n = n mod 4294967296"

lemma u32_less [simp]: "u32 n < 4294967296"
  by (simp add: u32_def)

lemma u32_id: "n < 4294967296 \<Longrightarrow> u32 n = n"
  by (simp add: u32_def)

definition rd16 :: "memory \<Rightarrow> nat \<Rightarrow> nat" where
  "rd16 m a = unat (m a) + 256 * unat (m (a + 1))"

definition wr16 :: "memory \<Rightarrow> nat \<Rightarrow> nat \<Rightarrow> memory" where
  "wr16 m a v = m(a := word_of_nat v, a + 1 := word_of_nat (v div 256))"

definition rd32 :: "memory \<Rightarrow> nat \<Rightarrow> nat" where
  "rd32 m a = rd16 m a + 65536 * rd16 m (a + 2)"

definition wr32 :: "memory \<Rightarrow> nat \<Rightarrow> nat \<Rightarrow> memory" where
  "wr32 m a v = wr16 (wr16 m a v) (a + 2) (v div 65536)"

lemma unat_word8_of_nat [simp]: "unat (word_of_nat v :: byte) = v mod 256"
  by (simp add: unat_of_nat)

lemma rd16_wr16 [simp]: "rd16 (wr16 m a v) a = v mod 65536"
proof -
  have "v mod 256 + 256 * (v div 256 mod 256) = v mod (256 * 256)"
    by (simp only: mod_mult2_eq)
  then show ?thesis by (simp add: rd16_def wr16_def)
qed

lemma rd16_wr16_other: "b + 2 \<le> a \<or> a + 2 \<le> b \<Longrightarrow> rd16 (wr16 m a v) b = rd16 m b"
  by (auto simp: rd16_def wr16_def)

lemma rd32_wr32 [simp]: "rd32 (wr32 m a v) a = u32 v"
proof -
  have "v mod 65536 + 65536 * (v div 65536 mod 65536) = v mod (65536 * 65536)"
    by (simp only: mod_mult2_eq)
  moreover have "rd32 (wr32 m a v) a = v mod 65536 + 65536 * (v div 65536 mod 65536)"
    unfolding rd32_def wr32_def by (subst rd16_wr16_other) auto
  ultimately show ?thesis by (simp add: u32_def)
qed

lemma rd32_wr32_other: "b + 4 \<le> a \<or> a + 4 \<le> b \<Longrightarrow> rd32 (wr32 m a v) b = rd32 m b"
  by (auto simp: rd32_def wr32_def rd16_wr16_other)

lemma wr16_apply_other: "b < a \<or> a + 2 \<le> b \<Longrightarrow> wr16 m a v b = m b"
  by (auto simp: wr16_def)

lemma wr32_apply_other: "b < a \<or> a + 4 \<le> b \<Longrightarrow> wr32 m a v b = m b"
  by (auto simp: wr32_def wr16_apply_other)

lemma rd16_less: "rd16 m a < 65536"
proof -
  have "unat (m a) < 256" "unat (m (a + 1)) < 256"
    using unsigned_less [of "m a"] unsigned_less [of "m (a + 1)"] by simp_all
  then show ?thesis unfolding rd16_def by linarith
qed

lemma rd32_less: "rd32 m a < 4294967296"
  using rd16_less [of m a] rd16_less [of m "a + 2"] unfolding rd32_def by linarith

lemma rd32_cong: "(\<And>i. a \<le> i \<Longrightarrow> i < a + 4 \<Longrightarrow> m i = m' i) \<Longrightarrow> rd32 m a = rd32 m' a"
  by (simp add: rd32_def rd16_def)

text \<open>\<open>s16\<close> reads a \<open>short\<close>, \<open>s32\<close> an \<open>int\<close>, from its unsigned representation.\<close>

definition s16 :: "nat \<Rightarrow> int" where
  "s16 n = (if n < 32768 then int n else int n - 65536)"

definition s32 :: "nat \<Rightarrow> int" where
  "s32 n = (if n < 2147483648 then int n else int n - 4294967296)"

definition u16_of :: "int \<Rightarrow> nat" where
  "u16_of i = nat (i mod 65536)"

definition u32_of :: "int \<Rightarrow> nat" where
  "u32_of i = nat (i mod 4294967296)"

lemma u32_of_less [simp]: "u32_of i < 4294967296"
  by (simp add: u32_of_def nat_less_iff)

lemma s32_u32_of: "- 2147483648 \<le> i \<Longrightarrow> i < 2147483648 \<Longrightarrow> s32 (u32_of i) = i"
proof -
  assume a: "- 2147483648 \<le> i" "i < 2147483648"
  show ?thesis
  proof (cases "0 \<le> i")
    case True
    with a show ?thesis by (simp add: s32_def u32_of_def)
  next
    case False
    then have "i mod 4294967296 = i + 4294967296"
      using a by (simp add: mod_add_self2 [symmetric, of i] del: mod_add_self2)
    with a False show ?thesis by (simp add: s32_def u32_of_def)
  qed
qed

lemma u32_of_s32:
  assumes "n < 4294967296"
  shows "u32_of (s32 n) = n"
proof (cases "n < 2147483648")
  case True
  then show ?thesis by (simp add: s32_def u32_of_def)
next
  case False
  have "(int n - 4294967296) mod 4294967296 = int n mod 4294967296"
    by (simp add: minus_mod_self2)
  also have "\<dots> = int n" using assms by simp
  finally show ?thesis using False by (simp add: s32_def u32_of_def)
qed


section \<open>Searching tables\<close>

text \<open>
  Most tables of the kernel are searched by a loop from index 0 that stops at the first
  entry with some property. \<open>first_idx P xs\<close> is the index at which the loop stops.
\<close>

fun first_idx_from :: "nat \<Rightarrow> ('a \<Rightarrow> bool) \<Rightarrow> 'a list \<Rightarrow> nat option" where
  "first_idx_from i P [] = None"
| "first_idx_from i P (x # xs) = (if P x then Some i else first_idx_from (Suc i) P xs)"

abbreviation first_idx :: "('a \<Rightarrow> bool) \<Rightarrow> 'a list \<Rightarrow> nat option" where
  "first_idx \<equiv> first_idx_from 0"

lemma first_idx_from_None: "first_idx_from i P xs = None \<longleftrightarrow> (\<forall>x\<in>set xs. \<not> P x)"
  by (induction i P xs rule: first_idx_from.induct) auto

lemma first_idx_from_Some:
  "first_idx_from i P xs = Some k \<Longrightarrow>
     \<exists>d<length xs. k = i + d \<and> P (xs ! d) \<and> (\<forall>j<d. \<not> P (xs ! j))"
proof (induction xs arbitrary: i)
  case (Cons x xs)
  show ?case
  proof (cases "P x")
    case True
    with Cons.prems have "k = i" by simp
    with True show ?thesis by (intro exI [of _ 0]) simp
  next
    case False
    with Cons.prems have "first_idx_from (Suc i) P xs = Some k" by simp
    from Cons.IH [OF this] obtain d where d: "d < length xs" "k = Suc i + d" "P (xs ! d)"
      "\<forall>j<d. \<not> P (xs ! j)" by blast
    have "\<not> P ((x # xs) ! j)" if "j < Suc d" for j
      using that d(4) False by (cases j) auto
    with d show ?thesis by (intro exI [of _ "Suc d"]) simp
  qed
qed simp

lemma first_idx_Some:
  assumes "first_idx P xs = Some k"
  shows "k < length xs" "P (xs ! k)" "\<And>j. j < k \<Longrightarrow> \<not> P (xs ! j)"
  using first_idx_from_Some [OF assms] by force+

lemma first_idx_complete: "k < length xs \<Longrightarrow> P (xs ! k) \<Longrightarrow> \<exists>j\<le>k. first_idx P xs = Some j"
proof -
  assume k: "k < length xs" "P (xs ! k)"
  then have "first_idx P xs \<noteq> None" by (auto simp: first_idx_from_None)
  then obtain j where j: "first_idx P xs = Some j" by auto
  then have "\<not> k < j" using k first_idx_Some(3) by blast
  with j show ?thesis by auto
qed


lemma nth_list_update': "xs[i := x] ! j = (if i = j \<and> j < length xs then x else xs ! j)"
  by (cases "i = j") (auto simp: list_update_beyond)

lemma first_idx_append_last:
  "\<forall>x\<in>set xs. \<not> P x \<Longrightarrow> P y \<Longrightarrow> first_idx_from i P (xs @ [y]) = Some (i + length xs)"
  by (induction xs arbitrary: i) auto


section \<open>Transition systems\<close>

text \<open>
  States reachable by a step relation, and the invariant rule: a predicate that holds
  initially and is kept by every step holds in every reachable state.
\<close>

inductive reach :: "('s \<Rightarrow> bool) \<Rightarrow> ('s \<Rightarrow> 's \<Rightarrow> bool) \<Rightarrow> 's \<Rightarrow> bool"
  for ini :: "'s \<Rightarrow> bool" and step :: "'s \<Rightarrow> 's \<Rightarrow> bool" where
  reach_init: "ini s \<Longrightarrow> reach ini step s"
| reach_step: "reach ini step s \<Longrightarrow> step s t \<Longrightarrow> reach ini step t"

locale inductive_invariant =
  fixes ini :: "'s \<Rightarrow> bool" and step :: "'s \<Rightarrow> 's \<Rightarrow> bool" and inv :: "'s \<Rightarrow> bool"
  assumes inv_ini: "ini s \<Longrightarrow> inv s"
    and inv_step: "inv s \<Longrightarrow> step s t \<Longrightarrow> inv t"
begin

lemma reach_inv: "reach ini step s \<Longrightarrow> inv s"
  by (induction rule: reach.induct) (auto intro: inv_ini inv_step)

end

end
