(* ===== verification/Cstring.thy ===== *)
theory Cstring
  imports Prelude
begin

text \<open>
  \<open>string.c\<close>: the kernel's memory and string routines, as functions on a byte memory.
  Each loop is translated as written, one store at a time, so that overlapping source
  and destination behave as in the code. Addresses do not wrap around (no object spans
  the end of the address space).
\<close>

unbundle bit_operations_syntax

section \<open>Memory routines\<close>

text \<open>The string instructions of \<open>x86.h\<close>: \<open>rep stosb\<close> and \<open>rep stosl\<close>.\<close>

primrec stosb :: "memory \<Rightarrow> nat \<Rightarrow> byte \<Rightarrow> nat \<Rightarrow> memory" where
  "stosb m a b 0 = m"
| "stosb m a b (Suc n) = stosb (m(a := b)) (a + 1) b n"

definition st_word :: "memory \<Rightarrow> nat \<Rightarrow> 32 word \<Rightarrow> memory" where
  "st_word m a w = m(a := ucast w, a + 1 := ucast (drop_bit 8 w),
     a + 2 := ucast (drop_bit 16 w), a + 3 := ucast (drop_bit 24 w))"

primrec stosl :: "memory \<Rightarrow> nat \<Rightarrow> 32 word \<Rightarrow> nat \<Rightarrow> memory" where
  "stosl m a w 0 = m"
| "stosl m a w (Suc n) = stosl (st_word m a w) (a + 4) w n"

definition memset :: "memory \<Rightarrow> nat \<Rightarrow> int \<Rightarrow> nat \<Rightarrow> memory" where
  "memset m dst c n =
     (if dst mod 4 = 0 \<and> n mod 4 = 0 then
        (let c' = (word_of_int c :: 32 word) AND 0xFF
         in stosl m dst (push_bit 24 c' OR push_bit 16 c' OR push_bit 8 c' OR c') (n div 4))
      else stosb m dst (word_of_int c) n)"

primrec memcmp :: "memory \<Rightarrow> nat \<Rightarrow> nat \<Rightarrow> nat \<Rightarrow> int" where
  "memcmp m s1 s2 0 = 0"
| "memcmp m s1 s2 (Suc n) =
     (if m s1 \<noteq> m s2 then uint (m s1) - uint (m s2) else memcmp m (s1 + 1) (s2 + 1) n)"

text \<open>The two loops of \<open>memmove\<close>: from the top down, and from the bottom up.\<close>

primrec memmove_down :: "memory \<Rightarrow> nat \<Rightarrow> nat \<Rightarrow> nat \<Rightarrow> memory" where
  "memmove_down m d s 0 = m"
| "memmove_down m d s (Suc n) = memmove_down (m(d - 1 := m (s - 1))) (d - 1) (s - 1) n"

primrec memmove_up :: "memory \<Rightarrow> nat \<Rightarrow> nat \<Rightarrow> nat \<Rightarrow> memory" where
  "memmove_up m d s 0 = m"
| "memmove_up m d s (Suc n) = memmove_up (m(d := m s)) (d + 1) (s + 1) n"

definition memmove :: "memory \<Rightarrow> nat \<Rightarrow> nat \<Rightarrow> nat \<Rightarrow> memory" where
  "memmove m dst src n =
     (if src < dst \<and> src + n > dst then memmove_down m (dst + n) (src + n) n
      else memmove_up m dst src n)"

definition memcpy :: "memory \<Rightarrow> nat \<Rightarrow> nat \<Rightarrow> nat \<Rightarrow> memory" where
  "memcpy m dst src n = memmove m dst src n"


section \<open>Strings\<close>

primrec strncmp :: "memory \<Rightarrow> nat \<Rightarrow> nat \<Rightarrow> nat \<Rightarrow> int" where
  "strncmp m p q 0 = 0"
| "strncmp m p q (Suc n) =
     (if m p \<noteq> 0 \<and> m p = m q then strncmp m (p + 1) (q + 1) n else uint (m p) - uint (m q))"

text \<open>The second loop of \<open>strncpy\<close> pads with zeros; the first copies up to the NUL.\<close>

primrec strncpy_pad :: "memory \<Rightarrow> nat \<Rightarrow> nat \<Rightarrow> memory" where
  "strncpy_pad m s 0 = m"
| "strncpy_pad m s (Suc n) = strncpy_pad (m(s := 0)) (s + 1) n"

primrec strncpy_loop :: "memory \<Rightarrow> nat \<Rightarrow> nat \<Rightarrow> nat \<Rightarrow> memory" where
  "strncpy_loop m s t 0 = m"
| "strncpy_loop m s t (Suc n) =
     (if m t \<noteq> 0 then strncpy_loop (m(s := m t)) (s + 1) (t + 1) n
      else strncpy_pad (m(s := m t)) (s + 1) n)"

definition strncpy :: "memory \<Rightarrow> nat \<Rightarrow> nat \<Rightarrow> int \<Rightarrow> memory" where
  "strncpy m s t n = strncpy_loop m s t (nat n)"

text \<open>
  \<open>safestrcpy_loop\<close> is \<open>while(--n > 0 && (*s++ = *t++) != 0); *s = 0;\<close> with the number of
  further characters that fit as its last argument.
\<close>

primrec safestrcpy_loop :: "memory \<Rightarrow> nat \<Rightarrow> nat \<Rightarrow> nat \<Rightarrow> memory" where
  "safestrcpy_loop m s t 0 = m(s := 0)"
| "safestrcpy_loop m s t (Suc n) =
     (if m t \<noteq> 0 then safestrcpy_loop (m(s := m t)) (s + 1) (t + 1) n
      else (m(s := m t))(s + 1 := 0))"

definition safestrcpy :: "memory \<Rightarrow> nat \<Rightarrow> nat \<Rightarrow> int \<Rightarrow> memory" where
  "safestrcpy m s t n = (if n \<le> 0 then m else safestrcpy_loop m s t (nat (n - 1)))"

text \<open>\<open>strlen\<close> does not return when the memory holds no NUL; that is the value \<open>None\<close>.\<close>

partial_function (option) strlen_loop :: "memory \<Rightarrow> nat \<Rightarrow> nat \<Rightarrow> nat option" where
  "strlen_loop m s n = (if m (s + n) \<noteq> 0 then strlen_loop m s (n + 1) else Some n)"

definition strlen :: "memory \<Rightarrow> nat \<Rightarrow> nat option" where
  "strlen m s = strlen_loop m s 0"


section \<open>What the routines compute\<close>

text \<open>\<open>mem_copy m d s n\<close> is the memory in which the \<open>n\<close> bytes at \<open>s\<close> are placed at \<open>d\<close>.\<close>

definition mem_copy :: "memory \<Rightarrow> nat \<Rightarrow> nat \<Rightarrow> nat \<Rightarrow> memory" where
  "mem_copy m d s n = (\<lambda>x. if d \<le> x \<and> x < d + n then m (s + (x - d)) else m x)"

definition mem_fill :: "memory \<Rightarrow> nat \<Rightarrow> byte \<Rightarrow> nat \<Rightarrow> memory" where
  "mem_fill m a b n = (\<lambda>x. if a \<le> x \<and> x < a + n then b else m x)"

lemma stosb_fill: "stosb m a b n = mem_fill m a b n"
  by (induction n arbitrary: m a) (auto simp: mem_fill_def fun_eq_iff)

lemma byte_pattern:
  fixes c :: "32 word"
  defines "w \<equiv> push_bit 24 (c AND 0xFF) OR push_bit 16 (c AND 0xFF) OR push_bit 8 (c AND 0xFF) OR (c AND 0xFF)"
  shows "(ucast w :: byte) = ucast c" "(ucast (drop_bit 8 w) :: byte) = ucast c"
    "(ucast (drop_bit 16 w) :: byte) = ucast c" "(ucast (drop_bit 24 w) :: byte) = ucast c"
proof -
  have m: "(0xFF :: 32 word) = mask 8" by (simp add: mask_eq_exp_minus_1)
  show "(ucast w :: byte) = ucast c" "(ucast (drop_bit 8 w) :: byte) = ucast c"
    "(ucast (drop_bit 16 w) :: byte) = ucast c" "(ucast (drop_bit 24 w) :: byte) = ucast c"
    unfolding w_def m by (rule bit_word_eqI; auto simp: bit_simps)+
qed

lemma stosl_fill:
  assumes "(ucast w :: byte) = b" "(ucast (drop_bit 8 w) :: byte) = b"
    "(ucast (drop_bit 16 w) :: byte) = b" "(ucast (drop_bit 24 w) :: byte) = b"
  shows "stosl m a w n = mem_fill m a b (4 * n)"
proof (induction n arbitrary: m a)
  case 0
  then show ?case by (auto simp: mem_fill_def fun_eq_iff)
next
  case (Suc n)
  have "st_word m a w = mem_fill m a b 4"
    using assms by (auto simp: st_word_def mem_fill_def fun_eq_iff)
  with Suc show ?case by (auto simp: mem_fill_def fun_eq_iff)
qed

lemma memmove_up_copy: "s \<ge> d \<or> s + n \<le> d \<Longrightarrow> memmove_up m d s n = mem_copy m d s n"
proof (induction n arbitrary: m d s)
  case 0
  then show ?case by (auto simp: mem_copy_def fun_eq_iff)
next
  case (Suc n)
  then have "memmove_up (m(d := m s)) (d + 1) (s + 1) n = mem_copy (m(d := m s)) (d + 1) (s + 1) n"
    by (intro Suc.IH) auto
  also have "\<dots> = mem_copy m d s (Suc n)"
  proof (rule ext)
    fix x
    have "s + 1 + (x - (d + 1)) = s + (x - d)" "s + (x - d) \<noteq> d" if "d < x" "x < d + Suc n"
      using that Suc.prems by auto
    then show "mem_copy (m(d := m s)) (d + 1) (s + 1) n x = mem_copy m d s (Suc n) x"
      by (cases "x = d") (auto simp: mem_copy_def)
  qed
  finally show ?case by simp
qed

lemma memmove_down_copy: "s < d \<Longrightarrow> memmove_down m (d + n) (s + n) n = mem_copy m d s n"
proof (induction n arbitrary: m)
  case 0
  then show ?case by (auto simp: mem_copy_def fun_eq_iff)
next
  case (Suc n)
  let ?m = "m(d + n := m (s + n))"
  have "memmove_down m (d + Suc n) (s + Suc n) (Suc n) = mem_copy ?m d s n"
    using Suc by simp
  also have "\<dots> = mem_copy m d s (Suc n)"
    using Suc.prems by (auto simp: mem_copy_def fun_eq_iff less_Suc_eq)
  finally show ?case .
qed

text \<open>\<open>cstr m a n\<close>: the characters of the string at \<open>a\<close>, cut at its NUL or after \<open>n\<close> bytes.\<close>

primrec cstr :: "memory \<Rightarrow> nat \<Rightarrow> nat \<Rightarrow> byte list" where
  "cstr m a 0 = []"
| "cstr m a (Suc n) = (if m a = 0 then [] else m a # cstr m (a + 1) n)"

lemma cstr_cong: "(\<And>x. a \<le> x \<Longrightarrow> x < a + n \<Longrightarrow> m x = m' x) \<Longrightarrow> cstr m a n = cstr m' a n"
  by (induction n arbitrary: a) auto

lemma length_cstr: "length (cstr m a n) \<le> n"
  by (induction n arbitrary: a) auto

lemma strncmp_cstr: "strncmp m p q n = 0 \<longleftrightarrow> cstr m p n = cstr m q n"
  by (induction n arbitrary: p q) (auto simp: word_uint_eq_iff)

lemma strncpy_pad_fill: "strncpy_pad m s n = mem_fill m s 0 n"
  by (induction n arbitrary: m s) (auto simp: mem_fill_def fun_eq_iff)

lemma strncpy_loop_frame: "x < s \<or> s + n \<le> x \<Longrightarrow> strncpy_loop m s t n x = m x"
  by (induction n arbitrary: m s t) (auto simp: strncpy_pad_fill mem_fill_def)

lemma strncpy_loop_cstr:
  "s + n \<le> t \<or> t + n \<le> s \<Longrightarrow> cstr (strncpy_loop m s t n) s n = cstr m t n"
proof (induction n arbitrary: m s t)
  case (Suc n)
  show ?case
  proof (cases "m t = 0")
    case True
    then show ?thesis using Suc.prems by (simp add: strncpy_pad_fill mem_fill_def)
  next
    case False
    let ?m = "m(s := m t)"
    have "cstr (strncpy_loop ?m (s + 1) (t + 1) n) (s + 1) n = cstr ?m (t + 1) n"
      using Suc.prems by (intro Suc.IH) auto
    also have "\<dots> = cstr m (t + 1) n" using Suc.prems by (intro cstr_cong) auto
    finally show ?thesis using False by (simp add: strncpy_loop_frame)
  qed
qed simp

lemma safestrcpy_loop_frame: "x < s \<or> s + n < x \<Longrightarrow> safestrcpy_loop m s t n x = m x"
  by (induction n arbitrary: m s t) auto

lemma safestrcpy_loop_cstr:
  "s + n < t \<or> t + n \<le> s \<Longrightarrow> cstr (safestrcpy_loop m s t n) s (Suc n) = cstr m t n"
proof (induction n arbitrary: m s t)
  case (Suc n)
  show ?case
  proof (cases "m t = 0")
    case True
    then show ?thesis by simp
  next
    case False
    let ?m = "m(s := m t)"
    have "cstr (safestrcpy_loop ?m (s + 1) (t + 1) n) (s + 1) (Suc n) = cstr ?m (t + 1) n"
      using Suc.prems by (intro Suc.IH) auto
    also have "\<dots> = cstr m (t + 1) n" using Suc.prems by (intro cstr_cong) auto
    finally have "cstr (safestrcpy_loop ?m (s + 1) (t + 1) n) (s + 1) (Suc n) = cstr m (t + 1) n" .
    moreover have "safestrcpy_loop ?m (s + 1) (t + 1) n s = m t"
      by (simp add: safestrcpy_loop_frame)
    ultimately show ?thesis using False by (subst cstr.simps(2)) simp
  qed
qed simp

lemma safestrcpy_loop_nul: "\<exists>k\<le>n. safestrcpy_loop m s t n (s + k) = 0"
proof (induction n arbitrary: m s t)
  case (Suc n)
  obtain k where k: "k \<le> n" "safestrcpy_loop (m(s := m t)) (s + 1) (t + 1) n (s + 1 + k) = 0"
    using Suc.IH by blast
  then show ?case
    by (cases "m t = 0") (auto intro: exI [of _ "Suc k"] exI [of _ "Suc 0"])
qed simp

lemma strlen_loop_nul:
  assumes "m (s + k) = 0" "n \<le> k" "\<And>i. n \<le> i \<Longrightarrow> i < k \<Longrightarrow> m (s + i) \<noteq> 0"
  shows "strlen_loop m s n = Some k"
  using assms
proof (induction "k - n" arbitrary: n)
  case 0
  then show ?case by (subst strlen_loop.simps) simp
next
  case (Suc d)
  then have "n < k" "strlen_loop m s (n + 1) = Some k" by auto
  with Suc.prems show ?case by (subst strlen_loop.simps) simp
qed

lemma strlen_loop_Some:
  assumes "strlen_loop m s n = Some k"
  shows "n \<le> k \<and> m (s + k) = 0 \<and> (\<forall>i. n \<le> i \<longrightarrow> i < k \<longrightarrow> m (s + i) \<noteq> 0)"
proof (rule strlen_loop.raw_induct [where P = "\<lambda>m s n k. n \<le> k \<and> m (s + k) = 0 \<and>
    (\<forall>i. n \<le> i \<longrightarrow> i < k \<longrightarrow> m (s + i) \<noteq> 0)", OF _ assms])
  fix f :: "memory \<Rightarrow> nat \<Rightarrow> nat \<Rightarrow> nat option" and m s n k
  assume IH: "\<And>m s n k. f m s n = Some k \<Longrightarrow>
      n \<le> k \<and> m (s + k) = 0 \<and> (\<forall>i. n \<le> i \<longrightarrow> i < k \<longrightarrow> m (s + i) \<noteq> 0)"
    and eq: "(if m (s + n) \<noteq> 0 then f m s (n + 1) else Some n) = Some k"
  show "n \<le> k \<and> m (s + k) = 0 \<and> (\<forall>i. n \<le> i \<longrightarrow> i < k \<longrightarrow> m (s + i) \<noteq> 0)"
  proof (cases "m (s + n) = 0")
    case True
    with eq show ?thesis by auto
  next
    case False
    with eq IH [of m s "n + 1" k] have "n + 1 \<le> k \<and> m (s + k) = 0 \<and>
        (\<forall>i. n + 1 \<le> i \<longrightarrow> i < k \<longrightarrow> m (s + i) \<noteq> 0)" by simp
    moreover have "m (s + i) \<noteq> 0" if "n \<le> i" "i < k" for i
      using that False calculation by (cases "i = n") auto
    ultimately show ?thesis by auto
  qed
qed


section \<open>Properties\<close>

text \<open>
  C30. \<open>memmove\<close> is correct for every overlap: whichever direction the code picks, the
  destination afterwards holds the bytes the source held before, and nothing else changes.
\<close>

theorem memmove_correct: "memmove m dst src n = mem_copy m dst src n"
proof (cases "src < dst \<and> src + n > dst")
  case True
  then show ?thesis by (simp add: memmove_def memmove_down_copy)
next
  case False
  then have "src \<ge> dst \<or> src + n \<le> dst" by auto
  then show ?thesis using False by (auto simp: memmove_def memmove_up_copy)
qed

lemma memset_fill: "memset m dst c n = mem_fill m dst (word_of_int c) n"
proof (cases "dst mod 4 = 0 \<and> n mod 4 = 0")
  case True
  let ?c = "word_of_int c :: 32 word"
  have c: "(ucast ?c :: byte) = word_of_int c"
    by (rule bit_word_eqI) (simp add: bit_simps)
  have n: "4 * (n div 4) = n" using True by auto
  show ?thesis
    using True stosl_fill [OF byte_pattern, of m dst ?c "n div 4"] by (simp add: memset_def Let_def c n)
qed (auto simp: memset_def stosb_fill)

text \<open>
  Both paths of \<open>memset\<close> (four bytes at a time with a replicated pattern when address and
  size are aligned, byte by byte otherwise) fill exactly the \<open>n\<close> bytes with the low byte of \<open>c\<close>.
\<close>

theorem memset_correct: "memset m dst c n = mem_fill m dst (word_of_int c) n"
  by (rule memset_fill)

text \<open>
  \<open>safestrcpy\<close> into an \<open>n\<close>-byte buffer always leaves a NUL-terminated string, equal to the
  source truncated to \<open>n - 1\<close> characters, and writes only inside the buffer.
\<close>

theorem safestrcpy_correct:
  assumes "0 < n" and "s + nat n \<le> t \<or> t + nat n \<le> s"
  shows "(\<exists>k<nat n. safestrcpy m s t n (s + k) = 0) \<and>
    cstr (safestrcpy m s t n) s (nat n) = cstr m t (nat n - 1) \<and>
    (\<forall>x. x < s \<or> s + nat n \<le> x \<longrightarrow> safestrcpy m s t n x = m x)"
proof -
  obtain k where k: "nat n = Suc k" "nat (n - 1) = k" using assms(1)
    by (metis Suc_nat_eq_nat_zadd1 add.commute diff_add_cancel zle_diff1_eq)
  then have "cstr (safestrcpy_loop m s t k) s (Suc k) = cstr m t k"
    using assms by (intro safestrcpy_loop_cstr) auto
  then show ?thesis
    using assms(1) k safestrcpy_loop_nul [of k m s t] safestrcpy_loop_frame [of _ s k m t]
    by (auto simp: safestrcpy_def less_Suc_eq_le)
qed

theorem safestrcpy_correct_witness:
  "cstr (safestrcpy ((\<lambda>_. 7)(3 := 0)) 10 0 3) 10 3 = [7, 7]"
proof -
  have "cstr ((\<lambda>_. 7)(3 := 0)) 0 (Suc (Suc 0)) = [7, 7]"
    by simp
  then have "cstr ((\<lambda>_. 7)(3 := 0)) 0 2 = [7, 7]"
    by (simp only: numeral_2_eq_2)
  then show ?thesis using safestrcpy_correct [of 3 10 0 "(\<lambda>_. 7)(3 := 0)"] by simp
qed

text \<open>
  \<open>strlen\<close> returns exactly when a NUL follows, and then its distance; the loop runs
  forever otherwise.
\<close>

theorem strlen_correct:
  "strlen m s = Some k \<longleftrightarrow> m (s + k) = 0 \<and> (\<forall>i<k. m (s + i) \<noteq> 0)"
proof
  assume "strlen m s = Some k"
  then show "m (s + k) = 0 \<and> (\<forall>i<k. m (s + i) \<noteq> 0)"
    using strlen_loop_Some [of m s 0 k] by (simp add: strlen_def)
next
  assume "m (s + k) = 0 \<and> (\<forall>i<k. m (s + i) \<noteq> 0)"
  then show "strlen m s = Some k" by (simp add: strlen_def strlen_loop_nul)
qed

theorem strlen_correct_witness: "strlen ((\<lambda>_. 7)(13 := 0)) 10 = Some 3"
  using strlen_correct [of "(\<lambda>_. 7)(13 := 0)" 10 3] by auto

end
