(* ===== verification/Spinlock.thy ===== *)
theory Spinlock
  imports Prelude
begin

text \<open>
  The base of the kernel state and \<open>spinlock.c\<close>: the processors (\<open>struct cpu\<close> of
  \<open>proc.h\<close>), the memory, the spinlocks and the console log, with \<open>pushcli\<close>/\<open>popcli\<close>,
  \<open>acquire\<close>/\<open>release\<close>/\<open>holding\<close> and the call-stack recorder \<open>getcallerpcs\<close>.
  Later theories extend the record \<open>mach\<close> with their own globals; the operations here
  are polymorphic in that extension.
\<close>

section \<open>State\<close>

text \<open>
  A spinlock is identified by the object it is embedded in; distinct objects are distinct
  locks. \<open>LPipe a\<close> is the lock of the pipe at address \<open>a\<close>, \<open>LSleep\<close> the spinlock inside
  a sleep lock.
\<close>

datatype sleepid = SBuf nat | SInode nat

datatype lockid = LPtable | LKmem | LTicks | LBcache | LIcache | LFtable | LLog | LCons
  | LIde | LPipe nat | LSleep sleepid

record spinlock =
  l_locked :: nat
  l_name :: string
  l_cpu :: "nat option"
  l_pcs :: "nat list"

text \<open>Segment descriptors (\<open>mmu.h\<close>), with the bit fields as numbers.\<close>

record segdesc =
  sd_lim_15_0 :: nat
  sd_base_15_0 :: nat
  sd_base_23_16 :: nat
  sd_type :: nat
  sd_s :: nat
  sd_dpl :: nat
  sd_p :: nat
  sd_lim_19_16 :: nat
  sd_avl :: nat
  sd_rsv1 :: nat
  sd_db :: nat
  sd_g :: nat
  sd_base_31_24 :: nat

text \<open>
  \<open>struct cpu\<close>. \<open>c_gs\<close> and \<open>c_tr\<close> are the segment and task registers, \<open>c_if\<close> is the interrupt flag of the processor's \<open>eflags\<close>, \<open>c_cr3\<close> its page
  table register and \<open>c_frame\<close> the address of the argument of the function it executes,
  which \<open>getcallerpcs\<close> starts from.
\<close>

record cpu =
  c_apicid :: nat
  c_scheduler :: nat
  c_ts_esp0 :: nat
  c_ts_ss0 :: nat
  c_ts_iomb :: nat
  c_gdt :: "segdesc list"
  c_gs :: nat
  c_tr :: nat
  c_started :: nat
  c_ncli :: int
  c_intena :: nat
  c_proc :: "nat option"
  c_if :: bool
  c_cr3 :: nat
  c_frame :: nat

datatype parg = PInt int | PStr string | PPtr nat

record mach =
  mem :: memory
  cpus :: "cpu list"
  cur :: nat
  locks :: "lockid \<Rightarrow> spinlock"
  cons_out :: "(string \<times> parg list) list"

definition FL_IF :: nat where "FL_IF = 512"

definition KERNBASE :: nat where "KERNBASE = 2147483648"

definition the_cpu :: "'z mach_scheme \<Rightarrow> cpu" where
  "the_cpu s = cpus s ! cur s"

definition upd_cpu :: "(cpu \<Rightarrow> cpu) \<Rightarrow> ('z mach_scheme, unit) cmd" where
  "upd_cpu f = modify (\<lambda>s. s\<lparr>cpus := (cpus s)[cur s := f (the_cpu s)]\<rparr>)"

definition upd_lock :: "lockid \<Rightarrow> (spinlock \<Rightarrow> spinlock) \<Rightarrow> ('z mach_scheme, unit) cmd" where
  "upd_lock lk f = modify (\<lambda>s. s\<lparr>locks := (locks s)(lk := f (locks s lk))\<rparr>)"

text \<open>Output to the console, kept as the sequence of the formats and arguments printed.\<close>

definition cprintf :: "string \<Rightarrow> parg list \<Rightarrow> ('z mach_scheme, unit) cmd" where
  "cprintf fmt args = modify (\<lambda>s. s\<lparr>cons_out := cons_out s @ [(fmt, args)]\<rparr>)"


section \<open>Interrupt nesting\<close>

definition cli :: "('z mach_scheme, unit) cmd" where
  "cli = upd_cpu (\<lambda>c. c\<lparr>c_if := False\<rparr>)"

definition sti :: "('z mach_scheme, unit) cmd" where
  "sti = upd_cpu (\<lambda>c. c\<lparr>c_if := True\<rparr>)"

definition pushcli :: "('z mach_scheme, unit) cmd" where
  "pushcli = bnd (gets (\<lambda>s. c_if (the_cpu s))) (\<lambda>eflags. run
     [cli,
      whenM (\<lambda>s. c_ncli (the_cpu s) = 0)
        (upd_cpu (\<lambda>c. c\<lparr>c_intena := if eflags then FL_IF else 0\<rparr>)),
      upd_cpu (\<lambda>c. c\<lparr>c_ncli := c_ncli c + 1\<rparr>)])"

definition popcli :: "('z mach_scheme, unit) cmd" where
  "popcli = run
     [panic_if (\<lambda>s. c_if (the_cpu s)) ''popcli - interruptible'',
      upd_cpu (\<lambda>c. c\<lparr>c_ncli := c_ncli c - 1\<rparr>),
      panic_if (\<lambda>s. c_ncli (the_cpu s) < 0) ''popcli'',
      whenM (\<lambda>s. c_ncli (the_cpu s) = 0 \<and> c_intena (the_cpu s) \<noteq> 0) sti]"


section \<open>Spinlocks\<close>

definition initlock :: "lockid \<Rightarrow> string \<Rightarrow> ('z mach_scheme, unit) cmd" where
  "initlock lk nm = upd_lock lk (\<lambda>l. l\<lparr>l_name := nm, l_locked := 0, l_cpu := None\<rparr>)"

definition holding :: "lockid \<Rightarrow> 'z mach_scheme \<Rightarrow> bool" where
  "holding lk s \<longleftrightarrow> l_locked (locks s lk) \<noteq> 0 \<and> l_cpu (locks s lk) = Some (cur s)"

text \<open>
  \<open>getcallerpcs v\<close> follows the chain of saved frame pointers from \<open>v - 2\<close> (in units of
  \<open>uint\<close>); the first argument counts the entries of \<open>pcs\<close> that are left.
\<close>

primrec callerpcs_loop :: "nat \<Rightarrow> memory \<Rightarrow> nat \<Rightarrow> nat list" where
  "callerpcs_loop 0 m ebp = []"
| "callerpcs_loop (Suc k) m ebp =
     (if ebp = 0 \<or> ebp < KERNBASE \<or> ebp = 4294967295 then replicate (Suc k) 0
      else rd32 m (ebp + 4) # callerpcs_loop k m (rd32 m ebp))"

definition getcallerpcs :: "memory \<Rightarrow> nat \<Rightarrow> nat list" where
  "getcallerpcs m v = callerpcs_loop 10 m (u32_of (int v - 8))"

text \<open>
  The loop \<open>while(xchg(&lk->locked, 1) != 0);\<close> leaves \<open>locked\<close> at 1 and falls through when
  the old value was 0; otherwise it goes on spinning.
\<close>

definition xchg_loop :: "lockid \<Rightarrow> ('z mach_scheme, unit) cmd" where
  "xchg_loop lk = bnd (gets (\<lambda>s. l_locked (locks s lk))) (\<lambda>old. run
     [upd_lock lk (\<lambda>l. l\<lparr>l_locked := 1\<rparr>),
      if old \<noteq> 0 then stop_with Spin else skip])"

definition acquire :: "lockid \<Rightarrow> ('z mach_scheme, unit) cmd" where
  "acquire lk = run
     [pushcli,
      panic_if (holding lk) ''acquire'',
      xchg_loop lk,
      withS (\<lambda>s. upd_lock lk (\<lambda>l. l\<lparr>l_cpu := Some (cur s)\<rparr>)),
      withS (\<lambda>s. upd_lock lk (\<lambda>l. l\<lparr>l_pcs := getcallerpcs (mem s) (c_frame (the_cpu s))\<rparr>))]"

definition release :: "lockid \<Rightarrow> ('z mach_scheme, unit) cmd" where
  "release lk = run
     [panic_if (\<lambda>s. \<not> holding lk s) ''release'',
      upd_lock lk (\<lambda>l. l\<lparr>l_pcs := (l_pcs l)[0 := 0]\<rparr>),
      upd_lock lk (\<lambda>l. l\<lparr>l_cpu := None\<rparr>),
      upd_lock lk (\<lambda>l. l\<lparr>l_locked := 0\<rparr>),
      popcli]"


section \<open>Weakest preconditions and frame facts\<close>

lemma the_cpu_upd [simp]:
  "cur s < length (cpus s) \<Longrightarrow> the_cpu (s\<lparr>cpus := (cpus s)[cur s := c]\<rparr>) = c"
  by (simp add: the_cpu_def)

lemma wp_upd_cpu [wp_rules]:
  "wp (upd_cpu f) Q R s = Q () (s\<lparr>cpus := (cpus s)[cur s := f (the_cpu s)]\<rparr>)"
  by (simp add: upd_cpu_def wp_rules)

lemma wp_upd_lock [wp_rules]:
  "wp (upd_lock lk f) Q R s = Q () (s\<lparr>locks := (locks s)(lk := f (locks s lk))\<rparr>)"
  by (simp add: upd_lock_def wp_rules)

lemma wp_cprintf [wp_rules]:
  "wp (cprintf fmt args) Q R s = Q () (s\<lparr>cons_out := cons_out s @ [(fmt, args)]\<rparr>)"
  by (simp add: cprintf_def wp_rules)

lemmas spin_defs = pushcli_def popcli_def cli_def sti_def initlock_def xchg_loop_def
  acquire_def release_def

lemma length_callerpcs_loop: "length (callerpcs_loop k m ebp) = k"
  by (induction k arbitrary: ebp) auto

lemma length_getcallerpcs [simp]: "length (getcallerpcs m v) = 10"
  by (simp add: getcallerpcs_def length_callerpcs_loop)

text \<open>The lock operations touch only the processors and the locks.\<close>

lemma keeps_upd_cpu: "(\<And>s f. I s \<Longrightarrow> I (s\<lparr>cpus := f\<rparr>)) \<Longrightarrow> keeps I (upd_cpu g)"
  by (simp add: keeps_def wp_rules)

lemma keeps_upd_lock: "(\<And>s f. I s \<Longrightarrow> I (s\<lparr>locks := f\<rparr>)) \<Longrightarrow> keeps I (upd_lock lk g)"
  by (simp add: keeps_def wp_rules)

text \<open>
  \<open>lock_indep I\<close>: the predicate \<open>I\<close> depends neither on the processors nor on the locks.
  Every such predicate is kept by all the operations of this theory.
\<close>

definition lock_indep :: "('z mach_scheme \<Rightarrow> bool) \<Rightarrow> bool" where
  "lock_indep I \<longleftrightarrow> (\<forall>s c l. I (s\<lparr>cpus := c\<rparr>) = I s \<and> I (s\<lparr>locks := l\<rparr>) = I s)"

lemma lock_indepI:
  "(\<And>s c. I (s\<lparr>cpus := c\<rparr>) = I s) \<Longrightarrow> (\<And>s l. I (s\<lparr>locks := l\<rparr>) = I s) \<Longrightarrow> lock_indep I"
  by (simp add: lock_indep_def)

lemma keeps_cpu_lock:
  assumes "lock_indep I"
  shows "keeps I (upd_cpu f)" "keeps I (upd_lock lk g)"
  using assms by (auto simp: lock_indep_def keeps_def wp_rules)

lemma keeps_spin_ops:
  assumes "lock_indep I"
  shows "keeps I cli" "keeps I sti" "keeps I pushcli" "keeps I popcli"
    "keeps I (acquire lk)" "keeps I (release lk)" "keeps I (initlock lk nm)"
  unfolding spin_defs
  by (auto intro!: keeps_intros keeps_cpu_lock [OF assms] simp del: run.simps split: if_splits)


section \<open>Effect of the lock operations\<close>

text \<open>
  The states in which a successful \<open>acquire\<close> and \<open>release\<close> end, written without the
  intermediate steps.
\<close>

definition acquired :: "lockid \<Rightarrow> 'z mach_scheme \<Rightarrow> 'z mach_scheme" where
  "acquired lk s = s\<lparr>
     cpus := (cpus s)[cur s := (the_cpu s)\<lparr>c_if := False,
        c_intena := (if c_ncli (the_cpu s) = 0 then (if c_if (the_cpu s) then FL_IF else 0)
                     else c_intena (the_cpu s)),
        c_ncli := c_ncli (the_cpu s) + 1\<rparr>],
     locks := (locks s)(lk := (locks s lk)\<lparr>l_locked := 1, l_cpu := Some (cur s),
        l_pcs := getcallerpcs (mem s) (c_frame (the_cpu s))\<rparr>)\<rparr>"

definition released :: "lockid \<Rightarrow> 'z mach_scheme \<Rightarrow> 'z mach_scheme" where
  "released lk s = s\<lparr>
     locks := (locks s)(lk := (locks s lk)\<lparr>l_pcs := (l_pcs (locks s lk))[0 := 0],
        l_cpu := None, l_locked := 0\<rparr>),
     cpus := (cpus s)[cur s := (the_cpu s)\<lparr>c_ncli := c_ncli (the_cpu s) - 1,
        c_if := (c_ncli (the_cpu s) = 1 \<and> c_intena (the_cpu s) \<noteq> 0)\<rparr>]\<rparr>"

lemma c_if_False: "\<not> c_if c \<Longrightarrow> \<not> b \<Longrightarrow> c\<lparr>c_ncli := n, c_if := b\<rparr> = c\<lparr>c_ncli := n\<rparr>"
  by (cases c) simp

lemma acquire_Ok:
  assumes "cur s < length (cpus s)" "l_locked (locks s lk) = 0"
  shows "acquire lk s = Ok () (acquired lk s)"
  using assms
  by (simp add: acquire_def pushcli_def cli_def xchg_loop_def exec_simps upd_cpu_def upd_lock_def
      holding_def acquired_def the_cpu_def)

lemma acquire_Spin:
  assumes "cur s < length (cpus s)" "l_locked (locks s lk) \<noteq> 0" "l_cpu (locks s lk) \<noteq> Some (cur s)"
  shows "\<exists>t. acquire lk s = Stop Spin t"
  using assms
  by (simp add: acquire_def pushcli_def cli_def xchg_loop_def exec_simps upd_cpu_def upd_lock_def
      holding_def)

lemma acquire_Panic:
  assumes "cur s < length (cpus s)" "holding lk s"
  shows "\<exists>t. acquire lk s = Stop (Panic ''acquire'') t"
  using assms
  by (simp add: acquire_def pushcli_def cli_def exec_simps upd_cpu_def holding_def)

lemma release_Ok:
  assumes "cur s < length (cpus s)" "holding lk s" "\<not> c_if (the_cpu s)" "0 < c_ncli (the_cpu s)"
  shows "release lk s = Ok () (released lk s)"
  using assms
  by (cases "c_ncli (the_cpu s) = 1 \<and> c_intena (the_cpu s) \<noteq> 0")
    (auto simp: release_def popcli_def sti_def exec_simps upd_cpu_def upd_lock_def
      holding_def released_def the_cpu_def c_if_False)

lemma release_Panic: "\<not> holding lk s \<Longrightarrow> release lk s = Stop (Panic ''release'') s"
  by (simp add: release_def exec_simps)


text \<open>The lock can be taken, and the interrupt state of the processor is consistent.\<close>

definition lock_ready :: "lockid \<Rightarrow> 'z mach_scheme \<Rightarrow> bool" where
  "lock_ready lk s \<longleftrightarrow> cur s < length (cpus s) \<and> l_locked (locks s lk) = 0 \<and>
     0 \<le> c_ncli (the_cpu s) \<and> (c_if (the_cpu s) \<longrightarrow> c_ncli (the_cpu s) = 0)"

lemma acquire_ready: "lock_ready lk s \<Longrightarrow> acquire lk s = Ok () (acquired lk s)"
  by (simp add: lock_ready_def acquire_Ok)

text \<open>
  A critical section: a body that leaves the processors and the locks alone can always be
  followed by \<open>release\<close>, and the lock can then be taken again.
\<close>

lemma release_acquired:
  assumes "lock_ready lk s" "cpus t = cpus (acquired lk s)" "locks t = locks (acquired lk s)"
    "cur t = cur s"
  shows "release lk t = Ok () (released lk t)"
  by (rule release_Ok) (use assms in \<open>auto simp: lock_ready_def acquired_def holding_def the_cpu_def\<close>)

lemma lock_ready_released:
  assumes "lock_ready lk s" "cpus t = cpus (acquired lk s)" "locks t = locks (acquired lk s)"
    "cur t = cur s"
  shows "lock_ready lk (released lk t)"
  using assms by (auto simp: lock_ready_def acquired_def released_def the_cpu_def)


section \<open>Locking between processors\<close>

text \<open>
  The processors take turns at steps of the lock code. A processor that fails to get
  the lock stays in the loop \<open>while(xchg(...))\<close>: \<open>spin_retry\<close> is the rest of
  \<open>acquire\<close> from that loop on, and the second component of the system state says
  which lock each processor spins for.
\<close>

definition spin_retry :: "lockid \<Rightarrow> ('z mach_scheme, unit) cmd" where
  "spin_retry lk = run
     [xchg_loop lk,
      withS (\<lambda>s. upd_lock lk (\<lambda>l. l\<lparr>l_cpu := Some (cur s)\<rparr>)),
      withS (\<lambda>s. upd_lock lk (\<lambda>l. l\<lparr>l_pcs := getcallerpcs (mem s) (c_frame (the_cpu s))\<rparr>))]"

type_synonym 'z spin_sys = "'z mach_scheme \<times> (nat \<Rightarrow> lockid option)"

inductive spin_step :: "'z spin_sys \<Rightarrow> 'z spin_sys \<Rightarrow> bool" where
  other_cpu: "c < length (cpus s) \<Longrightarrow> spin_step (s, p) (s\<lparr>cur := c\<rparr>, p)"
| acq_ok: "p (cur s) = None \<Longrightarrow> acquire lk s = Ok () t \<Longrightarrow> spin_step (s, p) (t, p)"
| acq_spin: "p (cur s) = None \<Longrightarrow> acquire lk s = Stop Spin t \<Longrightarrow>
    spin_step (s, p) (t, p(cur s := Some lk))"
| retry_ok: "p (cur s) = Some lk \<Longrightarrow> spin_retry lk s = Ok () t \<Longrightarrow>
    spin_step (s, p) (t, p(cur s := None))"
| retry_spin: "p (cur s) = Some lk \<Longrightarrow> spin_retry lk s = Stop Spin t \<Longrightarrow> spin_step (s, p) (t, p)"
| rel_ok: "p (cur s) = None \<Longrightarrow> release lk s = Ok () t \<Longrightarrow> spin_step (s, p) (t, p)"

definition held :: "'z mach_scheme \<Rightarrow> nat \<Rightarrow> lockid set" where
  "held s c = {lk. l_cpu (locks s lk) = Some c}"

definition spin_init :: "'z spin_sys \<Rightarrow> bool" where
  "spin_init = (\<lambda>(s, p). cur s < length (cpus s) \<and>
     (\<forall>lk. l_locked (locks s lk) = 0 \<and> l_cpu (locks s lk) = None) \<and>
     (\<forall>c<length (cpus s). c_ncli (cpus s ! c) = 0) \<and> p = (\<lambda>_. None))"

definition cpu_ok :: "'z mach_scheme \<Rightarrow> (nat \<Rightarrow> lockid option) \<Rightarrow> nat \<Rightarrow> bool" where
  "cpu_ok s p c \<longleftrightarrow> finite (held s c) \<and>
     int (card (held s c)) + (if p c = None then 0 else 1) \<le> c_ncli (cpus s ! c) \<and>
     (c_if (cpus s ! c) \<longrightarrow> c_ncli (cpus s ! c) = 0)"

definition spin_inv :: "'z spin_sys \<Rightarrow> bool" where
  "spin_inv = (\<lambda>(s, p). cur s < length (cpus s) \<and>
     (\<forall>lk. l_cpu (locks s lk) \<noteq> None \<longrightarrow> l_locked (locks s lk) \<noteq> 0) \<and>
     (\<forall>c<length (cpus s). cpu_ok s p c))"

lemma spin_retry_Ok:
  assumes "l_locked (locks s lk) = 0"
  shows "spin_retry lk s = Ok () (s\<lparr>locks := (locks s)(lk := (locks s lk)\<lparr>l_locked := 1,
     l_cpu := Some (cur s), l_pcs := getcallerpcs (mem s) (c_frame (the_cpu s))\<rparr>)\<rparr>)"
  using assms by (simp add: spin_retry_def xchg_loop_def exec_simps upd_lock_def the_cpu_def)

lemma spin_retry_Spin:
  assumes "l_locked (locks s lk) \<noteq> 0"
  shows "spin_retry lk s = Stop Spin (s\<lparr>locks := (locks s)(lk := (locks s lk)\<lparr>l_locked := 1\<rparr>)\<rparr>)"
  using assms by (simp add: spin_retry_def xchg_loop_def exec_simps upd_lock_def)

lemma acquire_Ok_cases:
  assumes "acquire lk s = Ok () t" "cur s < length (cpus s)"
  shows "l_locked (locks s lk) = 0 \<and> t = acquired lk s"
proof (cases "l_locked (locks s lk) = 0")
  case True
  with assms show ?thesis by (simp add: acquire_Ok)
next
  case False
  with assms show ?thesis
    using acquire_Spin [of s lk] acquire_Panic [of s lk] by (auto simp: holding_def)
qed

lemma acquire_Spin_cases:
  assumes "acquire lk s = Stop Spin t" "cur s < length (cpus s)"
  shows "l_locked (locks s lk) \<noteq> 0 \<and> t = s\<lparr>
     cpus := (cpus s)[cur s := (the_cpu s)\<lparr>c_if := False,
        c_intena := (if c_ncli (the_cpu s) = 0 then (if c_if (the_cpu s) then FL_IF else 0)
                     else c_intena (the_cpu s)),
        c_ncli := c_ncli (the_cpu s) + 1\<rparr>],
     locks := (locks s)(lk := (locks s lk)\<lparr>l_locked := 1\<rparr>)\<rparr>"
  using assms
  by (auto simp: acquire_def pushcli_def cli_def xchg_loop_def exec_simps upd_cpu_def upd_lock_def
      holding_def the_cpu_def split: if_splits)

lemma held_acquire:
  "held (s\<lparr>cpus := cs, locks := (locks s)(lk := (locks s lk)\<lparr>l_locked := a, l_cpu := Some c, l_pcs := q\<rparr>)\<rparr>) d =
     (if d = c then insert lk (held s d) else held s d - {lk})"
  by (auto simp: held_def)

lemma held_retry:
  "held (s\<lparr>locks := (locks s)(lk := (locks s lk)\<lparr>l_locked := a, l_cpu := Some c, l_pcs := q\<rparr>)\<rparr>) d =
     (if d = c then insert lk (held s d) else held s d - {lk})"
  "held (s\<lparr>locks := (locks s)(lk := (locks s lk)\<lparr>l_locked := a\<rparr>)\<rparr>) d = held s d"
  by (auto simp: held_def)

lemma held_release:
  "held (s\<lparr>locks := (locks s)(lk := (locks s lk)\<lparr>l_pcs := q, l_cpu := None, l_locked := a\<rparr>), cpus := cs\<rparr>) d =
     held s d - {lk}"
  by (auto simp: held_def)

lemma held_same:
  "held (s\<lparr>cpus := cs, locks := (locks s)(lk := (locks s lk)\<lparr>l_locked := a\<rparr>)\<rparr>) d = held s d"
  "held (s\<lparr>cur := c\<rparr>) d = held s d"
  by (auto simp: held_def)

lemma card_Diff_le: "finite A \<Longrightarrow> int (card (A - {x})) \<le> int (card A)"
  by (simp add: card_Diff1_le)

lemma released_held:
  assumes "holding lk s" "spin_inv (s, p)" "p (cur s) = None"
  shows "release lk s = Ok () (released lk s)"
proof -
  from assms have c: "cur s < length (cpus s)" "cpu_ok s p (cur s)" and lk: "lk \<in> held s (cur s)"
    by (auto simp: spin_inv_def holding_def held_def)
  then have "0 < card (held s (cur s))"
    by (auto simp: cpu_ok_def card_gt_0_iff)
  with c have "0 < c_ncli (the_cpu s)" "\<not> c_if (the_cpu s)"
    by (auto simp: cpu_ok_def the_cpu_def split: if_splits)
  with c assms(1) show ?thesis by (simp add: release_Ok)
qed

lemma cpu_ok_acquired:
  assumes inv: "spin_inv (s, p)" and c: "c < length (cpus s)" and p: "p (cur s) = None"
    and free: "l_locked (locks s lk) = 0"
  shows "cpu_ok (acquired lk s) p c"
proof -
  have new: "lk \<notin> held s d" for d
    using inv free by (auto simp: spin_inv_def held_def)
  have ok: "cpu_ok s p c" and len: "cur s < length (cpus s)"
    using inv c by (auto simp: spin_inv_def)
  then show ?thesis using new c p
    by (cases "c = cur s")
      (auto simp: cpu_ok_def acquired_def held_acquire the_cpu_def split: if_splits)
qed

lemma cpu_ok_released:
  assumes inv: "spin_inv (s, p)" and c: "c < length (cpus s)" and p: "p (cur s) = None"
    and h: "holding lk s"
  shows "cpu_ok (released lk s) p c"
proof (cases "c = cur s")
  case True
  have ok: "cpu_ok s p c" and len: "cur s < length (cpus s)" and lk: "lk \<in> held s (cur s)"
    using inv c h by (auto simp: spin_inv_def holding_def held_def)
  then have "card (held s c - {lk}) = card (held s c) - 1" "0 < card (held s c)"
    using True by (auto simp: cpu_ok_def card_gt_0_iff)
  then show ?thesis using ok True p len
    by (auto simp: cpu_ok_def released_def held_release the_cpu_def)
next
  case False
  then have "held (released lk s) c = held s c"
    using h by (auto simp: released_def held_def holding_def)
  moreover have "cpu_ok s p c" using inv c by (auto simp: spin_inv_def)
  ultimately show ?thesis using False by (simp add: cpu_ok_def released_def)
qed

lemma spin_inv_step:
  assumes "spin_step x y" "spin_inv x"
  shows "spin_inv y"
  using assms
proof (induction rule: spin_step.induct)
  case (other_cpu c s p)
  then show ?case by (auto simp: spin_inv_def cpu_ok_def held_same)
next
  case (acq_ok p s lk t)
  from acq_ok.prems have len: "cur s < length (cpus s)" by (simp add: spin_inv_def)
  from acquire_Ok_cases [OF acq_ok.hyps(2) len]
  have free: "l_locked (locks s lk) = 0" and t: "t = acquired lk s" by auto
  have "cpu_ok t p c" if "c < length (cpus s)" for c
    using cpu_ok_acquired [OF acq_ok.prems that acq_ok.hyps(1) free] t by simp
  with acq_ok.prems show ?case
    by (auto simp: spin_inv_def t acquired_def)
next
  case (acq_spin p s lk t)
  from acq_spin.prems have len: "cur s < length (cpus s)" by (simp add: spin_inv_def)
  from acquire_Spin_cases [OF acq_spin.hyps(2) len] acq_spin.prems acq_spin.hyps(1) show ?case
    by (auto simp: spin_inv_def cpu_ok_def held_same the_cpu_def nth_list_update)
next
  case (retry_ok p s lk t)
  then have free: "l_locked (locks s lk) = 0"
    using spin_retry_Spin [of s lk] by (cases "l_locked (locks s lk) = 0") auto
  then have new: "lk \<notin> held s d" for d
    using retry_ok.prems by (auto simp: spin_inv_def held_def)
  then have "cpu_ok t (p(cur s := None)) c" if "c < length (cpus s)" for c
    using that retry_ok spin_retry_Ok [OF free]
    by (cases "c = cur s") (auto simp: spin_inv_def cpu_ok_def held_retry)
  with retry_ok spin_retry_Ok [OF free] show ?case
    by (auto simp: spin_inv_def)
next
  case (retry_spin p s lk t)
  then have busy: "l_locked (locks s lk) \<noteq> 0"
    using spin_retry_Ok [of s lk] by (cases "l_locked (locks s lk) = 0") auto
  with retry_spin spin_retry_Spin [OF busy] show ?case
    by (auto simp: spin_inv_def cpu_ok_def held_retry)
next
  case (rel_ok p s lk t)
  then have h: "holding lk s" using release_Panic [of lk s] by auto
  from released_held [OF h rel_ok.prems rel_ok.hyps(1)] rel_ok.hyps have t: "t = released lk s"
    by simp
  have "cpu_ok t p c" if "c < length (cpus s)" for c
    using cpu_ok_released [OF rel_ok.prems that rel_ok.hyps(1) h] t by simp
  with rel_ok.prems show ?case by (auto simp: spin_inv_def t released_def)
qed

interpretation spin: inductive_invariant spin_init spin_step spin_inv
proof unfold_locales
  fix s :: "'a spin_sys"
  assume "spin_init s"
  then show "spin_inv s"
    by (auto simp: spin_init_def spin_inv_def cpu_ok_def held_def)
qed (rule spin_inv_step)

section \<open>Properties\<close>

text \<open>A machine as the loader leaves it: zeroed locks and processors with interrupts on.\<close>

definition segdesc0 :: segdesc where
  "segdesc0 = \<lparr>sd_lim_15_0 = 0, sd_base_15_0 = 0, sd_base_23_16 = 0, sd_type = 0, sd_s = 0, sd_dpl = 0,
     sd_p = 0, sd_lim_19_16 = 0, sd_avl = 0, sd_rsv1 = 0, sd_db = 0, sd_g = 0, sd_base_31_24 = 0\<rparr>"

definition cpu0 :: cpu where
  "cpu0 = \<lparr>c_apicid = 0, c_scheduler = 0, c_ts_esp0 = 0, c_ts_ss0 = 0, c_ts_iomb = 0,
     c_gdt = replicate 7 segdesc0, c_gs = 0, c_tr = 0, c_started = 1, c_ncli = 0, c_intena = 0,
     c_proc = None, c_if = True, c_cr3 = 0, c_frame = 0\<rparr>"

definition lock0 :: spinlock where
  "lock0 = \<lparr>l_locked = 0, l_name = [], l_cpu = None, l_pcs = replicate 10 0\<rparr>"

definition mach0 :: mach where
  "mach0 = \<lparr>mem = (\<lambda>_. 0), cpus = [cpu0, cpu0], cur = 0, locks = (\<lambda>_. lock0), cons_out = []\<rparr>"

lemma mach0_init: "spin_init (mach0, \<lambda>_. None)"
  by (auto simp: spin_init_def mach0_def cpu0_def lock0_def less_Suc_eq numeral_2_eq_2)

text \<open>
  C11. Mutual exclusion and interrupt safety. In every state the processors can reach by
  lock operations, a successful \<open>acquire\<close> found the lock held by no processor; afterwards
  exactly the calling processor holds it, and no processor that holds any lock has interrupts
  enabled (the deadlock with an interrupt handler that \<open>acquire\<close> guards against).
\<close>

theorem acquire_mutual_exclusion:
  assumes reach: "reach spin_init spin_step (s, p)" and idle: "p (cur s) = None"
    and acq: "acquire lk s = Ok () t"
  shows "(\<forall>c. lk \<notin> held s c) \<and> (\<forall>c. lk \<in> held t c \<longleftrightarrow> c = cur s) \<and>
    (\<forall>c<length (cpus t). held t c \<noteq> {} \<longrightarrow> \<not> c_if (cpus t ! c))"
proof -
  have inv: "spin_inv (s, p)" using reach by (rule spin.reach_inv)
  then have len: "cur s < length (cpus s)" by (simp add: spin_inv_def)
  from acquire_Ok_cases [OF acq len] have free: "l_locked (locks s lk) = 0" and t: "t = acquired lk s"
    by auto
  have inv': "spin_inv (t, p)"
    using reach spin_step.acq_ok [of p s, OF idle acq] by (blast intro: spin.reach_inv reach_step)
  have "\<not> c_if (cpus t ! c)" if "c < length (cpus t)" "held t c \<noteq> {}" for c
  proof -
    from inv' that(1) have ok: "cpu_ok t p c" by (simp add: spin_inv_def)
    with that(2) have "0 < card (held t c)" by (simp add: cpu_ok_def card_gt_0_iff)
    with ok show ?thesis by (auto simp: cpu_ok_def split: if_splits)
  qed
  moreover have "lk \<notin> held s c" for c using inv free by (auto simp: spin_inv_def held_def)
  moreover have "lk \<in> held t c \<longleftrightarrow> c = cur s" for c by (auto simp: t acquired_def held_def)
  ultimately show ?thesis by blast
qed

theorem acquire_mutual_exclusion_witness:
  "\<exists>t. acquire LPtable mach0 = Ok () t \<and> (\<forall>c. LPtable \<in> held t c \<longleftrightarrow> c = 0)"
proof -
  have r: "reach spin_init spin_step (mach0, \<lambda>_. None)"
    by (rule reach_init) (rule mach0_init)
  have a: "acquire LPtable mach0 = Ok () (acquired LPtable mach0)"
    by (rule acquire_Ok) (simp_all add: mach0_def lock0_def)
  show ?thesis using acquire_mutual_exclusion [OF r _ a] a by (auto simp: mach0_def)
qed

text \<open>
  C12. A processor that holds a lock can always release it: in every reachable state
  \<open>release\<close> by the holder neither panics nor blocks, and the lock is free afterwards.
  A processor that does not hold the lock panics.
\<close>

theorem release_by_holder:
  assumes "reach spin_init spin_step (s, p)" and "p (cur s) = None"
  shows "if holding lk s then release lk s = Ok () (released lk s) \<and>
             l_locked (locks (released lk s) lk) = 0 \<and> (\<forall>c. lk \<notin> held (released lk s) c)
         else release lk s = Stop (Panic ''release'') s"
proof (cases "holding lk s")
  case True
  have "spin_inv (s, p)" using assms(1) by (rule spin.reach_inv)
  from released_held [OF True this assms(2)] True show ?thesis
    by (auto simp: released_def held_def)
qed (simp add: release_Panic)

theorem release_by_holder_witness:
  "release LPtable (acquired LPtable mach0) = Ok () (released LPtable (acquired LPtable mach0))
   \<and> release LKmem (acquired LPtable mach0) = Stop (Panic ''release'') (acquired LPtable mach0)"
proof -
  have a: "acquire LPtable mach0 = Ok () (acquired LPtable mach0)"
    by (rule acquire_Ok) (simp_all add: mach0_def lock0_def)
  have r: "reach spin_init spin_step (acquired LPtable mach0, \<lambda>_. None)"
    by (rule reach_step [of spin_init, OF reach_init, OF mach0_init])
      (rule spin_step.acq_ok [OF refl a])
  have h: "holding LPtable (acquired LPtable mach0)" "\<not> holding LKmem (acquired LPtable mach0)"
    by (simp_all add: holding_def acquired_def mach0_def lock0_def)
  show ?thesis
    using release_by_holder [OF r refl, of LPtable] release_by_holder [OF r refl, of LKmem] h by simp
qed

text \<open>
  C13. \<open>acquire\<close> and \<open>release\<close> are matched: around a critical section the interrupt flag,
  the nesting depth of \<open>pushcli\<close> and every other processor are restored, at any nesting
  depth; in particular interrupts that were off stay off.
\<close>

theorem acquire_release_restores:
  assumes "cur s < length (cpus s)" "l_locked (locks s lk) = 0"
    and "0 \<le> c_ncli (the_cpu s)" "c_if (the_cpu s) \<longrightarrow> c_ncli (the_cpu s) = 0"
  shows "\<exists>t. run [acquire lk, release lk] s = Ok () t \<and>
    c_if (the_cpu t) = c_if (the_cpu s) \<and> c_ncli (the_cpu t) = c_ncli (the_cpu s) \<and>
    l_locked (locks t lk) = 0 \<and> cur t = cur s \<and>
    (\<forall>c. c \<noteq> cur s \<longrightarrow> cpus t ! c = cpus s ! c) \<and> (\<forall>l. l \<noteq> lk \<longrightarrow> locks t l = locks s l)"
proof -
  have rel: "release lk (acquired lk s) = Ok () (released lk (acquired lk s))"
    by (rule release_Ok) (use assms in \<open>auto simp: acquired_def holding_def the_cpu_def\<close>)
  have "run [acquire lk, release lk] s = Ok () (released lk (acquired lk s))"
    using acquire_Ok [OF assms(1,2)] rel by (simp add: exec_simps)
  moreover have "c_if (the_cpu (released lk (acquired lk s))) = c_if (the_cpu s)"
    using assms by (auto simp: released_def acquired_def the_cpu_def FL_IF_def)
  ultimately show ?thesis
    using assms(1,3) by (intro exI [of _ "released lk (acquired lk s)"])
      (auto simp: released_def acquired_def the_cpu_def)
qed

theorem acquire_release_restores_witness:
  "\<exists>t. run [acquire LKmem, release LKmem] (acquired LPtable mach0) = Ok () t \<and>
     \<not> c_if (the_cpu t) \<and> c_ncli (the_cpu t) = 1"
proof -
  let ?s = "acquired LPtable mach0"
  have h: "cur ?s < length (cpus ?s)" "l_locked (locks ?s LKmem) = 0" "0 \<le> c_ncli (the_cpu ?s)"
    "c_if (the_cpu ?s) \<longrightarrow> c_ncli (the_cpu ?s) = 0"
    "\<not> c_if (the_cpu ?s)" "c_ncli (the_cpu ?s) = 1"
    by (simp_all add: acquired_def mach0_def cpu0_def lock0_def the_cpu_def)
  show ?thesis using acquire_release_restores [OF h(1-4)] h(5,6) by auto
qed

end
