(* ===== verification/Kalloc.thy ===== *)
theory Kalloc
  imports Spinlock Cstring
begin

text \<open>
  \<open>kalloc.c\<close>: the page allocator. The free pages form a list linked through their first
  word, in the memory of the machine. The state record extends \<open>mach\<close> with \<open>kmem\<close>; \<open>km_end\<close>
  is the linker symbol \<open>end\<close>. The layout macros of \<open>memlayout.h\<close> and \<open>mmu.h\<close> are here too.
\<close>

section \<open>Layout\<close>

definition PGSIZE :: nat where "PGSIZE = 4096"
definition EXTMEM :: nat where "EXTMEM = 1048576"
definition PHYSTOP :: nat where "PHYSTOP = 234881024"
definition DEVSPACE :: nat where "DEVSPACE = 4261412864"
definition KERNLINK :: nat where "KERNLINK = KERNBASE + EXTMEM"

lemmas layout_defs = PGSIZE_def EXTMEM_def PHYSTOP_def DEVSPACE_def KERNLINK_def KERNBASE_def

definition V2P :: "nat \<Rightarrow> nat" where
  "V2P a = u32_of (int a - int KERNBASE)"

definition P2V :: "nat \<Rightarrow> nat" where
  "P2V a = u32 (a + KERNBASE)"

text \<open>Clearing the low twelve bits is rounding down to a multiple of the page size.\<close>

definition PGROUNDUP :: "nat \<Rightarrow> nat" where
  "PGROUNDUP sz = u32 (sz + PGSIZE - 1) div PGSIZE * PGSIZE"

definition PGROUNDDOWN :: "nat \<Rightarrow> nat" where
  "PGROUNDDOWN a = a div PGSIZE * PGSIZE"

lemma P2V_V2P: "KERNBASE \<le> a \<Longrightarrow> a < 4294967296 \<Longrightarrow> P2V (V2P a) = a"
  by (simp add: P2V_def V2P_def layout_defs u32_def u32_of_def nat_diff_distrib)

lemma V2P_P2V: "a < PHYSTOP \<Longrightarrow> V2P (P2V a) = a"
  by (simp add: P2V_def V2P_def layout_defs u32_def u32_of_def)


section \<open>The allocator\<close>

record kalloc_st = mach +
  km_use_lock :: nat
  km_freelist :: nat
  km_end :: nat

definition bad_page :: "nat \<Rightarrow> 'z kalloc_st_scheme \<Rightarrow> bool" where
  "bad_page v s \<longleftrightarrow> v mod PGSIZE \<noteq> 0 \<or> v < km_end s \<or> V2P v \<ge> PHYSTOP"

definition kfree :: "nat \<Rightarrow> ('z kalloc_st_scheme, unit) cmd" where
  "kfree v = run
     [panic_if (bad_page v) ''kfree'',
      modify (\<lambda>s. s\<lparr>mem := memset (mem s) v 1 PGSIZE\<rparr>),
      whenM (\<lambda>s. km_use_lock s \<noteq> 0) (acquire LKmem),
      modify (\<lambda>s. s\<lparr>mem := wr32 (mem s) v (km_freelist s)\<rparr>),
      modify (\<lambda>s. s\<lparr>km_freelist := v\<rparr>),
      whenM (\<lambda>s. km_use_lock s \<noteq> 0) (release LKmem)]"

definition kalloc :: "('z kalloc_st_scheme, nat) cmd" where
  "kalloc = bnd (whenM (\<lambda>s. km_use_lock s \<noteq> 0) (acquire LKmem)) (\<lambda>_.
     bnd (gets km_freelist) (\<lambda>r. andthen
       [if r \<noteq> 0 then modify (\<lambda>s. s\<lparr>km_freelist := rd32 (mem s) r\<rparr>) else skip,
        whenM (\<lambda>s. km_use_lock s \<noteq> 0) (release LKmem)]
       (ret r)))"

function freerange_loop :: "nat \<Rightarrow> nat \<Rightarrow> ('z kalloc_st_scheme, unit) cmd" where
  "freerange_loop p vend =
     (if p + PGSIZE \<le> vend then bnd (kfree p) (\<lambda>_. freerange_loop (p + PGSIZE) vend) else skip)"
  by pat_completeness auto
termination
  by (relation "measure (\<lambda>(p, vend). vend - p)") (auto simp: PGSIZE_def)

declare freerange_loop.simps [simp del]

definition freerange :: "nat \<Rightarrow> nat \<Rightarrow> ('z kalloc_st_scheme, unit) cmd" where
  "freerange vstart vend = freerange_loop (PGROUNDUP vstart) vend"

definition kinit1 :: "nat \<Rightarrow> nat \<Rightarrow> ('z kalloc_st_scheme, unit) cmd" where
  "kinit1 vstart vend = run
     [initlock LKmem ''kmem'', modify (\<lambda>s. s\<lparr>km_use_lock := 0\<rparr>), freerange vstart vend]"

definition kinit2 :: "nat \<Rightarrow> nat \<Rightarrow> ('z kalloc_st_scheme, unit) cmd" where
  "kinit2 vstart vend = run [freerange vstart vend, modify (\<lambda>s. s\<lparr>km_use_lock := 1\<rparr>)]"


section \<open>The free list\<close>

text \<open>
  \<open>flist m r ps\<close>: the pages \<open>ps\<close> are linked from \<open>r\<close> through their first words, and the
  last link is null.
\<close>

primrec flist :: "memory \<Rightarrow> nat \<Rightarrow> nat list \<Rightarrow> bool" where
  "flist m r [] \<longleftrightarrow> r = 0"
| "flist m r (p # ps) \<longleftrightarrow> r = p \<and> p \<noteq> 0 \<and> flist m (rd32 m p) ps"

lemma flist_cong: "(\<And>p. p \<in> set ps \<Longrightarrow> rd32 m p = rd32 m' p) \<Longrightarrow> flist m r ps = flist m' r ps"
  by (induction ps arbitrary: r) auto

lemma flist_unique: "flist m r ps \<Longrightarrow> flist m r qs \<Longrightarrow> ps = qs"
proof (induction ps arbitrary: r qs)
  case Nil
  then show ?case by (cases qs) auto
next
  case (Cons p ps)
  then show ?case by (cases qs) auto
qed

definition good_page :: "'z kalloc_st_scheme \<Rightarrow> nat \<Rightarrow> bool" where
  "good_page s p \<longleftrightarrow> \<not> bad_page p s \<and> p \<noteq> 0 \<and> p < 4294967296"

definition freepages :: "'z kalloc_st_scheme \<Rightarrow> nat list \<Rightarrow> bool" where
  "freepages s ps \<longleftrightarrow> lock_ready LKmem s \<and> flist (mem s) (km_freelist s) ps \<and> distinct ps \<and>
     (\<forall>p\<in>set ps. good_page s p)"

lemma pages_apart:
  assumes "p mod PGSIZE = 0" "q mod PGSIZE = 0" "p \<noteq> q"
  shows "p + PGSIZE \<le> q \<or> q + PGSIZE \<le> p"
proof -
  obtain a b where ab: "p = PGSIZE * a" "q = PGSIZE * b" using assms(1,2) by (auto elim!: dvdE)
  then have "a < b \<or> b < a" using assms(3) by auto
  then have "PGSIZE * (a + 1) \<le> PGSIZE * b \<or> PGSIZE * (b + 1) \<le> PGSIZE * a"
    by (metis Suc_eq_plus1 Suc_leI mult_le_mono2)
  then show ?thesis using ab by auto
qed

lemma memset_kfree: "memset m v 1 PGSIZE = mem_fill m v 1 PGSIZE"
  by (simp add: memset_fill)

text \<open>The state of the allocator after a call, apart from processors and locks.\<close>

lemma kalloc_run:
  assumes "lock_ready LKmem s"
  shows "\<exists>t. kalloc s = Ok (km_freelist s) t \<and> lock_ready LKmem t \<and> mem t = mem s \<and>
    km_freelist t = (if km_freelist s = 0 then 0 else rd32 (mem s) (km_freelist s)) \<and>
    km_end t = km_end s \<and> km_use_lock t = km_use_lock s"
proof (cases "km_use_lock s = 0")
  case True
  then show ?thesis using assms
    by (simp add: kalloc_def exec_simps lock_ready_def the_cpu_def)
next
  case False
  let ?u = "if km_freelist s = 0 then acquired LKmem s
    else (acquired LKmem s)\<lparr>km_freelist := rd32 (mem s) (km_freelist s)\<rparr>"
  have "release LKmem ?u = Ok () (released LKmem ?u)"
    by (rule release_acquired [OF assms]) (auto simp: acquired_def)
  moreover have "lock_ready LKmem (released LKmem ?u)"
    by (rule lock_ready_released [OF assms]) (auto simp: acquired_def)
  ultimately show ?thesis using False acquire_ready [OF assms]
    by (auto simp: kalloc_def exec_simps acquired_def released_def)
qed

lemma kfree_run:
  assumes "lock_ready LKmem s" "\<not> bad_page v s"
  shows "\<exists>t. kfree v s = Ok () t \<and> lock_ready LKmem t \<and>
    mem t = wr32 (mem_fill (mem s) v 1 PGSIZE) v (km_freelist s) \<and> km_freelist t = v \<and>
    km_end t = km_end s \<and> km_use_lock t = km_use_lock s"
proof (cases "km_use_lock s = 0")
  case True
  then show ?thesis using assms
    by (simp add: kfree_def exec_simps lock_ready_def the_cpu_def memset_kfree)
next
  case False
  let ?s = "s\<lparr>mem := mem_fill (mem s) v 1 PGSIZE\<rparr>"
  let ?u = "(acquired LKmem ?s)\<lparr>mem := wr32 (mem_fill (mem s) v 1 PGSIZE) v (km_freelist s), km_freelist := v\<rparr>"
  have rs: "lock_ready LKmem ?s" using assms(1) by (simp add: lock_ready_def the_cpu_def)
  have "release LKmem ?u = Ok () (released LKmem ?u)"
    by (rule release_acquired [OF rs]) (auto simp: acquired_def)
  moreover have "lock_ready LKmem (released LKmem ?u)"
    by (rule lock_ready_released [OF rs]) (auto simp: acquired_def)
  ultimately show ?thesis using False assms(2) acquire_ready [OF rs]
    by (auto simp: kfree_def exec_simps memset_kfree acquired_def released_def)
qed

lemma flist_kfree:
  assumes "flist m r ps" "v mod PGSIZE = 0" "\<forall>p\<in>set ps. p mod PGSIZE = 0" "v \<notin> set ps"
  shows "flist (wr32 (mem_fill m v 1 PGSIZE) v x) r ps"
proof -
  have "rd32 (wr32 (mem_fill m v 1 PGSIZE) v x) p = rd32 m p" if "p \<in> set ps" for p
  proof -
    have "v + PGSIZE \<le> p \<or> p + PGSIZE \<le> v"
      using assms that by (intro pages_apart) auto
    then show ?thesis
      by (intro rd32_cong) (auto simp: wr32_apply_other mem_fill_def PGSIZE_def)
  qed
  with assms(1) show ?thesis using flist_cong by blast
qed

lemma flist_head_bound: "flist m r (p # ps) \<Longrightarrow> flist m (rd32 m r) ps \<and> r = p"
  by auto


section \<open>The allocator as an interface\<close>

text \<open>
  What the rest of the kernel relies on: an abstract list of free pages, from which
  allocation takes the head and to which freeing adds.
\<close>

locale page_allocator =
  fixes alloc :: "('s, nat) cmd" and free :: "nat \<Rightarrow> ('s, unit) cmd"
    and pages :: "'s \<Rightarrow> nat list \<Rightarrow> bool" and valid :: "'s \<Rightarrow> nat \<Rightarrow> bool"
  assumes alloc_empty: "pages s [] \<Longrightarrow> \<exists>t. alloc s = Ok 0 t \<and> pages t []"
    and alloc_head: "pages s (p # ps) \<Longrightarrow> \<exists>t. alloc s = Ok p t \<and> pages t ps \<and> valid t p"
    and free_page: "pages s ps \<Longrightarrow> valid s p \<Longrightarrow> p \<notin> set ps \<Longrightarrow>
      \<exists>t. free p s = Ok () t \<and> pages t (p # ps)"
    and pages_distinct: "pages s ps \<Longrightarrow> distinct ps \<and> 0 \<notin> set ps"
begin

lemma alloc_free_lifo:
  assumes "pages s ps" "valid s p" "p \<notin> set ps"
  shows "\<exists>t. bnd (free p) (\<lambda>_. alloc) s = Ok p t \<and> pages t ps"
proof -
  obtain t where t: "free p s = Ok () t" "pages t (p # ps)"
    using free_page [OF assms] by blast
  with alloc_head [OF t(2)] show ?thesis by auto
qed

lemma free_alloc_restores:
  assumes "pages s (p # ps)"
  shows "\<exists>t. bnd alloc free s = Ok () t \<and> pages t (p # ps)"
proof -
  obtain t where t: "alloc s = Ok p t" "pages t ps" "valid t p" using alloc_head [OF assms] by blast
  moreover have "p \<notin> set ps" using pages_distinct [OF assms] by simp
  ultimately show ?thesis using free_page by fastforce
qed

end

text \<open>Allocates \<open>n\<close> pages, stopping at the first failure, as the callers do.\<close>

primrec alloc_many :: "('s, nat) cmd \<Rightarrow> nat \<Rightarrow> ('s, nat list) cmd" where
  "alloc_many alloc 0 = ret []"
| "alloc_many alloc (Suc n) = bnd alloc (\<lambda>p.
     if p = 0 then ret [] else bnd (alloc_many alloc n) (\<lambda>ps. ret (p # ps)))"

context page_allocator
begin

lemma alloc_many_take:
  "pages s ps \<Longrightarrow> \<exists>t. alloc_many alloc n s = Ok (take n ps) t \<and> pages t (drop n ps)"
proof (induction n arbitrary: s ps)
  case 0
  then show ?case by (simp add: exec_simps)
next
  case (Suc n)
  show ?case
  proof (cases ps)
    case Nil
    with Suc.prems obtain t where "alloc s = Ok 0 t" "pages t []" using alloc_empty by blast
    with Nil show ?thesis by (simp add: exec_simps)
  next
    case (Cons p qs)
    with Suc.prems obtain t where t: "alloc s = Ok p t" "pages t qs" using alloc_head by blast
    obtain u where u: "alloc_many alloc n t = Ok (take n qs) u" "pages u (drop n qs)"
      using Suc.IH [OF t(2)] by blast
    have "p \<noteq> 0" using pages_distinct [OF Suc.prems] Cons by auto
    with t u Cons show ?thesis by (simp add: exec_simps)
  qed
qed

end

interpretation kmem: page_allocator kalloc kfree freepages good_page
proof unfold_locales
  fix s :: "'a kalloc_st_scheme"
  assume a: "freepages s []"
  then have r: "lock_ready LKmem s" "km_freelist s = 0" by (auto simp: freepages_def)
  from kalloc_run [OF r(1)] r(2) a show "\<exists>t. kalloc s = Ok 0 t \<and> freepages t []"
    by (auto simp: freepages_def)
next
  fix s :: "'a kalloc_st_scheme" and p ps
  assume a: "freepages s (p # ps)"
  then have r: "lock_ready LKmem s" "km_freelist s = p" "p \<noteq> 0" by (auto simp: freepages_def)
  from kalloc_run [OF r(1)] r(2,3) a
  show "\<exists>t. kalloc s = Ok p t \<and> freepages t ps \<and> good_page t p"
    by (auto simp: freepages_def good_page_def bad_page_def)
next
  fix s :: "'a kalloc_st_scheme" and p ps
  assume a: "freepages s ps" "good_page s p" "p \<notin> set ps"
  then have r: "lock_ready LKmem s" "\<not> bad_page p s" by (auto simp: freepages_def good_page_def)
  obtain t where t: "kfree p s = Ok () t" "lock_ready LKmem t" "km_freelist t = p"
    "mem t = wr32 (mem_fill (mem s) p 1 PGSIZE) p (km_freelist s)" "km_end t = km_end s"
    using kfree_run [OF r] by blast
  have fl: "flist (mem t) (km_freelist s) ps"
    unfolding t(4) using a by (intro flist_kfree)
      (auto simp: freepages_def good_page_def bad_page_def)
  have "km_freelist s < 4294967296"
    using a(1) by (cases ps) (auto simp: freepages_def good_page_def)
  then have "rd32 (mem t) p = km_freelist s" by (simp add: t(4) u32_id)
  with fl t a show "\<exists>t. kfree p s = Ok () t \<and> freepages t (p # ps)"
    by (auto simp: freepages_def good_page_def bad_page_def)
next
  fix s :: "'a kalloc_st_scheme" and ps
  assume "freepages s ps"
  then show "distinct ps \<and> 0 \<notin> set ps" by (auto simp: freepages_def good_page_def)
qed


section \<open>Initialisation\<close>

definition page_range :: "nat \<Rightarrow> nat \<Rightarrow> nat list" where
  "page_range p vend = map (\<lambda>i. p + i * PGSIZE) [0..<(vend - p) div PGSIZE]"

lemma page_range_step:
  assumes "p + PGSIZE \<le> vend"
  shows "page_range p vend = p # page_range (p + PGSIZE) vend"
proof -
  have "(vend - p) div PGSIZE = Suc ((vend - (p + PGSIZE)) div PGSIZE)"
    using assms div_add_self1 [of PGSIZE "vend - (p + PGSIZE)"] by (simp add: PGSIZE_def)
  then show ?thesis
    by (simp add: page_range_def upt_conv_Cons map_Suc_upt [symmetric] del: upt_Suc)
qed

lemma page_range_empty: "\<not> p + PGSIZE \<le> vend \<Longrightarrow> page_range p vend = []"
  by (simp add: page_range_def PGSIZE_def div_less)

lemma page_range_ge: "q \<in> set (page_range p vend) \<Longrightarrow> p \<le> q"
  by (auto simp: page_range_def)

lemma freerange_loop_pages:
  assumes "freepages s ps" "p mod PGSIZE = 0" "km_end s \<le> p" "KERNBASE \<le> p"
    "vend \<le> KERNBASE + PHYSTOP" "\<forall>q\<in>set ps. q < p"
  shows "\<exists>t. freerange_loop p vend s = Ok () t \<and> freepages t (rev (page_range p vend) @ ps)
    \<and> km_end t = km_end s \<and> km_use_lock t = km_use_lock s"
  using assms
proof (induction p vend arbitrary: s ps rule: freerange_loop.induct)
  case (1 p vend)
  show ?case
  proof (cases "p + PGSIZE \<le> vend")
    case False
    with 1 show ?thesis by (simp add: freerange_loop.simps [of p] page_range_empty exec_simps)
  next
    case True
    have good: "good_page s p" using 1 True
      by (auto simp: good_page_def bad_page_def V2P_def u32_of_def layout_defs)
    obtain t where t: "kfree p s = Ok () t" "km_end t = km_end s" "km_use_lock t = km_use_lock s"
      using kfree_run [of s p] good 1 by (auto simp: good_page_def freepages_def)
    with kmem.free_page [OF 1(2) good] 1 have tp: "freepages t (p # ps)" by auto
    have "\<exists>u. freerange_loop (p + PGSIZE) vend t = Ok () u \<and>
        freepages u (rev (page_range (p + PGSIZE) vend) @ (p # ps)) \<and>
        km_end u = km_end t \<and> km_use_lock u = km_use_lock t"
      using 1 t by (intro 1(1) True tp) (auto simp: PGSIZE_def)
    with t True show ?thesis
      by (auto simp: freerange_loop.simps [of p] page_range_step)
  qed
qed


section \<open>Properties\<close>

text \<open>
  C18. Initialisation: \<open>kinit1\<close> on a kernel range terminates without a panic and puts exactly the
  whole pages of the range on the free list, each once.
\<close>

theorem kinit1_free_pages:
  assumes "cur s < length (cpus s)" "c_ncli (the_cpu s) = 0" "km_freelist s = 0"
    and "km_end s \<le> vstart" "KERNBASE \<le> vstart" "vend \<le> KERNBASE + PHYSTOP" "vstart \<le> vend"
  shows "\<exists>t. kinit1 vstart vend s = Ok () t \<and>
    freepages t (rev (page_range (PGROUNDUP vstart) vend)) \<and> km_use_lock t = 0"
proof -
  let ?s = "s\<lparr>locks := (locks s)(LKmem := (locks s LKmem)\<lparr>l_name := ''kmem'', l_locked := 0, l_cpu := None\<rparr>),
    km_use_lock := 0\<rparr>"
  have f: "freepages ?s []"
    using assms by (simp add: freepages_def lock_ready_def the_cpu_def)
  have up: "vstart \<le> PGROUNDUP vstart" "PGROUNDUP vstart mod PGSIZE = 0"
    using assms(6,7) by (simp_all add: PGROUNDUP_def u32_def layout_defs)
  obtain t where "freerange_loop (PGROUNDUP vstart) vend ?s = Ok () t"
    "freepages t (rev (page_range (PGROUNDUP vstart) vend))" "km_use_lock t = 0"
    using freerange_loop_pages [OF f up(2), of vend] up(1) assms by auto
  then show ?thesis
    by (simp add: kinit1_def initlock_def upd_lock_def freerange_def exec_simps)
qed

definition kalloc0 :: kalloc_st where
  "kalloc0 = \<lparr>mem = mem mach0, cpus = cpus mach0, cur = 0, locks = locks mach0, cons_out = [],
     km_use_lock = 0, km_freelist = 0, km_end = KERNBASE + 1048576\<rparr>"

theorem kinit1_free_pages_witness:
  "\<exists>t. kinit1 (KERNBASE + 1048577) (KERNBASE + 1060864) kalloc0 = Ok () t \<and>
     freepages t [KERNBASE + 1056768, KERNBASE + 1052672]"
proof -
  have r: "rev (page_range (PGROUNDUP (KERNBASE + 1048577)) (KERNBASE + 1060864)) =
      [KERNBASE + 1056768, KERNBASE + 1052672]"
    by (simp add: page_range_def PGROUNDUP_def u32_def layout_defs upt_conv_Cons)
  show ?thesis
    using kinit1_free_pages [of kalloc0 "KERNBASE + 1048577" "KERNBASE + 1060864"]
    unfolding r by (auto simp: kalloc0_def mach0_def cpu0_def the_cpu_def PHYSTOP_def)
qed

text \<open>
  C16. \<open>n\<close> calls of \<open>kalloc\<close> return the first \<open>n\<close> free pages, pairwise distinct and never null
  while pages are left, and keep the rest of the free list intact; when the list is exhausted
  \<open>kalloc\<close> returns 0.
\<close>

theorem kalloc_distinct_pages:
  assumes "freepages s ps"
  shows "\<exists>t. alloc_many kalloc n s = Ok (take n ps) t \<and> freepages t (drop n ps) \<and>
    distinct (take n ps) \<and> 0 \<notin> set (take n ps) \<and> (set (take n ps) \<inter> set (drop n ps) = {})"
proof -
  have d: "distinct ps" "0 \<notin> set ps" using kmem.pages_distinct [OF assms] by auto
  then have "0 \<notin> set (take n ps)" by (meson in_set_takeD)
  with d kmem.alloc_many_take [OF assms, of n] show ?thesis
    by (auto simp: set_take_disj_set_drop_if_distinct)
qed

lemma kalloc0_freepages: "freepages kalloc0 []"
  by (simp add: freepages_def lock_ready_def kalloc0_def mach0_def cpu0_def lock0_def the_cpu_def)

text \<open>An allocator with two free pages.\<close>

definition kalloc1 :: kalloc_st where
  "kalloc1 = kalloc0\<lparr>mem := wr32 (\<lambda>_. 0) 0x80102000 0x80103000, km_freelist := 0x80102000\<rparr>"

lemma kalloc1_freepages: "freepages kalloc1 [0x80102000, 0x80103000]"
proof -
  have "rd32 (wr32 (\<lambda>_. 0) 0x80102000 0x80103000) 0x80103000 = 0"
    by (subst rd32_wr32_other) (simp_all add: rd32_def rd16_def)
  moreover have "lock_ready LKmem kalloc1" using kalloc0_freepages by (simp add: kalloc1_def freepages_def lock_ready_def the_cpu_def)
  ultimately show ?thesis
    by (simp add: freepages_def kalloc1_def u32_def good_page_def bad_page_def V2P_def u32_of_def layout_defs)
      (simp add: kalloc0_def KERNBASE_def)
qed

theorem kalloc_distinct_pages_witness: "\<exists>t. alloc_many kalloc 3 kalloc1 = Ok [0x80102000, 0x80103000] t \<and> freepages t []"
  using kalloc_distinct_pages [OF kalloc1_freepages, of 3] by auto

text \<open>
  C17. Freeing and allocating are inverse on the free list: a freed page is the next one
  allocated and the list is as before; a page that is not a page of the free memory (misaligned,
  inside the kernel image or above the physical memory) makes \<open>kfree\<close> panic.
\<close>

theorem kfree_kalloc_roundtrip:
  assumes "freepages s ps" "p \<notin> set ps" "p < 4294967296" "p \<noteq> 0"
  shows "if bad_page p s then kfree p s = Stop (Panic ''kfree'') s
    else \<exists>t. bnd (kfree p) (\<lambda>_. kalloc) s = Ok p t \<and> freepages t ps"
proof (cases "bad_page p s")
  case True
  then show ?thesis by (simp add: kfree_def exec_simps)
next
  case False
  with assms(3,4) have "good_page s p" by (simp add: good_page_def)
  with False kmem.alloc_free_lifo [OF assms(1) _ assms(2)] show ?thesis by simp
qed

theorem kfree_kalloc_roundtrip_witness:
  "(\<exists>t. bnd (kfree (KERNBASE + 1052672)) (\<lambda>_. kalloc) kalloc0 = Ok (KERNBASE + 1052672) t)
   \<and> kfree 4097 kalloc0 = Stop (Panic ''kfree'') kalloc0"
proof -
  have b: "\<not> bad_page (KERNBASE + 1052672) kalloc0" "bad_page 4097 kalloc0"
    by (simp_all add: bad_page_def kalloc0_def layout_defs V2P_def u32_of_def)
  show ?thesis
    using kfree_kalloc_roundtrip [OF kalloc0_freepages, of "KERNBASE + 1052672"]
      kfree_kalloc_roundtrip [OF kalloc0_freepages, of 4097] b
    by (auto simp: KERNBASE_def)
qed

end
