(* ===== verification/Ptable.thy ===== *)
theory Ptable
  imports Kalloc
begin

text \<open>
  The process table of \<open>proc.h\<close>/\<open>proc.c\<close> and the multi-level run queue of \<open>proc.c\<close>:
  \<open>priority_q\<close> (five rows of 64 entries), \<open>marker\<close> (the number of entries in use per row),
  \<open>add_process_to_queue\<close> and \<open>remove_process_from_queue\<close>. A \<open>struct proc *\<close> is the index of
  its slot in \<open>ptable.proc\<close>.
\<close>

section \<open>Processes\<close>

definition NPROC :: nat where "NPROC = 64"
definition PLEVELS :: nat where "PLEVELS = 5"
definition NOFILE :: nat where "NOFILE = 16"
definition KSTACKSIZE :: nat where "KSTACKSIZE = 4096"
definition MOD :: int where "MOD = 65"

datatype procstate = UNUSED | EMBRYO | SLEEPING | RUNNABLE | RUNNING | ZOMBIE

text \<open>
  The objects processes sleep on; a \<open>void *chan\<close> is identified by the object it points to.
\<close>

datatype chan = ChProc nat | ChTicks | ChLog | ChSleep sleepid | ChPipeR nat | ChPipeW nat | ChInput

record proc =
  p_sz :: nat
  p_pgdir :: nat
  p_kstack :: nat
  p_state :: procstate
  p_pid :: int
  p_parent :: "nat option"
  p_tf :: nat
  p_context :: nat
  p_chan :: "chan option"
  p_killed :: bool
  p_ofile :: "nat option list"
  p_cwd :: "nat option"
  p_name :: string
  p_priority :: int

record node =
  n_p :: "nat option"
  n_prev :: "nat option"
  n_next :: "nat option"

text \<open>
  \<open>cfg_custom\<close> records whether the kernel was compiled with \<open>-DCUSTOM_SCHEDULER\<close>; the code under
  \<open>#ifndef CUSTOM_SCHEDULER\<close> runs only when it was not.
\<close>

record ptable_st = kalloc_st +
  procs :: "proc list"
  priority_q :: "node list list"
  marker :: "int list"
  initproc :: "nat option"
  nextpid :: int
  cfg_custom :: bool

definition upd_proc :: "nat \<Rightarrow> (proc \<Rightarrow> proc) \<Rightarrow> ('z ptable_st_scheme, unit) cmd" where
  "upd_proc p f = modify (\<lambda>s. s\<lparr>procs := (procs s)[p := f (procs s ! p)]\<rparr>)"

lemma wp_upd_proc [wp_rules]:
  "wp (upd_proc p f) Q R s = Q () (s\<lparr>procs := (procs s)[p := f (procs s ! p)]\<rparr>)"
  by (simp add: upd_proc_def wp_rules)


section \<open>The run queue\<close>

text \<open>
  The loop that looks for the process with the pid of \<open>p\<close> among the first \<open>marker[pr]\<close>
  entries: the index of the match, or \<open>None\<close> for a null entry, which the code would follow.
\<close>

primrec q_search :: "proc list \<Rightarrow> int \<Rightarrow> nat \<Rightarrow> node list \<Rightarrow> nat option option" where
  "q_search ps pid i [] = Some None"
| "q_search ps pid i (n # ns) = (case n_p n of
     None \<Rightarrow> None
   | Some q \<Rightarrow> if p_pid (ps ! q) = pid then Some (Some i) else q_search ps pid (Suc i) ns)"

definition add_process_to_queue :: "nat \<Rightarrow> int \<Rightarrow> ('z ptable_st_scheme, int) cmd" where
  "add_process_to_queue p pr =
     (if pr < 0 \<or> int PLEVELS \<le> pr then undef ''marker[pr]'' else
      bnd (gets (\<lambda>s. (priority_q s ! nat pr, marker s ! nat pr))) (\<lambda>(row, m).
      bnd (gets (\<lambda>s. q_search (procs s) (p_pid (procs s ! p)) 0 (take (nat m) row))) (\<lambda>r.
      case r of
        None \<Rightarrow> undef ''priority_q[pr][i].p''
      | Some (Some i) \<Rightarrow> ret (-1)
      | Some None \<Rightarrow>
          if m < 0 \<or> int NPROC \<le> m then undef ''priority_q[pr][marker[pr]]'' else
          andthen
            [modify (\<lambda>s. s\<lparr>priority_q := (priority_q s)[nat pr :=
               (priority_q s ! nat pr)[nat m := (row ! nat m)\<lparr>n_p := Some p\<rparr>]]\<rparr>),
             modify (\<lambda>s. s\<lparr>marker := (marker s)[nat pr := m + 1]\<rparr>)]
            (ret 1))))"

primrec q_shift :: "node list \<Rightarrow> nat \<Rightarrow> nat \<Rightarrow> node list" where
  "q_shift row j 0 = row"
| "q_shift row j (Suc k) = q_shift (row[j := row ! (j + 1)]) (j + 1) k"

definition remove_process_from_queue :: "nat \<Rightarrow> int \<Rightarrow> ('z ptable_st_scheme, int) cmd" where
  "remove_process_from_queue p pr =
     (if pr < 0 \<or> int PLEVELS \<le> pr then undef ''marker[pr]'' else
      bnd (gets (\<lambda>s. (priority_q s ! nat pr, marker s ! nat pr))) (\<lambda>(row, m).
      bnd (gets (\<lambda>s. q_search (procs s) (p_pid (procs s ! p)) 0 (take (nat m) row))) (\<lambda>r.
      case r of
        None \<Rightarrow> undef ''priority_q[pr][i].p''
      | Some None \<Rightarrow> if int NPROC < m then undef ''priority_q[pr][i]'' else ret (-1)
      | Some (Some i) \<Rightarrow>
          if int NPROC < m then undef ''priority_q[pr][j+1]'' else
          andthen
            [modify (\<lambda>s. s\<lparr>priority_q := (priority_q s)[nat pr := q_shift row i (nat m - 1 - i)]\<rparr>),
             modify (\<lambda>s. s\<lparr>marker := (marker s)[nat pr := m - 1]\<rparr>)]
            (ret 1))))"


section \<open>The queue as a list of processes\<close>

text \<open>
  \<open>queue s l\<close> is the content of row \<open>l\<close>, in order; \<open>q_ok\<close> the representation invariant: the
  arrays have their declared sizes, the markers are in range, the entries in use are
  slots of the table, and no slot occurs twice in a row.
\<close>

definition queue :: "'z ptable_st_scheme \<Rightarrow> nat \<Rightarrow> nat list" where
  "queue s l = map (the \<circ> n_p) (take (nat (marker s ! l)) (priority_q s ! l))"

definition row_ok :: "'z ptable_st_scheme \<Rightarrow> nat \<Rightarrow> bool" where
  "row_ok s l \<longleftrightarrow> length (priority_q s ! l) = NPROC \<and> 0 \<le> marker s ! l \<and>
     marker s ! l \<le> int NPROC \<and>
     (\<forall>n\<in>set (take (nat (marker s ! l)) (priority_q s ! l)). n_p n \<noteq> None) \<and>
     distinct (queue s l) \<and> set (queue s l) \<subseteq> {..<NPROC}"

definition q_ok :: "'z ptable_st_scheme \<Rightarrow> bool" where
  "q_ok s \<longleftrightarrow> length (procs s) = NPROC \<and> length (priority_q s) = PLEVELS \<and>
     length (marker s) = PLEVELS \<and> (\<forall>l<PLEVELS. row_ok s l)"

lemma q_okD: "q_ok s \<Longrightarrow> l < PLEVELS \<Longrightarrow> row_ok s l"
  by (simp add: q_ok_def)

lemma length_queue: "row_ok s l \<Longrightarrow> length (queue s l) = nat (marker s ! l)"
  by (auto simp: row_ok_def queue_def)

lemma q_search_map:
  "\<forall>n\<in>set ns. n_p n \<noteq> None \<Longrightarrow>
     q_search ps pid i ns = Some (first_idx_from i (\<lambda>q. p_pid (ps ! q) = pid) (map (the \<circ> n_p) ns))"
  by (induction ns arbitrary: i) (auto split: option.splits)

lemma q_search_row:
  "row_ok s l \<Longrightarrow> q_search ps pid 0 (take (nat (marker s ! l)) (priority_q s ! l)) =
     Some (first_idx (\<lambda>q. p_pid (ps ! q) = pid) (queue s l))"
  by (simp add: q_search_map row_ok_def queue_def)

lemma q_shift_length [simp]: "length (q_shift row j k) = length row"
  by (induction k arbitrary: row j) auto

lemma q_shift_nth:
  "j + k < length row \<Longrightarrow> i < length row \<Longrightarrow>
     q_shift row j k ! i = (if j \<le> i \<and> i < j + k then row ! (i + 1) else row ! i)"
proof (induction k arbitrary: row j)
  case (Suc k)
  then have "q_shift (row[j := row ! (j + 1)]) (j + 1) k ! i =
      (if j + 1 \<le> i \<and> i < j + 1 + k then row[j := row ! (j + 1)] ! (i + 1)
       else row[j := row ! (j + 1)] ! i)" by simp
  with Suc.prems show ?case by (auto simp: nth_list_update)
qed auto

text \<open>Removing the entry at index \<open>i\<close>, as a function on lists.\<close>

definition delete_at :: "nat \<Rightarrow> 'a list \<Rightarrow> 'a list" where
  "delete_at i xs = take i xs @ drop (Suc i) xs"

lemma q_shift_delete:
  assumes "i < m" "m \<le> length row"
  shows "take (m - 1) (q_shift row i (m - 1 - i)) = delete_at i (take m row)"
proof (rule nth_equalityI)
  show "length (take (m - 1) (q_shift row i (m - 1 - i))) = length (delete_at i (take m row))"
    using assms by (simp add: delete_at_def)
next
  fix k
  assume "k < length (take (m - 1) (q_shift row i (m - 1 - i)))"
  then have k: "k < m - 1" "k < length row" by auto
  then have "q_shift row i (m - 1 - i) ! k = (if i \<le> k then row ! (k + 1) else row ! k)"
    using assms by (subst q_shift_nth) auto
  then show "take (m - 1) (q_shift row i (m - 1 - i)) ! k = delete_at i (take m row) ! k"
    using assms k by (auto simp: delete_at_def nth_append min_def)
qed


section \<open>Specification of the queue operations\<close>

text \<open>
  On lists: \<open>spec_add\<close> appends a process unless one with its pid is there, \<open>spec_remove\<close>
  deletes the first process with its pid. The pids come from a function of the slots.
\<close>

definition spec_add :: "(nat \<Rightarrow> int) \<Rightarrow> nat \<Rightarrow> nat list \<Rightarrow> nat list" where
  "spec_add pid p q = (if \<exists>r\<in>set q. pid r = pid p then q else q @ [p])"

definition spec_remove :: "(nat \<Rightarrow> int) \<Rightarrow> nat \<Rightarrow> nat list \<Rightarrow> nat list" where
  "spec_remove pid p q =
     (case first_idx (\<lambda>r. pid r = pid p) q of None \<Rightarrow> q | Some i \<Rightarrow> delete_at i q)"

definition pid_of :: "'z ptable_st_scheme \<Rightarrow> nat \<Rightarrow> int" where
  "pid_of s p = p_pid (procs s ! p)"

lemma set_delete_at: "set (delete_at i xs) \<subseteq> set xs"
  by (auto simp: delete_at_def dest: in_set_takeD in_set_dropD)

lemma distinct_delete_at: "distinct xs \<Longrightarrow> distinct (delete_at i xs)"
  by (simp add: delete_at_def set_take_disj_set_drop_if_distinct)

lemma delete_at_set: "distinct xs \<Longrightarrow> i < length xs \<Longrightarrow> set (delete_at i xs) = set xs - {xs ! i}"
proof -
  assume d: "distinct xs" and i: "i < length xs"
  have xs: "xs = take i xs @ xs ! i # drop (Suc i) xs" using i by (rule id_take_nth_drop)
  then have "distinct (take i xs @ xs ! i # drop (Suc i) xs)" using d by metis
  moreover have "set xs = set (take i xs) \<union> {xs ! i} \<union> set (drop (Suc i) xs)"
    by (subst xs) auto
  ultimately show ?thesis by (auto simp: delete_at_def)
qed

lemma delete_at_0: "delete_at 0 (x # xs) = xs"
  by (simp add: delete_at_def)

lemma delete_at_last: "delete_at (length xs) (xs @ [x]) = xs"
  by (simp add: delete_at_def)

lemma set_spec_add: "set (spec_add pid p q) \<subseteq> insert p (set q)"
  by (auto simp: spec_add_def)

lemma spec_add_mono: "set q \<subseteq> set (spec_add pid p q)"
  by (auto simp: spec_add_def)

lemma distinct_spec_add: "distinct q \<Longrightarrow> distinct (spec_add pid p q)"
  by (auto simp: spec_add_def)

lemma set_spec_remove: "set (spec_remove pid p q) \<subseteq> set q"
  by (auto simp: spec_remove_def dest: subsetD [OF set_delete_at] split: option.splits)

lemma distinct_spec_remove: "distinct q \<Longrightarrow> distinct (spec_remove pid p q)"
  by (auto simp: spec_remove_def distinct_delete_at split: option.splits)

lemma spec_remove_other:
  assumes "distinct q" "r \<in> set q" "pid r \<noteq> pid p"
  shows "r \<in> set (spec_remove pid p q)"
proof (cases "first_idx (\<lambda>r. pid r = pid p) q")
  case None
  with assms show ?thesis by (simp add: spec_remove_def)
next
  case (Some i)
  then have "i < length q" "pid (q ! i) = pid p" using first_idx_Some by auto
  with assms Some show ?thesis by (auto simp: spec_remove_def delete_at_set)
qed

lemma spec_remove_head: "pid x = pid p \<Longrightarrow> spec_remove pid p (x # q) = q"
  by (simp add: spec_remove_def delete_at_0)

lemma spec_add_present: "p \<in> set q \<Longrightarrow> spec_add pid p q = q"
  by (auto simp: spec_add_def)

lemma spec_add_member: "inj_on pid (insert p (set q)) \<Longrightarrow> p \<in> set (spec_add pid p q)"
  by (auto simp: spec_add_def inj_on_def)

locale run_queue =
  fixes add :: "nat \<Rightarrow> int \<Rightarrow> ('s, int) cmd" and remove :: "nat \<Rightarrow> int \<Rightarrow> ('s, int) cmd"
    and q :: "'s \<Rightarrow> nat \<Rightarrow> nat list" and pid :: "'s \<Rightarrow> nat \<Rightarrow> int" and inv :: "'s \<Rightarrow> bool"
    and slots :: nat and levels :: nat
  assumes add_spec: "inv s \<Longrightarrow> p < slots \<Longrightarrow> l < levels \<Longrightarrow> \<exists>t.
      add p (int l) s = Ok (if \<exists>r\<in>set (q s l). pid s r = pid s p then -1 else 1) t \<and> inv t \<and>
      pid t = pid s \<and> q t l = spec_add (pid s) p (q s l) \<and> (\<forall>k. k \<noteq> l \<longrightarrow> q t k = q s k)"
    and remove_spec: "inv s \<Longrightarrow> p < slots \<Longrightarrow> l < levels \<Longrightarrow> \<exists>t.
      remove p (int l) s = Ok (if \<exists>r\<in>set (q s l). pid s r = pid s p then 1 else -1) t \<and> inv t \<and>
      pid t = pid s \<and> q t l = spec_remove (pid s) p (q s l) \<and> (\<forall>k. k \<noteq> l \<longrightarrow> q t k = q s k)"
    and inv_queue: "inv s \<Longrightarrow> l < levels \<Longrightarrow> distinct (q s l) \<and> set (q s l) \<subseteq> {..<slots}"
begin

lemma queue_bounded: "inv s \<Longrightarrow> l < levels \<Longrightarrow> length (q s l) \<le> slots"
  using inv_queue [of s l] card_mono [of "{..<slots}" "set (q s l)"]
  by (simp add: distinct_card)

lemma add_remove_restores:
  assumes "inv s" "p < slots" "l < levels" "\<forall>r\<in>set (q s l). pid s r \<noteq> pid s p"
  shows "\<exists>t. bnd (add p (int l)) (\<lambda>_. remove p (int l)) s = Ok 1 t \<and> inv t \<and> q t = q s"
proof -
  obtain u where u: "add p (int l) s = Ok 1 u" "inv u" "pid u = pid s" "q u l = q s l @ [p]"
    "\<forall>k. k \<noteq> l \<longrightarrow> q u k = q s k"
    using add_spec [OF assms(1-3)] assms(4) by (auto simp: spec_add_def)
  have "first_idx (\<lambda>r. pid s r = pid s p) (q s l @ [p]) = Some (length (q s l))"
    using assms(4) by (simp add: first_idx_append_last)
  then have "spec_remove (pid s) p (q s l @ [p]) = q s l"
    by (simp add: spec_remove_def delete_at_last)
  with remove_spec [OF u(2) assms(2,3)] u obtain t where
    t: "remove p (int l) u = Ok 1 t" "inv t" "q t l = q s l" "\<forall>k. k \<noteq> l \<longrightarrow> q t k = q u k" by auto
  then have "q t = q s" using u(5) by (metis ext)
  with t u(1) show ?thesis by auto
qed

lemma remove_head:
  assumes "inv s" "l < levels" "q s l = p # ps"
  shows "\<exists>t. remove p (int l) s = Ok 1 t \<and> inv t \<and> pid t = pid s \<and> q t l = ps \<and>
    (\<forall>k. k \<noteq> l \<longrightarrow> q t k = q s k)"
proof -
  have "p < slots" using inv_queue [OF assms(1,2)] assms(3) by auto
  from remove_spec [OF assms(1) this assms(2)] assms(3) show ?thesis
    by (auto simp: spec_remove_head)
qed

end


section \<open>The arrays implement the specification\<close>

lemma queue_frame:
  "queue (s\<lparr>procs := x\<rparr>) = queue s" "queue (s\<lparr>initproc := i\<rparr>) = queue s"
  "queue (s\<lparr>nextpid := k\<rparr>) = queue s" "queue (s\<lparr>mem := m\<rparr>) = queue s"
  "queue (s\<lparr>cpus := c\<rparr>) = queue s" "queue (s\<lparr>locks := lk\<rparr>) = queue s"
  by (simp_all add: queue_def fun_eq_iff)

definition enq_st :: "'z ptable_st_scheme \<Rightarrow> nat \<Rightarrow> nat \<Rightarrow> 'z ptable_st_scheme" where
  "enq_st s p l = s\<lparr>priority_q := (priority_q s)[l := (priority_q s ! l)[nat (marker s ! l) :=
       (priority_q s ! l ! nat (marker s ! l))\<lparr>n_p := Some p\<rparr>]],
     marker := (marker s)[l := marker s ! l + 1]\<rparr>"

definition deq_st :: "'z ptable_st_scheme \<Rightarrow> nat \<Rightarrow> nat \<Rightarrow> 'z ptable_st_scheme" where
  "deq_st s i l = s\<lparr>
     priority_q := (priority_q s)[l := q_shift (priority_q s ! l) i (nat (marker s ! l) - 1 - i)],
     marker := (marker s)[l := marker s ! l - 1]\<rparr>"

lemma take_Suc_update: "k < length xs \<Longrightarrow> take (Suc k) (xs[k := x]) = take k xs @ [x]"
  by (simp add: take_Suc_conv_app_nth)

lemma enq_queue:
  assumes "q_ok s" "l < PLEVELS" "marker s ! l < int NPROC"
  shows "queue (enq_st s p l) l = queue s l @ [p]" "k \<noteq> l \<Longrightarrow> queue (enq_st s p l) k = queue s k"
proof -
  have r: "row_ok s l" "l < length (priority_q s)" "l < length (marker s)"
    using assms by (auto simp: q_ok_def)
  then have "nat (marker s ! l) < length (priority_q s ! l)" "nat (marker s ! l + 1) = Suc (nat (marker s ! l))"
    using assms(3) by (auto simp: row_ok_def)
  then show "queue (enq_st s p l) l = queue s l @ [p]"
    using r by (simp add: queue_def enq_st_def take_Suc_update)
  show "k \<noteq> l \<Longrightarrow> queue (enq_st s p l) k = queue s k"
    by (simp add: queue_def enq_st_def)
qed

lemma deq_queue:
  assumes "q_ok s" "l < PLEVELS" "i < length (queue s l)"
  shows "queue (deq_st s i l) l = delete_at i (queue s l)" "k \<noteq> l \<Longrightarrow> queue (deq_st s i l) k = queue s k"
proof -
  have r: "row_ok s l" "l < length (priority_q s)" "l < length (marker s)"
    using assms by (auto simp: q_ok_def)
  then have i: "i < nat (marker s ! l)" "nat (marker s ! l) \<le> length (priority_q s ! l)"
    using assms(3) length_queue [OF r(1)] by (auto simp: row_ok_def)
  have "nat (marker s ! l - 1) = nat (marker s ! l) - 1" by simp
  then show "queue (deq_st s i l) l = delete_at i (queue s l)"
    using r q_shift_delete [OF i]
    by (simp add: queue_def deq_st_def) (simp add: delete_at_def take_map drop_map)
  show "k \<noteq> l \<Longrightarrow> queue (deq_st s i l) k = queue s k"
    by (simp add: queue_def deq_st_def)
qed

lemma q_ok_enq:
  assumes "q_ok s" "l < PLEVELS" "p < NPROC" "p \<notin> set (queue s l)"
  shows "marker s ! l < int NPROC" "q_ok (enq_st s p l)"
proof -
  have r: "row_ok s l" using assms by (simp add: q_ok_def)
  have "card (set (p # queue s l)) \<le> card {..<NPROC}"
    using r assms(3) by (intro card_mono) (auto simp: row_ok_def)
  then have "Suc (length (queue s l)) \<le> NPROC"
    using r assms(4) by (simp add: distinct_card row_ok_def)
  then show m: "marker s ! l < int NPROC"
    using length_queue [OF r] by simp
  have "row_ok (enq_st s p l) k" if k: "k < PLEVELS" for k
  proof (cases "k = l")
    case True
    have len: "l < length (priority_q s)" "l < length (marker s)" "nat (marker s ! l) < length (priority_q s ! l)"
      using assms m r by (auto simp: q_ok_def row_ok_def)
    have n: "nat (marker s ! l + 1) = Suc (nat (marker s ! l))" using r by (auto simp: row_ok_def)
    show ?thesis using r m assms(3,4) len True enq_queue(1) [OF assms(1,2) m]
      by (auto simp: row_ok_def) (auto simp: enq_st_def n take_Suc_update)
  next
    case False
    have "row_ok s k" using assms(1) k by (simp add: q_ok_def)
    with False show ?thesis using enq_queue(2) [OF assms(1,2) m False]
      by (auto simp: row_ok_def) (auto simp: enq_st_def)
  qed
  then show "q_ok (enq_st s p l)" using assms(1) by (simp add: q_ok_def enq_st_def)
qed

lemma q_ok_deq:
  assumes "q_ok s" "l < PLEVELS" "i < length (queue s l)"
  shows "q_ok (deq_st s i l)"
proof -
  have r: "row_ok s l" using assms by (simp add: q_ok_def)
  have "row_ok (deq_st s i l) k" if k: "k < PLEVELS" for k
  proof (cases "k = l")
    case True
    have len: "l < length (priority_q s)" "l < length (marker s)"
      using assms by (auto simp: q_ok_def)
    have i: "i < nat (marker s ! l)" "nat (marker s ! l) \<le> length (priority_q s ! l)"
      using r assms(3) length_queue [OF r] by (auto simp: row_ok_def)
    have n: "nat (marker s ! l - 1) = nat (marker s ! l) - 1" by simp
    have "set (take (nat (marker s ! l) - 1) (q_shift (priority_q s ! l) i (nat (marker s ! l) - 1 - i)))
        \<subseteq> set (take (nat (marker s ! l)) (priority_q s ! l))"
      unfolding q_shift_delete [OF i] by (rule set_delete_at)
    then show ?thesis using r i len True deq_queue(1) [OF assms]
        set_delete_at [of i "queue s l"] distinct_delete_at [of "queue s l" i]
      by (auto simp: row_ok_def) (auto simp: deq_st_def n)
  next
    case False
    have "row_ok s k" using assms(1) k by (simp add: q_ok_def)
    with False show ?thesis using deq_queue(2) [OF assms False]
      by (auto simp: row_ok_def) (auto simp: deq_st_def)
  qed
  then show ?thesis using assms(1) by (simp add: q_ok_def deq_st_def)
qed

lemma queue_update_pair:
  "queue (s\<lparr>priority_q := x, marker := y\<rparr>) = queue (s\<lparr>marker := y, priority_q := x\<rparr>)"
  by (simp add: queue_def fun_eq_iff)

lemma add_process_present:
  assumes "q_ok s" "l < PLEVELS" "\<exists>r\<in>set (queue s l). pid_of s r = pid_of s p"
  shows "add_process_to_queue p (int l) s = Ok (-1) s"
proof -
  obtain i where i: "first_idx (\<lambda>q. p_pid (procs s ! q) = p_pid (procs s ! p)) (queue s l) = Some i"
    using assms(3) first_idx_from_None [of 0 "\<lambda>q. p_pid (procs s ! q) = p_pid (procs s ! p)"]
    by (fastforce simp: pid_of_def)
  then show ?thesis using assms(1,2)
    by (simp add: add_process_to_queue_def exec_simps q_search_row q_okD)
qed

lemma add_process_fresh:
  assumes "q_ok s" "l < PLEVELS" "p < NPROC" "\<forall>r\<in>set (queue s l). pid_of s r \<noteq> pid_of s p"
  shows "add_process_to_queue p (int l) s = Ok 1 (enq_st s p l)"
proof -
  have "first_idx (\<lambda>q. p_pid (procs s ! q) = p_pid (procs s ! p)) (queue s l) = None"
    using assms(4) by (simp add: first_idx_from_None pid_of_def)
  moreover have "p \<notin> set (queue s l)" using assms(4) by auto
  with q_ok_enq(1) [OF assms(1-3)] have "marker s ! l < int NPROC" by simp
  moreover have "0 \<le> marker s ! l" using assms(1,2) by (simp add: q_ok_def row_ok_def)
  ultimately show ?thesis using assms(1,2)
    by (simp add: add_process_to_queue_def exec_simps q_search_row q_okD enq_st_def)
qed

lemma remove_process_run:
  assumes "q_ok s" "l < PLEVELS"
  shows "remove_process_from_queue p (int l) s =
    (case first_idx (\<lambda>r. pid_of s r = pid_of s p) (queue s l) of
       None \<Rightarrow> Ok (-1) s | Some i \<Rightarrow> Ok 1 (deq_st s i l))"
proof -
  have "\<not> int NPROC < marker s ! l" using q_okD [OF assms] by (simp add: row_ok_def)
  then show ?thesis using assms
    by (simp add: remove_process_from_queue_def exec_simps q_search_row q_okD deq_st_def pid_of_def
        split: option.splits)
qed

lemma pid_of_enq_deq [simp]: "pid_of (enq_st s p l) = pid_of s" "pid_of (deq_st s i l) = pid_of s"
  by (simp_all add: pid_of_def enq_st_def deq_st_def fun_eq_iff)

interpretation pq: run_queue add_process_to_queue remove_process_from_queue queue pid_of q_ok NPROC PLEVELS
proof unfold_locales
  fix s :: "'a ptable_st_scheme" and p l
  assume a: "q_ok s" "p < NPROC" "l < PLEVELS"
  show "\<exists>t. add_process_to_queue p (int l) s =
      Ok (if \<exists>r\<in>set (queue s l). pid_of s r = pid_of s p then -1 else 1) t \<and> q_ok t \<and>
      pid_of t = pid_of s \<and> queue t l = spec_add (pid_of s) p (queue s l) \<and>
      (\<forall>k. k \<noteq> l \<longrightarrow> queue t k = queue s k)"
  proof (cases "\<exists>r\<in>set (queue s l). pid_of s r = pid_of s p")
    case True
    with a show ?thesis by (simp add: add_process_present spec_add_def)
  next
    case False
    then have f: "\<forall>r\<in>set (queue s l). pid_of s r \<noteq> pid_of s p" "p \<notin> set (queue s l)" by auto
    from q_ok_enq [OF a(1,3,2) f(2)] enq_queue [OF a(1,3)] False show ?thesis
      using add_process_fresh [OF a(1,3,2) f(1)] by (auto simp: spec_add_def)
  qed
  show "\<exists>t. remove_process_from_queue p (int l) s =
      Ok (if \<exists>r\<in>set (queue s l). pid_of s r = pid_of s p then 1 else -1) t \<and> q_ok t \<and>
      pid_of t = pid_of s \<and> queue t l = spec_remove (pid_of s) p (queue s l) \<and>
      (\<forall>k. k \<noteq> l \<longrightarrow> queue t k = queue s k)"
  proof (cases "first_idx (\<lambda>r. pid_of s r = pid_of s p) (queue s l)")
    case None
    then have "\<not> (\<exists>r\<in>set (queue s l). pid_of s r = pid_of s p)" by (simp add: first_idx_from_None)
    with a None show ?thesis by (simp add: remove_process_run spec_remove_def)
  next
    case (Some i)
    then have i: "i < length (queue s l)" "pid_of s (queue s l ! i) = pid_of s p"
      using first_idx_Some by auto
    then have "\<exists>r\<in>set (queue s l). pid_of s r = pid_of s p" by (auto intro: nth_mem)
    with Some a q_ok_deq [OF a(1,3) i(1)] deq_queue [OF a(1,3) i(1)] show ?thesis
      by (auto simp: remove_process_run spec_remove_def)
  qed
next
  fix s :: "'a ptable_st_scheme" and l
  assume "q_ok s" "l < PLEVELS"
  then show "distinct (queue s l) \<and> set (queue s l) \<subseteq> {..<NPROC}"
    by (simp add: q_ok_def row_ok_def)
qed


section \<open>Properties\<close>

text \<open>
  C31. Refinement of \<open>add_process_to_queue\<close>: on a well-formed table the array code appends the
  process to its level unless the level holds its pid (return value -1), never writes outside the
  row, keeps every other level and keeps the table well-formed.
\<close>

theorem add_process_to_queue_refines:
  assumes "q_ok s" "p < NPROC" "l < PLEVELS"
  shows "\<exists>t. add_process_to_queue p (int l) s =
      Ok (if \<exists>r\<in>set (queue s l). pid_of s r = pid_of s p then -1 else 1) t \<and> q_ok t \<and>
    queue t l = spec_add (pid_of s) p (queue s l) \<and> (\<forall>k. k \<noteq> l \<longrightarrow> queue t k = queue s k) \<and>
    length (queue t l) \<le> NPROC"
  using pq.add_spec [OF assms] pq.queue_bounded assms(3) by blast

definition proc0 :: proc where
  "proc0 = \<lparr>p_sz = 0, p_pgdir = 0, p_kstack = 0, p_state = UNUSED, p_pid = 0, p_parent = None, p_tf = 0,
     p_context = 0, p_chan = None, p_killed = False, p_ofile = replicate NOFILE None, p_cwd = None,
     p_name = [], p_priority = 0\<rparr>"

definition node0 :: node where
  "node0 = \<lparr>n_p = None, n_prev = None, n_next = None\<rparr>"

text \<open>The table before the first process: the zeroed arrays of the kernel image.\<close>

definition ptable0 :: ptable_st where
  "ptable0 = \<lparr>mem = mem mach0, cpus = cpus mach0, cur = 0, locks = locks mach0, cons_out = [],
     km_use_lock = 0, km_freelist = 0, km_end = KERNBASE + 1048576,
     procs = replicate NPROC proc0,
     priority_q = replicate PLEVELS (replicate NPROC node0), marker = replicate PLEVELS 0,
     initproc = None, nextpid = 1, cfg_custom = False\<rparr>"

lemma q_ok_ptable0: "q_ok ptable0"
  by (simp add: q_ok_def row_ok_def queue_def ptable0_def)

lemma queue_ptable0: "l < PLEVELS \<Longrightarrow> queue ptable0 l = []"
  by (simp add: queue_def ptable0_def)

theorem add_process_to_queue_refines_witness:
  "\<exists>t. add_process_to_queue 7 (int 2) ptable0 = Ok 1 t \<and> queue t 2 = [7]"
proof -
  have q: "queue ptable0 2 = []" by (simp add: queue_ptable0 PLEVELS_def)
  show ?thesis
    using add_process_to_queue_refines [OF q_ok_ptable0, of 7 2] unfolding q
    by (auto simp: NPROC_def PLEVELS_def spec_add_def)
qed

text \<open>
  C32. Refinement of \<open>remove_process_from_queue\<close>: the shifting loop deletes exactly the first
  entry with the pid of the process, keeps the order of the others and every other level, and
  returns -1 with the state unchanged when there is none.
\<close>

theorem remove_process_from_queue_refines:
  assumes "q_ok s" "p < NPROC" "l < PLEVELS"
  shows "\<exists>t. remove_process_from_queue p (int l) s =
      Ok (if \<exists>r\<in>set (queue s l). pid_of s r = pid_of s p then 1 else -1) t \<and> q_ok t \<and>
    queue t l = spec_remove (pid_of s) p (queue s l) \<and> (\<forall>k. k \<noteq> l \<longrightarrow> queue t k = queue s k) \<and>
    (\<not> (\<exists>r\<in>set (queue s l). pid_of s r = pid_of s p) \<longrightarrow> t = s)"
proof (cases "\<exists>r\<in>set (queue s l). pid_of s r = pid_of s p")
  case True
  then show ?thesis using pq.remove_spec [OF assms] by auto
next
  case False
  then have "first_idx (\<lambda>r. pid_of s r = pid_of s p) (queue s l) = None"
    by (simp add: first_idx_from_None)
  with False assms show ?thesis by (simp add: remove_process_run spec_remove_def)
qed

theorem remove_process_from_queue_refines_witness:
  "\<exists>s t. add_process_to_queue 7 (int 2) ptable0 = Ok 1 s \<and> queue s 2 = [7] \<and>
    remove_process_from_queue 7 (int 2) s = Ok 1 t \<and> queue t 2 = []"
proof -
  have n: "7 < NPROC" "2 < PLEVELS" by (simp_all add: NPROC_def PLEVELS_def)
  obtain s where s: "add_process_to_queue 7 (int 2) ptable0 = Ok 1 s" "q_ok s" "queue s 2 = [7]"
    using pq.add_spec [OF q_ok_ptable0 n] by (auto simp: queue_ptable0 [OF n(2)] spec_add_def)
  then show ?thesis using remove_process_from_queue_refines [OF s(2) n] by (auto simp: spec_remove_def delete_at_def)
qed

text \<open>
  Adding a process that is not queued on a level and removing it again restores every level
  of the run queue.
\<close>

theorem add_remove_roundtrip:
  assumes "q_ok s" "p < NPROC" "l < PLEVELS" "\<forall>r\<in>set (queue s l). pid_of s r \<noteq> pid_of s p"
  shows "\<exists>t. bnd (add_process_to_queue p (int l)) (\<lambda>_. remove_process_from_queue p (int l)) s = Ok 1 t
    \<and> q_ok t \<and> queue t = queue s"
  by (rule pq.add_remove_restores [OF assms])

theorem add_remove_roundtrip_witness:
  "\<exists>t. bnd (add_process_to_queue 7 (int 2)) (\<lambda>_. remove_process_from_queue 7 (int 2)) ptable0 = Ok 1 t
    \<and> queue t = queue ptable0"
  using add_remove_roundtrip [OF q_ok_ptable0, of 7 2] by (auto simp: NPROC_def PLEVELS_def queue_ptable0)

end
