(* ===== verification/Vm.thy ===== *)
theory Vm
  imports Ptable
begin

text \<open>
  \<open>vm.c\<close>: two-level page tables in the memory of the machine. A page directory or page
  table is a page of 1024 little-endian words; \<open>walkpgdir\<close> and \<open>mappages\<close> read and write
  them through kernel addresses. \<open>loaduvm\<close>, which reads from an inode, is in the theory
  of \<open>exec.c\<close>. \<open>sym_data\<close> is the linker symbol \<open>data\<close>.
\<close>

unbundle bit_operations_syntax

section \<open>Entries and addresses\<close>

definition NPDENTRIES :: nat where "NPDENTRIES = 1024"
definition NPTENTRIES :: nat where "NPTENTRIES = 1024"
definition PTE_P :: nat where "PTE_P = 1"
definition PTE_W :: nat where "PTE_W = 2"
definition PTE_U :: nat where "PTE_U = 4"

definition PDX :: "nat \<Rightarrow> nat" where
  "PDX va = drop_bit 22 va AND 0x3FF"

definition PTX :: "nat \<Rightarrow> nat" where
  "PTX va = drop_bit 12 va AND 0x3FF"

definition PTE_ADDR :: "nat \<Rightarrow> nat" where
  "PTE_ADDR pte = pte AND 0xFFFFF000"

definition PTE_FLAGS :: "nat \<Rightarrow> nat" where
  "PTE_FLAGS pte = pte AND 0xFFF"

record vm_st = ptable_st +
  kpgdir :: nat
  sym_data :: nat

section \<open>Segments\<close>

definition SEG :: "nat \<Rightarrow> nat \<Rightarrow> nat \<Rightarrow> nat \<Rightarrow> segdesc" where
  "SEG type base lim dpl = \<lparr>sd_lim_15_0 = drop_bit 12 lim AND 0xFFFF, sd_base_15_0 = base AND 0xFFFF,
     sd_base_23_16 = drop_bit 16 base AND 0xFF, sd_type = type, sd_s = 1, sd_dpl = dpl, sd_p = 1,
     sd_lim_19_16 = drop_bit 28 lim, sd_avl = 0, sd_rsv1 = 0, sd_db = 1, sd_g = 1,
     sd_base_31_24 = drop_bit 24 base\<rparr>"

definition SEG16 :: "nat \<Rightarrow> nat \<Rightarrow> nat \<Rightarrow> nat \<Rightarrow> segdesc" where
  "SEG16 type base lim dpl = \<lparr>sd_lim_15_0 = lim AND 0xFFFF, sd_base_15_0 = base AND 0xFFFF,
     sd_base_23_16 = drop_bit 16 base AND 0xFF, sd_type = type, sd_s = 1, sd_dpl = dpl, sd_p = 1,
     sd_lim_19_16 = drop_bit 16 lim, sd_avl = 0, sd_rsv1 = 0, sd_db = 1, sd_g = 0,
     sd_base_31_24 = drop_bit 24 base\<rparr>"

definition SEG_KCODE :: nat where "SEG_KCODE = 1"
definition SEG_KDATA :: nat where "SEG_KDATA = 2"
definition SEG_KCPU :: nat where "SEG_KCPU = 3"
definition SEG_UCODE :: nat where "SEG_UCODE = 4"
definition SEG_UDATA :: nat where "SEG_UDATA = 5"
definition SEG_TSS :: nat where "SEG_TSS = 6"
definition DPL_USER :: nat where "DPL_USER = 3"
definition STA_X :: nat where "STA_X = 8"
definition STA_W :: nat where "STA_W = 2"
definition STA_R :: nat where "STA_R = 2"
definition STS_T32A :: nat where "STS_T32A = 9"

text \<open>
  \<open>seginit\<close>, run on each processor; \<open>cpuaddr\<close> is the address of its \<open>c->cpu\<close> field. The
  assignments to \<open>cpu\<close> and \<open>proc\<close> go through the new \<open>%gs\<close> segment.
\<close>

definition seginit :: "nat \<Rightarrow> ('z mach_scheme, unit) cmd" where
  "seginit cpuaddr = run
     [upd_cpu (\<lambda>c. c\<lparr>c_gdt := (c_gdt c)[SEG_KCODE := SEG (STA_X OR STA_R) 0 0xffffffff 0]\<rparr>),
      upd_cpu (\<lambda>c. c\<lparr>c_gdt := (c_gdt c)[SEG_KDATA := SEG STA_W 0 0xffffffff 0]\<rparr>),
      upd_cpu (\<lambda>c. c\<lparr>c_gdt := (c_gdt c)[SEG_UCODE := SEG (STA_X OR STA_R) 0 0xffffffff DPL_USER]\<rparr>),
      upd_cpu (\<lambda>c. c\<lparr>c_gdt := (c_gdt c)[SEG_UDATA := SEG STA_W 0 0xffffffff DPL_USER]\<rparr>),
      upd_cpu (\<lambda>c. c\<lparr>c_gdt := (c_gdt c)[SEG_KCPU := SEG STA_W cpuaddr 8 0]\<rparr>),
      upd_cpu (\<lambda>c. c\<lparr>c_gs := push_bit 3 SEG_KCPU\<rparr>),
      upd_cpu (\<lambda>c. c\<lparr>c_proc := None\<rparr>)]"


section \<open>Page tables\<close>

definition upd_mem :: "(memory \<Rightarrow> memory) \<Rightarrow> ('z mach_scheme, unit) cmd" where
  "upd_mem f = modify (\<lambda>s. s\<lparr>mem := f (mem s)\<rparr>)"

lemma wp_upd_mem [wp_rules]: "wp (upd_mem f) Q R s = Q () (s\<lparr>mem := f (mem s)\<rparr>)"
  by (simp add: upd_mem_def wp_rules)

definition walkpgdir :: "nat \<Rightarrow> nat \<Rightarrow> bool \<Rightarrow> ('z kalloc_st_scheme, nat) cmd" where
  "walkpgdir pgdir va alloc =
     bnd (gets (\<lambda>s. rd32 (mem s) (pgdir + 4 * PDX va))) (\<lambda>pde.
     if pde AND PTE_P \<noteq> 0 then ret (P2V (PTE_ADDR pde) + 4 * PTX va)
     else if \<not> alloc then ret 0
     else bnd kalloc (\<lambda>pgtab.
       if pgtab = 0 then ret 0
       else andthen
         [upd_mem (\<lambda>m. memset m pgtab 0 PGSIZE),
          upd_mem (\<lambda>m. wr32 m (pgdir + 4 * PDX va) (V2P pgtab OR PTE_P OR PTE_W OR PTE_U))]
         (ret (pgtab + 4 * PTX va))))"

text \<open>
  The loop of \<open>mappages\<close>; \<open>k\<close> is the number of pages after \<open>a\<close> up to and including \<open>lastp\<close> (the variable \<open>last\<close>),
  which bounds the iterations.
\<close>

primrec mappages_loop :: "nat \<Rightarrow> nat \<Rightarrow> nat \<Rightarrow> nat \<Rightarrow> nat \<Rightarrow> nat \<Rightarrow> ('z kalloc_st_scheme, int) cmd" where
  "mappages_loop pgdir lastp perm 0 a pa =
     bnd (walkpgdir pgdir a True) (\<lambda>pte.
       if pte = 0 then ret (-1)
       else andthen
         [panic_if (\<lambda>s. rd32 (mem s) pte AND PTE_P \<noteq> 0) ''remap'',
          upd_mem (\<lambda>m. wr32 m pte (pa OR perm OR PTE_P))]
         (ret 0))"
| "mappages_loop pgdir lastp perm (Suc k) a pa =
     bnd (walkpgdir pgdir a True) (\<lambda>pte.
       if pte = 0 then ret (-1)
       else andthen
         [panic_if (\<lambda>s. rd32 (mem s) pte AND PTE_P \<noteq> 0) ''remap'',
          upd_mem (\<lambda>m. wr32 m pte (pa OR perm OR PTE_P))]
         (if a = lastp then ret 0
          else mappages_loop pgdir lastp perm k (u32 (a + PGSIZE)) (u32 (pa + PGSIZE))))"

definition mappages :: "nat \<Rightarrow> nat \<Rightarrow> nat \<Rightarrow> nat \<Rightarrow> nat \<Rightarrow> ('z kalloc_st_scheme, int) cmd" where
  "mappages pgdir va sz pa perm =
     (let a = PGROUNDDOWN va; lastp = PGROUNDDOWN (u32_of (int va + int sz - 1))
      in mappages_loop pgdir lastp perm (u32_of (int lastp - int a) div PGSIZE) a pa)"

definition kmap :: "'z vm_st_scheme \<Rightarrow> (nat \<times> nat \<times> nat \<times> nat) list" where
  "kmap s =
     [(KERNBASE, 0, EXTMEM, PTE_W),
      (KERNLINK, V2P KERNLINK, V2P (sym_data s), 0),
      (sym_data s, V2P (sym_data s), PHYSTOP, PTE_W),
      (DEVSPACE, DEVSPACE, 0, PTE_W)]"

primrec setupkvm_loop :: "nat \<Rightarrow> (nat \<times> nat \<times> nat \<times> nat) list \<Rightarrow> ('z vm_st_scheme, nat) cmd" where
  "setupkvm_loop pgdir [] = ret pgdir"
| "setupkvm_loop pgdir (k # ks) = (case k of (virt, phys_start, phys_end, perm) \<Rightarrow>
     bnd (mappages pgdir virt (u32_of (int phys_end - int phys_start)) phys_start perm) (\<lambda>r.
       if r < 0 then ret 0 else setupkvm_loop pgdir ks))"

definition setupkvm :: "('z vm_st_scheme, nat) cmd" where
  "setupkvm = bnd kalloc (\<lambda>pgdir.
     if pgdir = 0 then ret 0
     else andthen
       [upd_mem (\<lambda>m. memset m pgdir 0 PGSIZE),
        panic_if (\<lambda>_. P2V PHYSTOP > DEVSPACE) ''PHYSTOP too high'']
       (withS (\<lambda>s. setupkvm_loop pgdir (kmap s))))"

definition lcr3 :: "nat \<Rightarrow> ('z mach_scheme, unit) cmd" where
  "lcr3 v = upd_cpu (\<lambda>c. c\<lparr>c_cr3 := v\<rparr>)"

definition switchkvm :: "('z vm_st_scheme, unit) cmd" where
  "switchkvm = withS (\<lambda>s. lcr3 (V2P (kpgdir s)))"

definition kvmalloc :: "('z vm_st_scheme, unit) cmd" where
  "kvmalloc = bnd setupkvm (\<lambda>d. run [modify (\<lambda>s. s\<lparr>kpgdir := d\<rparr>), switchkvm])"

text \<open>
  \<open>switchuvm p\<close>: the task state points at the kernel stack of the current process
  \<open>proc\<close>, and \<open>%cr3\<close> at the page table of \<open>p\<close>. \<open>tsaddr\<close> stands for \<open>&cpu->ts\<close>.
\<close>

definition tsaddr :: "'z mach_scheme \<Rightarrow> nat" where
  "tsaddr s = c_frame (the_cpu s)"

definition switchuvm :: "nat \<Rightarrow> ('z ptable_st_scheme, unit) cmd" where
  "switchuvm p = run
     [pushcli,
      withS (\<lambda>s. upd_cpu (\<lambda>c. c\<lparr>c_gdt := (c_gdt c)[SEG_TSS := (SEG16 STS_T32A (tsaddr s) 103 0)\<lparr>sd_s := 0\<rparr>]\<rparr>)),
      upd_cpu (\<lambda>c. c\<lparr>c_ts_ss0 := push_bit 3 SEG_KDATA\<rparr>),
      withS (\<lambda>s. case c_proc (the_cpu s) of
         None \<Rightarrow> undef ''proc->kstack''
       | Some q \<Rightarrow> upd_cpu (\<lambda>c. c\<lparr>c_ts_esp0 := u32 (p_kstack (procs s ! q) + KSTACKSIZE)\<rparr>)),
      upd_cpu (\<lambda>c. c\<lparr>c_ts_iomb := 0xFFFF\<rparr>),
      upd_cpu (\<lambda>c. c\<lparr>c_tr := push_bit 3 SEG_TSS\<rparr>),
      panic_if (\<lambda>s. p_pgdir (procs s ! p) = 0) ''switchuvm: no pgdir'',
      withS (\<lambda>s. lcr3 (V2P (p_pgdir (procs s ! p)))),
      popcli]"

definition inituvm :: "nat \<Rightarrow> nat \<Rightarrow> nat \<Rightarrow> ('z vm_st_scheme, unit) cmd" where
  "inituvm pgdir init sz =
     bnd (panic_if (\<lambda>_. PGSIZE \<le> sz) ''inituvm: more than a page'') (\<lambda>_.
     bnd kalloc (\<lambda>m.
       if m = 0 then undef ''memset(mem, 0, PGSIZE)''
       else run
         [upd_mem (\<lambda>x. memset x m 0 PGSIZE),
          call (mappages pgdir 0 PGSIZE (V2P m) (PTE_W OR PTE_U)),
          upd_mem (\<lambda>x. memmove x m init sz)]))"

section \<open>User memory\<close>

function deallocuvm_loop :: "nat \<Rightarrow> nat \<Rightarrow> nat \<Rightarrow> nat \<Rightarrow> ('z kalloc_st_scheme, nat) cmd" where
  "deallocuvm_loop pgdir oldsz newsz a =
     (if a < oldsz then
        bnd (walkpgdir pgdir a False) (\<lambda>pte.
          if pte = 0 then deallocuvm_loop pgdir oldsz newsz (a + (NPTENTRIES - 1) * PGSIZE + PGSIZE)
          else bnd (gets (\<lambda>s. rd32 (mem s) pte)) (\<lambda>e. andthen
            (if e AND PTE_P \<noteq> 0 then
               [panic_if (\<lambda>_. PTE_ADDR e = 0) ''kfree'',
                kfree (P2V (PTE_ADDR e)),
                upd_mem (\<lambda>m. wr32 m pte 0)]
             else [])
            (deallocuvm_loop pgdir oldsz newsz (a + PGSIZE))))
      else ret newsz)"
  by pat_completeness auto
termination
  by (relation "measure (\<lambda>(pgdir, oldsz, newsz, a). oldsz - a)") (auto simp: PGSIZE_def NPTENTRIES_def)

declare deallocuvm_loop.simps [simp del]

definition deallocuvm :: "nat \<Rightarrow> nat \<Rightarrow> nat \<Rightarrow> ('z kalloc_st_scheme, nat) cmd" where
  "deallocuvm pgdir oldsz newsz =
     (if oldsz \<le> newsz then ret oldsz
      else deallocuvm_loop pgdir oldsz newsz (PGROUNDUP newsz))"

function allocuvm_loop :: "nat \<Rightarrow> nat \<Rightarrow> nat \<Rightarrow> nat \<Rightarrow> ('z kalloc_st_scheme, nat) cmd" where
  "allocuvm_loop pgdir oldsz newsz a =
     (if a < newsz then
        bnd kalloc (\<lambda>m.
          if m = 0 then andthen
            [cprintf ''allocuvm out of memory\<newline>'' [],
             call (deallocuvm pgdir newsz oldsz)]
            (ret 0)
          else bnd (upd_mem (\<lambda>x. memset x m 0 PGSIZE)) (\<lambda>_.
            bnd (mappages pgdir a PGSIZE (V2P m) (PTE_W OR PTE_U)) (\<lambda>r.
              if r < 0 then andthen
                [cprintf ''allocuvm out of memory (2)\<newline>'' [],
                 call (deallocuvm pgdir newsz oldsz),
                 kfree m]
                (ret 0)
              else allocuvm_loop pgdir oldsz newsz (a + PGSIZE))))
      else ret newsz)"
  by pat_completeness auto
termination
  by (relation "measure (\<lambda>(pgdir, oldsz, newsz, a). newsz - a)") (auto simp: PGSIZE_def)

declare allocuvm_loop.simps [simp del]

definition allocuvm :: "nat \<Rightarrow> nat \<Rightarrow> nat \<Rightarrow> ('z kalloc_st_scheme, nat) cmd" where
  "allocuvm pgdir oldsz newsz =
     (if KERNBASE \<le> newsz then ret 0
      else if newsz < oldsz then ret oldsz
      else allocuvm_loop pgdir oldsz newsz (PGROUNDUP oldsz))"

definition freevm :: "nat \<Rightarrow> ('z kalloc_st_scheme, unit) cmd" where
  "freevm pgdir = run
     [panic_if (\<lambda>_. pgdir = 0) ''freevm: no pgdir'',
      call (deallocuvm pgdir KERNBASE 0),
      forM [0..<NPDENTRIES] (\<lambda>i. withS (\<lambda>s.
        if rd32 (mem s) (pgdir + 4 * i) AND PTE_P \<noteq> 0
        then kfree (P2V (PTE_ADDR (rd32 (mem s) (pgdir + 4 * i)))) else skip)),
      kfree pgdir]"

definition clearpteu :: "nat \<Rightarrow> nat \<Rightarrow> ('z kalloc_st_scheme, unit) cmd" where
  "clearpteu pgdir uva = bnd (walkpgdir pgdir uva False) (\<lambda>pte.
     if pte = 0 then panic ''clearpteu''
     else upd_mem (\<lambda>m. wr32 m pte (rd32 m pte AND 0xFFFFFFFB)))"

function copyuvm_loop :: "nat \<Rightarrow> nat \<Rightarrow> nat \<Rightarrow> nat \<Rightarrow> ('z vm_st_scheme, nat) cmd" where
  "copyuvm_loop pgdir sz d i =
     (if i < sz then
        bnd (walkpgdir pgdir i False) (\<lambda>pte.
        if pte = 0 then panic ''copyuvm: pte should exist''
        else bnd (gets (\<lambda>s. rd32 (mem s) pte)) (\<lambda>e.
        if e AND PTE_P = 0 then panic ''copyuvm: page not present''
        else bnd kalloc (\<lambda>m.
        if m = 0 then andthen [freevm d] (ret 0)
        else bnd (upd_mem (\<lambda>x. memmove x m (P2V (PTE_ADDR e)) PGSIZE)) (\<lambda>_.
        bnd (mappages d i PGSIZE (V2P m) (PTE_FLAGS e)) (\<lambda>r.
        if r < 0 then andthen [freevm d] (ret 0)
        else copyuvm_loop pgdir sz d (i + PGSIZE))))))
      else ret d)"
  by pat_completeness auto
termination
  by (relation "measure (\<lambda>(pgdir, sz, d, i). sz - i)") (auto simp: PGSIZE_def)

declare copyuvm_loop.simps [simp del]

definition copyuvm :: "nat \<Rightarrow> nat \<Rightarrow> ('z vm_st_scheme, nat) cmd" where
  "copyuvm pgdir sz = bnd setupkvm (\<lambda>d. if d = 0 then ret 0 else copyuvm_loop pgdir sz d 0)"

definition uva2ka :: "nat \<Rightarrow> nat \<Rightarrow> ('z kalloc_st_scheme, nat) cmd" where
  "uva2ka pgdir uva = bnd (walkpgdir pgdir uva False) (\<lambda>pte.
     if pte = 0 then undef ''*pte''
     else bnd (gets (\<lambda>s. rd32 (mem s) pte)) (\<lambda>e.
       if e AND PTE_P = 0 then ret 0
       else if e AND PTE_U = 0 then ret 0
       else ret (P2V (PTE_ADDR e))))"

text \<open>\<open>mem_store m a bs\<close> places the bytes \<open>bs\<close> of a kernel buffer at address \<open>a\<close>.\<close>

primrec mem_store :: "memory \<Rightarrow> nat \<Rightarrow> byte list \<Rightarrow> memory" where
  "mem_store m a [] = m"
| "mem_store m a (b # bs) = mem_store (m(a := b)) (a + 1) bs"

function copyout :: "nat \<Rightarrow> nat \<Rightarrow> byte list \<Rightarrow> ('z kalloc_st_scheme, int) cmd" where
  "copyout pgdir va buf =
     (if buf = [] then ret 0
      else (let va0 = PGROUNDDOWN va; n = min (PGSIZE - (va - va0)) (length buf) in
        bnd (uva2ka pgdir va0) (\<lambda>pa0.
        if pa0 = 0 then ret (-1)
        else bnd (upd_mem (\<lambda>m. mem_store m (pa0 + (va - va0)) (take n buf))) (\<lambda>_.
          copyout pgdir (u32 (va0 + PGSIZE)) (drop n buf)))))"
  by pat_completeness auto
termination
proof (relation "measure (\<lambda>(pgdir, va, buf). length buf)", goal_cases)
  case (2 pgdir va buf va0 n x y)
  have "va mod PGSIZE < PGSIZE" by (simp add: PGSIZE_def)
  moreover have "va - va0 = va mod PGSIZE"
    using 2 by (simp add: PGROUNDDOWN_def minus_div_mult_eq_mod)
  ultimately have "0 < n" using 2 by (simp add: min_def)
  with 2 show ?case by (cases buf) auto
qed simp

declare copyout.simps [simp del]
end
