(* ===== verification/Sched.thy ===== *)
theory Sched
  imports Vm
begin

text \<open>
  The scheduling half of \<open>proc.c\<close>: allocation of process slots, \<open>sched\<close>, \<open>yield\<close>,
  \<open>sleep\<close>/\<open>wakeup\<close>, the priority scheduler and the round-robin scheduler, \<open>procdump\<close> and
  \<open>cps\<close>. A process that calls \<open>sched()\<close> leaves with \<open>Stop Switch\<close>; the code after the
  call is the matching \<open>..._return\<close> definition, which runs when the scheduler has switched
  back to the process.
\<close>

record sched_st = vm_st +
  ticks :: "32 word"
  sym_forkret :: nat
  sym_trapret :: nat

text \<open>Offsets and sizes of \<open>struct trapframe\<close> (\<open>x86.h\<close>) and \<open>struct context\<close> (\<open>proc.h\<close>).\<close>

definition TF_SIZE :: nat where "TF_SIZE = 76"
definition TF_EAX :: nat where "TF_EAX = 28"
definition TF_ES :: nat where "TF_ES = 40"
definition TF_DS :: nat where "TF_DS = 44"
definition TF_TRAPNO :: nat where "TF_TRAPNO = 48"
definition TF_ERR :: nat where "TF_ERR = 52"
definition TF_EIP :: nat where "TF_EIP = 56"
definition TF_CS :: nat where "TF_CS = 60"
definition TF_EFLAGS :: nat where "TF_EFLAGS = 64"
definition TF_ESP :: nat where "TF_ESP = 68"
definition TF_SS :: nat where "TF_SS = 72"
definition CTX_SIZE :: nat where "CTX_SIZE = 20"
definition CTX_EBP :: nat where "CTX_EBP = 12"
definition CTX_EIP :: nat where "CTX_EIP = 16"

text \<open>The per-processor variable \<open>proc\<close>; following a null \<open>proc\<close> has no meaning.\<close>

definition with_proc :: "(nat \<Rightarrow> ('z mach_scheme, 'a) cmd) \<Rightarrow> ('z mach_scheme, 'a) cmd" where
  "with_proc f = withS (\<lambda>s. case c_proc (the_cpu s) of None \<Rightarrow> undef ''proc'' | Some p \<Rightarrow> f p)"

section \<open>Processors and slots\<close>

definition pinit :: "('z mach_scheme, unit) cmd" where
  "pinit = initlock LPtable ''ptable''"

text \<open>\<open>mycpu\<close>: the first processor with the local APIC id of the one that executes.\<close>

definition mycpu :: "('z mach_scheme, nat) cmd" where
  "mycpu = bnd (panic_if (\<lambda>s. c_if (the_cpu s)) ''mycpu called with interrupts enabled'') (\<lambda>_.
     withS (\<lambda>s. case first_idx (\<lambda>c. c_apicid c = c_apicid (the_cpu s)) (cpus s) of
       Some i \<Rightarrow> ret i | None \<Rightarrow> panic ''unknown apicid''))"

definition myproc :: "('z mach_scheme, nat option) cmd" where
  "myproc = bnd pushcli (\<lambda>_. bnd mycpu (\<lambda>c. bnd (gets (\<lambda>s. c_proc (cpus s ! c))) (\<lambda>p.
     andthen [popcli] (ret p))))"

definition allocproc :: "('z sched_st_scheme, nat option) cmd" where
  "allocproc = bnd (acquire LPtable) (\<lambda>_.
     bnd (gets (\<lambda>s. first_idx (\<lambda>p. p_state p = UNUSED) (procs s))) (\<lambda>r.
     case r of
       None \<Rightarrow> andthen [release LPtable] (ret None)
     | Some p \<Rightarrow> andthen
         [upd_proc p (\<lambda>x. x\<lparr>p_state := EMBRYO\<rparr>),
          withS (\<lambda>s. upd_proc p (\<lambda>x. x\<lparr>p_pid := nextpid s\<rparr>)),
          modify (\<lambda>s. s\<lparr>nextpid := nextpid s + 1\<rparr>),
          upd_proc p (\<lambda>x. x\<lparr>p_priority := 3\<rparr>),
          release LPtable]
         (bnd kalloc (\<lambda>k. bnd (upd_proc p (\<lambda>x. x\<lparr>p_kstack := k\<rparr>)) (\<lambda>_.
            if k = 0 then andthen [upd_proc p (\<lambda>x. x\<lparr>p_state := UNUSED\<rparr>)] (ret None)
            else (let tf = k + KSTACKSIZE - TF_SIZE; sp = tf - 4; ctx = sp - CTX_SIZE in andthen
              [upd_proc p (\<lambda>x. x\<lparr>p_tf := tf\<rparr>),
               withS (\<lambda>s. upd_mem (\<lambda>m. wr32 m sp (sym_trapret s))),
               upd_proc p (\<lambda>x. x\<lparr>p_context := ctx\<rparr>),
               upd_mem (\<lambda>m. memset m ctx 0 CTX_SIZE),
               withS (\<lambda>s. upd_mem (\<lambda>m. wr32 m (ctx + CTX_EIP) (sym_forkret s)))]
              (ret (Some p))))))))"

section \<open>Giving up the processor\<close>

definition sched :: "('z ptable_st_scheme, unit) cmd" where
  "sched = run
     [panic_if (\<lambda>s. \<not> holding LPtable s) ''sched ptable.lock'',
      panic_if (\<lambda>s. c_ncli (the_cpu s) \<noteq> 1) ''sched locks'',
      with_proc (\<lambda>p. panic_if (\<lambda>s. p_state (procs s ! p) = RUNNING) ''sched running''),
      panic_if (\<lambda>s. c_if (the_cpu s)) ''sched interruptible'',
      stop_with Switch]"

text \<open>After \<open>swtch\<close> returns: the value of \<open>intena\<close> saved on the stack of the process.\<close>

definition sched_return :: "nat \<Rightarrow> ('z mach_scheme, unit) cmd" where
  "sched_return intena = upd_cpu (\<lambda>c. c\<lparr>c_intena := intena\<rparr>)"

definition print_unable :: "int \<Rightarrow> ('z mach_scheme, unit) cmd" where
  "print_unable pid = cprintf ''Unable to create process with pid=%d\<newline>'' [PInt pid]"

definition yield :: "('z ptable_st_scheme, unit) cmd" where
  "yield = run
     [acquire LPtable,
      with_proc (\<lambda>p. upd_proc p (\<lambda>x. x\<lparr>p_state := RUNNABLE\<rparr>)),
      unlessM cfg_custom
        (bnd myproc (\<lambda>p1. bnd myproc (\<lambda>p2. case (p1, p2) of
           (Some a, Some b) \<Rightarrow> withS (\<lambda>s.
             bnd (add_process_to_queue a (p_priority (procs s ! b) - 1)) (\<lambda>res.
               if res = -1 then bnd myproc (\<lambda>p3. case p3 of
                   Some c \<Rightarrow> withS (\<lambda>s'. print_unable (p_pid (procs s' ! c)))
                 | None \<Rightarrow> undef ''myproc()->pid'')
               else skip))
         | _ \<Rightarrow> undef ''myproc()''))),
      sched,
      release LPtable]"

definition yield_return :: "nat \<Rightarrow> ('z ptable_st_scheme, unit) cmd" where
  "yield_return intena = run [sched_return intena, release LPtable]"

text \<open>
  What \<open>sleep\<close> does until it gives the processor up, as the list of its statements: between two of them other processors
  may take steps.
\<close>

definition sleep_steps :: "chan option \<Rightarrow> lockid \<Rightarrow> ('z ptable_st_scheme, unit) cmd list" where
  "sleep_steps chan lk = (if lk \<noteq> LPtable then [acquire LPtable, release lk] else []) @
     [with_proc (\<lambda>p. upd_proc p (\<lambda>x. x\<lparr>p_chan := chan\<rparr>)),
      with_proc (\<lambda>p. upd_proc p (\<lambda>x. x\<lparr>p_state := SLEEPING\<rparr>)),
      sched]"

definition sleep :: "chan option \<Rightarrow> lockid option \<Rightarrow> ('z ptable_st_scheme, unit) cmd" where
  "sleep chan lko = bnd (panic_if (\<lambda>s. c_proc (the_cpu s) = None) ''sleep'') (\<lambda>_.
     case lko of None \<Rightarrow> panic ''sleep without lk''
     | Some lk \<Rightarrow> run (sleep_steps chan lk @
       [with_proc (\<lambda>p. upd_proc p (\<lambda>x. x\<lparr>p_chan := None\<rparr>)),
        if lk \<noteq> LPtable then run [release LPtable, acquire lk] else skip]))"

definition sleep_return :: "lockid \<Rightarrow> nat \<Rightarrow> ('z ptable_st_scheme, unit) cmd" where
  "sleep_return lk intena = run
     [sched_return intena,
      with_proc (\<lambda>p. upd_proc p (\<lambda>x. x\<lparr>p_chan := None\<rparr>)),
      if lk \<noteq> LPtable then run [release LPtable, acquire lk] else skip]"

definition wakeup1_body :: "chan option \<Rightarrow> nat \<Rightarrow> ('z ptable_st_scheme, unit) cmd" where
  "wakeup1_body chan p = whenM (\<lambda>s. p_state (procs s ! p) = SLEEPING \<and> p_chan (procs s ! p) = chan)
     (run
       [upd_proc p (\<lambda>x. x\<lparr>p_state := RUNNABLE\<rparr>),
        unlessM cfg_custom (withS (\<lambda>s.
          bnd (add_process_to_queue p (p_priority (procs s ! p) - 1)) (\<lambda>res.
            if res = -1 then withS (\<lambda>s'. print_unable (p_pid (procs s' ! p))) else skip)))])"

definition wakeup1 :: "chan option \<Rightarrow> ('z ptable_st_scheme, unit) cmd" where
  "wakeup1 chan = forM [0..<NPROC] (wakeup1_body chan)"

definition wakeup :: "chan option \<Rightarrow> ('z ptable_st_scheme, unit) cmd" where
  "wakeup chan = run [acquire LPtable, wakeup1 chan, release LPtable]"

section \<open>The schedulers\<close>

text \<open>
  The search over the levels: \<open>p\<close> is the local variable of \<open>scheduler\<close>, which keeps its
  value from the previous round when every level is empty.
\<close>

primrec scan_levels :: "nat list \<Rightarrow> nat option \<Rightarrow> ('z ptable_st_scheme, nat option) cmd" where
  "scan_levels [] p = ret p"
| "scan_levels (i # is) p = withS (\<lambda>s.
     if 0 < marker s ! i then
       (case n_p (priority_q s ! i ! 0) of
          None \<Rightarrow> undef ''p->pid''
        | Some q \<Rightarrow> bnd (remove_process_from_queue q (int i)) (\<lambda>_. ret (Some q)))
     else scan_levels is p)"

text \<open>
  One round of \<open>scheduler()\<close> up to \<open>swtch\<close>: the result is the new value of \<open>p\<close> and whether
  the scheduler switches to it. \<open>scheduler_return\<close> is the rest of the round.
\<close>

definition run_process :: "nat \<Rightarrow> nat \<Rightarrow> ('z ptable_st_scheme, unit) cmd" where
  "run_process c p = run
     [modify (\<lambda>s. s\<lparr>cpus := (cpus s)[c := (cpus s ! c)\<lparr>c_proc := Some p\<rparr>]\<rparr>),
      switchuvm p,
      upd_proc p (\<lambda>x. x\<lparr>p_state := RUNNING\<rparr>)]"

definition scheduler_round :: "nat \<Rightarrow> nat option \<Rightarrow> ('z ptable_st_scheme, nat option \<times> bool) cmd" where
  "scheduler_round c p = bnd (run [sti, acquire LPtable]) (\<lambda>_.
     bnd (scan_levels [0..<PLEVELS] p) (\<lambda>p'.
     withS (\<lambda>s. case p' of
       Some q \<Rightarrow> if p_state (procs s ! q) = RUNNABLE
                 then andthen [run_process c q] (ret (p', True))
                 else andthen [release LPtable] (ret (p', False))
     | None \<Rightarrow> andthen [release LPtable] (ret (p', False)))))"

definition scheduler_return :: "nat \<Rightarrow> ('z vm_st_scheme, unit) cmd" where
  "scheduler_return c = run
     [switchkvm,
      modify (\<lambda>s. s\<lparr>cpus := (cpus s)[c := (cpus s ! c)\<lparr>c_proc := None\<rparr>]\<rparr>),
      release LPtable]"

definition scheduler_init :: "('z mach_scheme, nat) cmd" where
  "scheduler_init = bnd mycpu (\<lambda>c.
     andthen [modify (\<lambda>s. s\<lparr>cpus := (cpus s)[c := (cpus s ! c)\<lparr>c_proc := None\<rparr>]\<rparr>)] (ret c))"

text \<open>
  The scheduler compiled with \<open>-DCUSTOM_SCHEDULER\<close>: round robin over the table. The loop
  stops at the first runnable process from index \<open>i\<close> on, which is where it switches; after
  the switch it goes on with \<open>i + 1\<close>, still holding the lock.
\<close>

definition rr_from :: "nat \<Rightarrow> nat \<Rightarrow> ('z ptable_st_scheme, nat option) cmd" where
  "rr_from c i = withS (\<lambda>s.
     case first_idx_from i (\<lambda>x. p_state x = RUNNABLE) (drop i (procs s)) of
       Some q \<Rightarrow> andthen [run_process c q] (ret (Some q))
     | None \<Rightarrow> andthen [release LPtable] (ret None))"

definition rr_round :: "nat \<Rightarrow> ('z ptable_st_scheme, nat option) cmd" where
  "rr_round c = andthen [sti, acquire LPtable] (rr_from c 0)"

definition rr_resume :: "nat \<Rightarrow> nat \<Rightarrow> ('z vm_st_scheme, nat option) cmd" where
  "rr_resume c i = andthen
     [switchkvm,
      modify (\<lambda>s. s\<lparr>cpus := (cpus s)[c := (cpus s ! c)\<lparr>c_proc := None\<rparr>]\<rparr>)]
     (rr_from c (i + 1))"

section \<open>Listings\<close>

fun state_name :: "procstate \<Rightarrow> string" where
  "state_name UNUSED = ''unused''"
| "state_name EMBRYO = ''embryo''"
| "state_name SLEEPING = ''sleep ''"
| "state_name RUNNABLE = ''runble''"
| "state_name RUNNING = ''run   ''"
| "state_name ZOMBIE = ''zombie''"

definition procdump_one :: "nat \<Rightarrow> ('z ptable_st_scheme, unit) cmd" where
  "procdump_one p = withS (\<lambda>s. let x = procs s ! p in
     if p_state x = UNUSED then skip
     else run
       [cprintf ''%d %s %s'' [PInt (p_pid x), PStr (state_name (p_state x)), PStr (p_name x)],
        if p_state x = SLEEPING then
          forM (takeWhile (\<lambda>pc. pc \<noteq> 0)
                 (getcallerpcs (mem s) (rd32 (mem s) (p_context x + CTX_EBP) + 8)))
            (\<lambda>pc. cprintf '' %p'' [PPtr pc])
        else skip,
        cprintf [CHR 0x0A] []])"

definition procdump :: "('z ptable_st_scheme, unit) cmd" where
  "procdump = forM [0..<NPROC] procdump_one"

definition TAB :: char where "TAB = CHR 0x09"

definition cps_line :: "string \<Rightarrow> string" where
  "cps_line state = ''%s '' @ [TAB] @ '' %d '' @ [TAB] @ '' '' @ state @ '' '' @ [TAB] @ '' %d \<newline> ''"

definition cps_one :: "nat \<Rightarrow> ('z ptable_st_scheme, unit) cmd" where
  "cps_one p = withS (\<lambda>s. let x = procs s ! p; args = [PStr (p_name x), PInt (p_pid x), PInt (p_priority x)] in
     if p_state x = SLEEPING then cprintf (cps_line ''SLEEPING'') args
     else if p_state x = RUNNING then cprintf (cps_line ''RUNNING'') args
     else if p_state x = RUNNABLE then cprintf (cps_line ''RUNNABLE'') args
     else skip)"

definition cps :: "('z ptable_st_scheme, int) cmd" where
  "cps = andthen
     [sti, acquire LPtable, cprintf (''name '' @ [TAB] @ '' pid '' @ [TAB] @ '' state '' @ [TAB] @ '' priority \<newline>'') [],
      forM [0..<NPROC] cps_one, release LPtable]
     (ret 22)"


section \<open>The scheduling invariant\<close>

text \<open>
  \<open>pid_ok\<close>: pids are below \<open>nextpid\<close> and a non-zero pid belongs to one slot. \<open>live_ok\<close>: a slot in
  use has a pid and a priority from 1 to 5. \<open>no_lost X\<close>: every runnable process outside \<open>X\<close> is on
  some level of the run queue, so that the scheduler can find it.
\<close>

definition pid_ok :: "'z ptable_st_scheme \<Rightarrow> bool" where
  "pid_ok s \<longleftrightarrow> 0 < nextpid s \<and> (\<forall>p<NPROC. 0 \<le> pid_of s p \<and> pid_of s p < nextpid s) \<and>
     (\<forall>p<NPROC. \<forall>q<NPROC. pid_of s p = pid_of s q \<longrightarrow> pid_of s p \<noteq> 0 \<longrightarrow> p = q)"

definition prio_ok :: "'z ptable_st_scheme \<Rightarrow> nat \<Rightarrow> bool" where
  "prio_ok s p \<longleftrightarrow> pid_of s p \<noteq> 0 \<and> 1 \<le> p_priority (procs s ! p) \<and> p_priority (procs s ! p) \<le> int PLEVELS"

definition live_ok :: "'z ptable_st_scheme \<Rightarrow> bool" where
  "live_ok s \<longleftrightarrow> (\<forall>p<NPROC. p_state (procs s ! p) \<noteq> UNUSED \<longrightarrow> prio_ok s p)"

definition queued :: "'z ptable_st_scheme \<Rightarrow> nat \<Rightarrow> bool" where
  "queued s p \<longleftrightarrow> (\<exists>l<PLEVELS. p \<in> set (queue s l))"

definition no_lost :: "nat set \<Rightarrow> 'z ptable_st_scheme \<Rightarrow> bool" where
  "no_lost X s \<longleftrightarrow> (\<forall>p<NPROC. p \<notin> X \<longrightarrow> p_state (procs s ! p) = RUNNABLE \<longrightarrow> queued s p)"

definition sched_inv_except :: "nat set \<Rightarrow> 'z ptable_st_scheme \<Rightarrow> bool" where
  "sched_inv_except X s \<longleftrightarrow> q_ok s \<and> \<not> cfg_custom s \<and> pid_ok s \<and> live_ok s \<and> no_lost X s"

abbreviation sched_inv :: "'z ptable_st_scheme \<Rightarrow> bool" where
  "sched_inv \<equiv> sched_inv_except {}"

lemmas sched_inv_defs = sched_inv_except_def q_ok_def row_ok_def queue_def pid_ok_def live_ok_def
  prio_ok_def no_lost_def queued_def pid_of_def

lemma sched_inv_frame [simp]:
  "sched_inv_except X (s\<lparr>cpus := c\<rparr>) = sched_inv_except X s"
  "sched_inv_except X (s\<lparr>locks := lk\<rparr>) = sched_inv_except X s"
  "sched_inv_except X (s\<lparr>mem := m\<rparr>) = sched_inv_except X s"
  "sched_inv_except X (s\<lparr>cons_out := out\<rparr>) = sched_inv_except X s"
  "sched_inv_except X (s\<lparr>cur := i\<rparr>) = sched_inv_except X s"
  "sched_inv_except X (s\<lparr>km_freelist := f\<rparr>) = sched_inv_except X s"
  "sched_inv_except X (s\<lparr>initproc := ip\<rparr>) = sched_inv_except X s"
  by (simp_all add: sched_inv_defs)

lemma sched_inv_indep: "lock_indep (sched_inv_except X)"
  by (rule lock_indepI) simp_all

lemmas keeps_sched_spin [keeps_intros] = keeps_spin_ops [OF sched_inv_indep]

lemma keeps_sched_cpu_lock [keeps_intros]:
  "keeps (sched_inv_except X) (upd_cpu f)" "keeps (sched_inv_except X) (upd_lock lk g)"
  "keeps (sched_inv_except X) (cprintf fmt args)" "keeps (sched_inv_except X) (upd_mem h)"
  by (simp_all add: keeps_def wp_rules)

lemma keeps_print_unable [keeps_intros]: "keeps (sched_inv_except X) (print_unable pid)"
  by (simp add: print_unable_def keeps_intros)

lemma keeps_with_proc [keeps_intros]: "(\<And>p. keeps I (f p)) \<Longrightarrow> keeps I (with_proc f)"
  by (auto simp: with_proc_def keeps_def wp_rules split: option.splits)

text \<open>Changes of a process that concern neither its state, its pid nor its priority.\<close>

lemma sched_inv_upd_proc:
  assumes "sched_inv_except X s" "\<And>x. p_state (f x) = p_state x" "\<And>x. p_pid (f x) = p_pid x"
    "\<And>x. p_priority (f x) = p_priority x"
  shows "sched_inv_except X (s\<lparr>procs := (procs s)[p := f (procs s ! p)]\<rparr>)"
proof -
  have eq: "p_state ((procs s)[p := f (procs s ! p)] ! q) = p_state (procs s ! q)"
    "p_pid ((procs s)[p := f (procs s ! p)] ! q) = p_pid (procs s ! q)"
    "p_priority ((procs s)[p := f (procs s ! p)] ! q) = p_priority (procs s ! q)" for q
    using assms(2-4) by (cases "q = p \<and> p < length (procs s)"; auto simp: nth_list_update')+
  show ?thesis using assms(1) by (simp add: sched_inv_defs eq)
qed

lemma keeps_upd_proc_frame:
  assumes "\<And>x. p_state (f x) = p_state x" "\<And>x. p_pid (f x) = p_pid x"
    "\<And>x. p_priority (f x) = p_priority x"
  shows "keeps (sched_inv_except X) (upd_proc p f)"
  by (simp add: keeps_def wp_rules sched_inv_upd_proc assms)

text \<open>Setting the state of one live process.\<close>

lemma pid_of_upd:
  "(\<And>x. p_pid (f x) = p_pid x) \<Longrightarrow>
   pid_of (s\<lparr>procs := (procs s)[p := f (procs s ! p)]\<rparr>) = pid_of s"
  by (auto simp: pid_of_def fun_eq_iff nth_list_update')

lemma sched_inv_set_state:
  assumes "sched_inv_except X s" "p < NPROC" "p_state (procs s ! p) \<noteq> UNUSED \<or> st = UNUSED"
    "st \<noteq> RUNNABLE \<or> p \<in> Y" "X \<subseteq> insert p Y"
  shows "sched_inv_except Y (s\<lparr>procs := (procs s)[p := (procs s ! p)\<lparr>p_state := st\<rparr>]\<rparr>)"
proof -
  let ?t = "s\<lparr>procs := (procs s)[p := (procs s ! p)\<lparr>p_state := st\<rparr>]\<rparr>"
  have len: "length (procs s) = NPROC" using assms(1) by (simp add: sched_inv_except_def q_ok_def)
  have pid: "pid_of ?t = pid_of s" by (rule pid_of_upd) simp
  have q: "queue ?t = queue s" by (simp add: queue_frame)
  have st: "p_state (procs ?t ! r) = (if r = p then st else p_state (procs s ! r))" for r
    using assms(2) len by (simp add: nth_list_update')
  have pr: "p_priority (procs ?t ! r) = p_priority (procs s ! r)" for r
    by (simp add: nth_list_update')
  have "q_ok ?t" using assms(1) q by (simp add: sched_inv_except_def q_ok_def row_ok_def)
  moreover have "pid_ok ?t" using assms(1) pid by (simp add: sched_inv_except_def pid_ok_def)
  moreover have "live_ok ?t" using assms(1,2,3) pid st pr
    by (auto simp: sched_inv_except_def live_ok_def prio_ok_def)
  moreover have "no_lost Y ?t" using assms(1,4,5) q st
    by (auto simp: sched_inv_except_def no_lost_def queued_def split: if_splits)
  ultimately show ?thesis using assms(1) by (simp add: sched_inv_except_def)
qed

text \<open>
  Enqueuing a live process on the level of its priority repairs the invariant for it; apart
  from the run queue the state is unchanged.
\<close>

lemma queued_enq:
  assumes "q_ok s" "l < PLEVELS" "marker s ! l < int NPROC"
  shows "queued s q \<Longrightarrow> queued (enq_st s p l) q" "queued (enq_st s p l) p"
proof -
  assume "queued s q"
  then obtain k where k: "k < PLEVELS" "q \<in> set (queue s k)" by (auto simp: queued_def)
  then have "q \<in> set (queue (enq_st s p l) k)" using enq_queue [OF assms] by (cases "k = l") auto
  with k(1) show "queued (enq_st s p l) q" by (auto simp: queued_def)
next
  have "p \<in> set (queue (enq_st s p l) l)" using enq_queue(1) [OF assms] by simp
  with assms(2) show "queued (enq_st s p l) p" by (auto simp: queued_def)
qed

lemma enq_st_frame [simp]:
  "procs (enq_st s p l) = procs s" "nextpid (enq_st s p l) = nextpid s"
  "cfg_custom (enq_st s p l) = cfg_custom s"
  by (simp_all add: enq_st_def)

definition enqueued :: "(nat \<Rightarrow> nat list) \<Rightarrow> nat \<Rightarrow> nat \<Rightarrow> nat \<Rightarrow> nat list" where
  "enqueued q p l = (if p \<in> set (q l) then q else q(l := q l @ [p]))"

lemma add_live:
  assumes inv: "sched_inv_except X s" and X: "X \<subseteq> {p}" and p: "p < NPROC" "prio_ok s p"
  shows "\<exists>r t. add_process_to_queue p (p_priority (procs s ! p) - 1) s = Ok r t \<and> sched_inv t \<and>
    queued t p \<and> (t = s \<or> t = enq_st s p (nat (p_priority (procs s ! p) - 1))) \<and>
    queue t = enqueued (queue s) p (nat (p_priority (procs s ! p) - 1))"
proof -
  define l where "l = nat (p_priority (procs s ! p) - 1)"
  then have l: "p_priority (procs s ! p) - 1 = int l" "l < PLEVELS"
    using p(2) by (auto simp: prio_ok_def PLEVELS_def)
  have qok: "q_ok s" using inv by (simp add: sched_inv_except_def)
  show ?thesis
  proof (cases "\<exists>r\<in>set (queue s l). pid_of s r = pid_of s p")
    case True
    then obtain r where r: "r \<in> set (queue s l)" "pid_of s r = pid_of s p" by blast
    then have "r < NPROC" using qok l(2) by (auto simp: q_ok_def row_ok_def)
    then have "r = p" using r p inv by (simp add: sched_inv_except_def pid_ok_def prio_ok_def)
    then have "queued s p" using r l(2) by (auto simp: queued_def)
    moreover then have "sched_inv s" using inv X by (auto simp: sched_inv_except_def no_lost_def)
    moreover have "p \<in> set (queue s l)" using r \<open>r = p\<close> by simp
    ultimately show ?thesis using add_process_present [OF qok l(2) True] l(1)
      by (auto simp: enqueued_def)
  next
    case False
    then have f: "\<forall>r\<in>set (queue s l). pid_of s r \<noteq> pid_of s p" "p \<notin> set (queue s l)" by auto
    note m = q_ok_enq [OF qok l(2) p(1) f(2)]
    note qd = queued_enq [OF qok l(2) m(1), where p = p]
    have "queued (enq_st s p l) r" if "r < NPROC" "p_state (procs s ! r) = RUNNABLE" for r
      using that inv X qd by (cases "r = p") (auto simp: sched_inv_except_def no_lost_def)
    then have "no_lost {} (enq_st s p l)" by (simp add: no_lost_def)
    then have "sched_inv (enq_st s p l)"
      using inv m(2) by (simp add: sched_inv_except_def pid_ok_def live_ok_def prio_ok_def)
    moreover have "queue (enq_st s p l) = enqueued (queue s) p l"
      using f(2) enq_queue [OF qok l(2) m(1)] by (auto simp: enqueued_def fun_eq_iff)
    ultimately show ?thesis using qd(2) add_process_fresh [OF qok l(2) p(1) f(1)] l(1) by auto
  qed
qed


section \<open>Operations keep the invariant\<close>

lemma keeps_kalloc:
  assumes "lock_indep I" "\<And>s f. I (s\<lparr>km_freelist := f\<rparr>) = I s"
  shows "keeps I kalloc"
  unfolding kalloc_def
  by (intro keeps_intros keeps_spin_ops [OF assms(1)] keeps_modify) (simp_all add: assms(2))

lemma keeps_kfree:
  assumes "lock_indep I" "\<And>s f. I (s\<lparr>km_freelist := f\<rparr>) = I s" "\<And>s m. I (s\<lparr>mem := m\<rparr>) = I s"
  shows "keeps I (kfree v)"
  unfolding kfree_def
  by (intro keeps_intros keeps_spin_ops [OF assms(1)] keeps_modify) (simp_all add: assms(2,3))

lemmas keeps_sched_kalloc [keeps_intros] =
  keeps_kalloc [OF sched_inv_indep sched_inv_frame(6)]
  keeps_kfree [OF sched_inv_indep sched_inv_frame(6) sched_inv_frame(3)]

lemma keeps_wakeup1_body:
  assumes "p < NPROC"
  shows "keeps sched_inv (wakeup1_body chan p)"
proof (rule keepsI)
  fix s :: "'a ptable_st_scheme"
  assume inv: "sched_inv s"
  show "wp (wakeup1_body chan p) (\<lambda>_. sched_inv) (\<lambda>_. sched_inv) s"
  proof (cases "p_state (procs s ! p) = SLEEPING \<and> p_chan (procs s ! p) = chan")
    case False
    with inv show ?thesis by (auto simp: wakeup1_body_def wp_rules)
  next
    case True
    let ?t = "s\<lparr>procs := (procs s)[p := (procs s ! p)\<lparr>p_state := RUNNABLE\<rparr>]\<rparr>"
    have t: "sched_inv_except {p} ?t"
      using inv assms True by (intro sched_inv_set_state) auto
    then have "prio_ok ?t p"
      using assms inv by (simp add: sched_inv_except_def live_ok_def q_ok_def)
    then obtain r u where "add_process_to_queue p (p_priority (procs ?t ! p) - 1) ?t = Ok r u" "sched_inv u"
      using add_live [OF t _ assms] by blast
    moreover have "\<not> cfg_custom s" using inv by (simp add: sched_inv_except_def)
    ultimately show ?thesis using True
      by (simp add: wakeup1_body_def wp_rules wp_Ok print_unable_def)
  qed
qed

lemma keeps_wakeup1 [keeps_intros]: "keeps sched_inv (wakeup1 chan)"
  unfolding wakeup1_def by (intro keeps_forM keeps_wakeup1_body) simp

lemma keeps_wakeup [keeps_intros]: "keeps sched_inv (wakeup chan)"
  unfolding wakeup_def by (intro keeps_intros)

text \<open>The slot taken by \<open>allocproc\<close>: a fresh pid and the default priority.\<close>

lemma sched_inv_embryo:
  assumes inv: "sched_inv s" and p: "p < NPROC" "p_state (procs s ! p) = UNUSED"
  shows "sched_inv (s\<lparr>nextpid := nextpid s + 1, procs := (procs s)[p := (procs s ! p)\<lparr>p_state := EMBRYO,
     p_pid := nextpid s, p_priority := 3\<rparr>]\<rparr>)" (is "sched_inv ?t")
proof -
  have len: "length (procs s) = NPROC" and qok: "q_ok s" and pid: "pid_ok s"
    and live: "live_ok s" and nl: "no_lost {} s" and cfg: "\<not> cfg_custom s"
    using inv by (auto simp: sched_inv_except_def q_ok_def)
  have q: "queue ?t = queue s" by (simp add: queue_def fun_eq_iff)
  have pd: "pid_of ?t r = (if r = p then nextpid s else pid_of s r)" for r
    using p len by (simp add: pid_of_def nth_list_update')
  have "q_ok ?t" using qok q by (simp add: q_ok_def row_ok_def)
  moreover have "pid_ok ?t" using pid pd by (fastforce simp: pid_ok_def)
  moreover have "live_ok ?t" using live pid p len
    by (auto simp: live_ok_def prio_ok_def pd pid_ok_def nth_list_update' PLEVELS_def)
  moreover have "no_lost {} ?t" using nl q p len
    by (auto simp: no_lost_def queued_def nth_list_update')
  ultimately show ?thesis using cfg by (simp add: sched_inv_except_def)
qed

lemma keeps_upd_unused:
  assumes "p < NPROC"
  shows "keeps sched_inv (upd_proc p (\<lambda>x. x\<lparr>p_state := UNUSED\<rparr>))"
  by (rule keepsI) (simp add: wp_rules sched_inv_set_state assms)

lemma keeps_allocproc_stack:
  assumes "p < NPROC"
  shows "keeps sched_inv (bnd kalloc (\<lambda>k. bnd (upd_proc p (\<lambda>x. x\<lparr>p_kstack := k\<rparr>)) (\<lambda>_.
            if k = 0 then andthen [upd_proc p (\<lambda>x. x\<lparr>p_state := UNUSED\<rparr>)] (ret None)
            else (let tf = k + KSTACKSIZE - TF_SIZE; sp = tf - 4; ctx = sp - CTX_SIZE in andthen
              [upd_proc p (\<lambda>x. x\<lparr>p_tf := tf\<rparr>),
               withS (\<lambda>s. upd_mem (\<lambda>m. wr32 m sp (sym_trapret s))),
               upd_proc p (\<lambda>x. x\<lparr>p_context := ctx\<rparr>),
               upd_mem (\<lambda>m. memset m ctx 0 CTX_SIZE),
               withS (\<lambda>s. upd_mem (\<lambda>m. wr32 m (ctx + CTX_EIP) (sym_forkret s)))]
              (ret (Some p))))))"
  unfolding Let_def
  by (intro keeps_intros keeps_upd_proc_frame keeps_upd_unused assms) simp_all

lemma keeps_allocproc [keeps_intros]: "keeps sched_inv (allocproc :: ('z sched_st_scheme, nat option) cmd)"
proof -
  have "wp (bnd (gets (\<lambda>s. first_idx (\<lambda>p. p_state p = UNUSED) (procs s))) (\<lambda>r.
     case r of
       None \<Rightarrow> andthen [release LPtable] (ret None)
     | Some p \<Rightarrow> andthen
         [upd_proc p (\<lambda>x. x\<lparr>p_state := EMBRYO\<rparr>),
          withS (\<lambda>s. upd_proc p (\<lambda>x. x\<lparr>p_pid := nextpid s\<rparr>)),
          modify (\<lambda>s. s\<lparr>nextpid := nextpid s + 1\<rparr>),
          upd_proc p (\<lambda>x. x\<lparr>p_priority := 3\<rparr>),
          release LPtable] (m p))) (\<lambda>_. sched_inv) (\<lambda>_. sched_inv) s"
    if inv: "sched_inv s" and m: "\<And>p. p < NPROC \<Longrightarrow> keeps sched_inv (m p)"
    for s :: "'z sched_st_scheme" and m :: "nat \<Rightarrow> ('z sched_st_scheme, nat option) cmd"
  proof (cases "first_idx (\<lambda>p. p_state p = UNUSED) (procs s)")
    case None
    have "wp (andthen [release LPtable] (ret None)) (\<lambda>_. sched_inv) (\<lambda>_. sched_inv) s"
      by (rule keepsD) (intro keeps_intros, rule inv)
    then show ?thesis using None by (simp add: wp_rules)
  next
    case (Some p)
    then have p: "p < NPROC" "p_state (procs s ! p) = UNUSED"
      using first_idx_Some [OF Some] inv by (auto simp: sched_inv_except_def q_ok_def)
    then have len: "p < length (procs s)" using inv by (simp add: sched_inv_except_def q_ok_def)
    have "wp (andthen [release LPtable] (m p)) (\<lambda>_. sched_inv) (\<lambda>_. sched_inv)
        (s\<lparr>nextpid := nextpid s + 1, procs := (procs s)[p := (procs s ! p)\<lparr>p_state := EMBRYO,
          p_pid := nextpid s, p_priority := 3\<rparr>]\<rparr>)"
      by (rule keepsD) (intro keeps_intros m p, rule sched_inv_embryo [OF inv p])
    then show ?thesis using Some len by (simp add: wp_rules)
  qed
  then show ?thesis unfolding allocproc_def
    by (intro keeps_bnd keeps_sched_spin keepsI) (simp add: keeps_allocproc_stack)
qed

text \<open>
  A process on the executing processor. Local APIC ids are distinct, so that \<open>myproc\<close>, which
  looks the processor up by its id, finds it.
\<close>

definition on_cpu :: "'z ptable_st_scheme \<Rightarrow> nat \<Rightarrow> bool" where
  "on_cpu s p \<longleftrightarrow> cur s < length (cpus s) \<and> distinct (map c_apicid (cpus s)) \<and>
     c_proc (the_cpu s) = Some p \<and> p < NPROC \<and> p_state (procs s ! p) = RUNNING"

lemma first_idx_distinct:
  assumes "distinct (map f xs)" "i < length xs"
  shows "first_idx (\<lambda>x. f x = f (xs ! i)) xs = Some i"
proof (cases "first_idx (\<lambda>x. f x = f (xs ! i)) xs")
  case None
  then show ?thesis using nth_mem [OF assms(2)] by (auto simp: first_idx_from_None)
next
  case (Some j)
  from first_idx_Some [OF this] have "j < length xs" "f (xs ! j) = f (xs ! i)" by auto
  then have "j = i" using assms by (simp add: distinct_conv_nth) (metis nth_map)
  with Some show ?thesis by simp
qed

lemma cpu_if_id: "\<not> c_if c \<Longrightarrow> c\<lparr>c_if := False\<rparr> = c"
  by (cases c) simp

lemma myproc_held:
  assumes "cur s < length (cpus s)" "distinct (map c_apicid (cpus s))" "\<not> c_if (the_cpu s)"
    "0 < c_ncli (the_cpu s)"
  shows "myproc s = Ok (c_proc (the_cpu s)) s"
proof -
  let ?c = "(cpus s ! cur s)\<lparr>c_if := False, c_ncli := c_ncli (cpus s ! cur s) + 1\<rparr>"
  have "map c_apicid ((cpus s)[cur s := ?c]) = map c_apicid (cpus s)"
    using assms(1) by (auto simp: list_eq_iff_nth_eq nth_list_update')
  then have "first_idx (\<lambda>c. c_apicid c = c_apicid (((cpus s)[cur s := ?c]) ! cur s)) ((cpus s)[cur s := ?c])
      = Some (cur s)"
    using assms(1,2) by (intro first_idx_distinct) simp_all
  then show ?thesis using assms
    by (simp add: myproc_def mycpu_def pushcli_def popcli_def cli_def exec_simps the_cpu_def upd_cpu_def
      cpu_if_id)
qed


text \<open>The state of \<open>yield\<close> after the lock is taken and the process made runnable.\<close>

lemma queue_cons_out [simp]: "queue (s\<lparr>cons_out := out\<rparr>) = queue s"
  by (simp add: queue_def fun_eq_iff)

lemma acquired_frame [simp]:
  "procs (acquired lk s) = procs s" "cfg_custom (acquired lk s) = cfg_custom s"
  "cur (acquired lk s) = cur s" "queue (acquired lk s) = queue s" "mem (acquired lk s) = mem s"
  "sched_inv_except X (acquired lk s) = sched_inv_except X s"
  by (simp_all add: acquired_def queue_def fun_eq_iff)

lemma acquired_cpu:
  assumes "cur s < length (cpus s)"
  shows "c_proc (the_cpu (acquired lk s)) = c_proc (the_cpu s)" "\<not> c_if (the_cpu (acquired lk s))"
    "c_ncli (the_cpu (acquired lk s)) = c_ncli (the_cpu s) + 1" "holding lk (acquired lk s)"
    "length (cpus (acquired lk s)) = length (cpus s)"
    "map c_apicid (cpus (acquired lk s)) = map c_apicid (cpus s)"
  using assms by (auto simp: acquired_def the_cpu_def holding_def list_eq_iff_nth_eq nth_list_update')

lemma sched_switch:
  assumes "holding LPtable s" "c_ncli (the_cpu s) = 1" "c_proc (the_cpu s) = Some p"
    "p_state (procs s ! p) \<noteq> RUNNING" "\<not> c_if (the_cpu s)"
  shows "sched s = Stop Switch s"
  using assms by (simp add: sched_def with_proc_def exec_simps)

lemma the_cpu_procs [simp]: "the_cpu (s\<lparr>procs := x\<rparr>) = the_cpu s" "holding lk (s\<lparr>procs := x\<rparr>) = holding lk s"
  by (simp_all add: the_cpu_def holding_def)

lemma enq_st_cpu [simp]: "the_cpu (enq_st s p l) = the_cpu s" "holding lk (enq_st s p l) = holding lk s"
  "cpus (enq_st s p l) = cpus s" "cur (enq_st s p l) = cur s"
  by (simp_all add: enq_st_def the_cpu_def holding_def)

lemma yield_run:
  assumes inv: "sched_inv s" and rdy: "lock_ready LPtable s" and ncli: "c_ncli (the_cpu s) = 0"
    and on: "on_cpu s p"
  shows "\<exists>t. yield s = Stop Switch t \<and> sched_inv t \<and> queued t p \<and> holding LPtable t \<and>
    procs t = (procs s)[p := (procs s ! p)\<lparr>p_state := RUNNABLE\<rparr>] \<and> cpus t = cpus (acquired LPtable s) \<and>
    queue t = enqueued (queue s) p (nat (p_priority (procs s ! p) - 1))"
proof -
  let ?b = "(acquired LPtable s)\<lparr>procs := (procs s)[p := (procs s ! p)\<lparr>p_state := RUNNABLE\<rparr>]\<rparr>"
  have cur: "cur s < length (cpus s)" and p: "p < NPROC" and len: "length (procs s) = NPROC"
    using on inv by (auto simp: on_cpu_def sched_inv_except_def q_ok_def)
  note cpu = acquired_cpu [OF cur, of LPtable]
  have b: "sched_inv_except {p} ?b" using sched_inv_set_state [of "{}" "acquired LPtable s" p RUNNABLE "{p}"]
    inv p on by (auto simp: on_cpu_def)
  then have pr: "prio_ok ?b p" using p len by (simp add: sched_inv_except_def live_ok_def)
  obtain r t where add: "add_process_to_queue p (p_priority (procs ?b ! p) - 1) ?b = Ok r t"
    and t: "sched_inv t" "queued t p"
      "t = ?b \<or> t = enq_st ?b p (nat (p_priority (procs ?b ! p) - 1))"
      "queue t = enqueued (queue ?b) p (nat (p_priority (procs ?b ! p) - 1))"
    using add_live [OF b _ p pr] by blast
  have my: "myproc u = Ok (Some p) u" if "cpus u = cpus (acquired LPtable s)" "cur u = cur s"
    for u :: "'a ptable_st_scheme"
    using myproc_held [of u] cpu cur on ncli that by (simp add: on_cpu_def the_cpu_def)
  have u: "cpus t = cpus (acquired LPtable s)" "cur t = cur s" "holding LPtable t"
      "procs t = (procs s)[p := (procs s ! p)\<lparr>p_state := RUNNABLE\<rparr>]"
    using t(3) cpu by (auto simp: enq_st_def holding_def)
  then have sw: "sched (t\<lparr>cons_out := out\<rparr>) = Stop Switch (t\<lparr>cons_out := out\<rparr>)" for out
    using cpu ncli on cur len p
    by (intro sched_switch) (auto simp: the_cpu_def on_cpu_def holding_def)
  have "cfg_custom s = False" "c_proc (the_cpu (acquired LPtable s)) = Some p"
    using inv cpu on by (auto simp: sched_inv_except_def on_cpu_def)
  then have "yield s = Stop Switch (t\<lparr>cons_out := if r = -1
      then cons_out t @ [(''Unable to create process with pid=%d\<newline>'', [PInt (p_pid (procs t ! p))])] else cons_out t\<rparr>)"
    using len p u(1,2) add sw sw [of "cons_out t"]
    by (simp add: yield_def acquire_ready [OF rdy] with_proc_def exec_simps upd_proc_def my print_unable_def
      cprintf_def)
  then show ?thesis using t u len p by (simp add: queue_frame holding_def queued_def)
qed


definition woken :: "chan option \<Rightarrow> proc \<Rightarrow> proc" where
  "woken ch x = (if p_state x = SLEEPING \<and> p_chan x = ch then x\<lparr>p_state := RUNNABLE\<rparr> else x)"

lemma wakeup1_body_run:
  assumes inv: "sched_inv s" and p: "p < NPROC"
  shows "\<exists>t. wakeup1_body ch p s = Ok () t \<and> sched_inv t \<and>
    procs t = (procs s)[p := woken ch (procs s ! p)] \<and> cpus t = cpus s \<and> locks t = locks s \<and> cur t = cur s"
proof (cases "p_state (procs s ! p) = SLEEPING \<and> p_chan (procs s ! p) = ch")
  case False
  with inv show ?thesis by (auto simp: wakeup1_body_def exec_simps woken_def)
next
  case True
  let ?b = "s\<lparr>procs := (procs s)[p := (procs s ! p)\<lparr>p_state := RUNNABLE\<rparr>]\<rparr>"
  have b: "sched_inv_except {p} ?b" using inv p True by (intro sched_inv_set_state) auto
  have len: "length (procs s) = NPROC" "\<not> cfg_custom s" using inv by (auto simp: sched_inv_except_def q_ok_def)
  have "prio_ok ?b p" using b p len by (simp add: sched_inv_except_def live_ok_def)
  then obtain r t where add: "add_process_to_queue p (p_priority (procs ?b ! p) - 1) ?b = Ok r t"
    and t: "sched_inv t" "t = ?b \<or> t = enq_st ?b p (nat (p_priority (procs ?b ! p) - 1))"
    using add_live [OF b _ p] by blast
  have "wakeup1_body ch p s = Ok () (if r = -1 then t\<lparr>cons_out := cons_out t @
      [(''Unable to create process with pid=%d\<newline>'', [PInt (p_pid (procs t ! p))])]\<rparr> else t)"
    using True len p add
    by (simp add: wakeup1_body_def exec_simps upd_proc_def print_unable_def cprintf_def)
  moreover have "procs t = (procs s)[p := woken ch (procs s ! p)]" "cpus t = cpus s" "locks t = locks s"
      "cur t = cur s"
    using t(2) True by (auto simp: woken_def enq_st_def)
  ultimately show ?thesis using t(1) by simp
qed

lemma wakeup1_run:
  assumes inv: "sched_inv s"
  shows "\<exists>t. wakeup1 ch s = Ok () t \<and> sched_inv t \<and> procs t = map (woken ch) (procs s) \<and>
    cpus t = cpus s \<and> locks t = locks s \<and> cur t = cur s"
proof -
  have len: "length (procs s) = NPROC" using inv by (simp add: sched_inv_except_def q_ok_def)
  have "\<exists>t. forM [0..<NPROC] (wakeup1_body ch) s = Ok () t \<and> sched_inv t \<and>
      procs t = map (woken ch) (take NPROC (procs s)) @ drop NPROC (procs s) \<and>
      cpus t = cpus s \<and> locks t = locks s \<and> cur t = cur s"
  proof (rule forM_upt_Ok)
    fix i u
    assume i: "i < NPROC" and u: "sched_inv u \<and> procs u = map (woken ch) (take i (procs s)) @ drop i (procs s) \<and>
      cpus u = cpus s \<and> locks u = locks s \<and> cur u = cur s"
    have "procs u ! i = procs s ! i" using u i len by (simp add: nth_append)
    moreover have "(map (woken ch) (take i (procs s)) @ drop i (procs s))[i := x] =
        map (woken ch) (take i (procs s)) @ x # drop (Suc i) (procs s)" for x
      using i len by (simp add: list_update_append flip: Cons_nth_drop_Suc)
    ultimately show "\<exists>t. wakeup1_body ch i u = Ok () t \<and> sched_inv t \<and>
      procs t = map (woken ch) (take (Suc i) (procs s)) @ drop (Suc i) (procs s) \<and>
      cpus t = cpus s \<and> locks t = locks s \<and> cur t = cur s"
      using wakeup1_body_run [of u i ch] u i len by (auto simp: take_Suc_conv_app_nth)
  qed (use inv in simp)
  then show ?thesis using len by (simp add: wakeup1_def)
qed


section \<open>What the scheduler picks\<close>

text \<open>The first level, in the order the scheduler looks at them, that has a process.\<close>

definition top_level :: "'z ptable_st_scheme \<Rightarrow> nat option" where
  "top_level s = find (\<lambda>l. queue s l \<noteq> []) [0..<PLEVELS]"

lemma scan_levels_run:
  assumes "q_ok s" "set ls \<subseteq> {..<PLEVELS}"
  shows "scan_levels ls p s = (case find (\<lambda>l. queue s l \<noteq> []) ls of
     None \<Rightarrow> Ok p s | Some l \<Rightarrow> Ok (Some (hd (queue s l))) (deq_st s 0 l))"
  using assms(2)
proof (induction ls)
  case Nil
  then show ?case by (simp add: exec_simps)
next
  case (Cons l ls)
  then have l: "l < PLEVELS" and row: "row_ok s l" using assms(1) by (auto simp: q_ok_def)
  show ?case
  proof (cases "queue s l = []")
    case True
    then have "marker s ! l = 0" using length_queue [OF row] row by (simp add: row_ok_def)
    then show ?thesis using Cons True by (simp add: exec_simps)
  next
    case False
    then obtain q qs where q: "queue s l = q # qs" by (cases "queue s l") auto
    then have m: "0 < marker s ! l" using length_queue [OF row] by simp
    have "n_p (priority_q s ! l ! 0) = Some q"
      using q row m by (cases "priority_q s ! l"; cases "nat (marker s ! l)")
        (auto simp: queue_def row_ok_def)
    then show ?thesis using m q remove_process_run [OF assms(1) l, of q]
      by (simp add: exec_simps)
  qed
qed

lemma deq_st_frame [simp]:
  "procs (deq_st s i l) = procs s" "nextpid (deq_st s i l) = nextpid s" "cpus (deq_st s i l) = cpus s"
  "cfg_custom (deq_st s i l) = cfg_custom s" "cur (deq_st s i l) = cur s" "locks (deq_st s i l) = locks s"
  by (simp_all add: deq_st_def)

lemma deq_st_cpu [simp]: "the_cpu (deq_st s i l) = the_cpu s" "holding lk (deq_st s i l) = holding lk s"
  by (simp_all add: the_cpu_def holding_def)

lemma sched_inv_deq_head:
  assumes inv: "sched_inv s" and l: "l < PLEVELS" "queue s l = q # qs"
  shows "sched_inv_except {q} (deq_st s 0 l)" "queue (deq_st s 0 l) = (queue s)(l := qs)"
proof -
  have qok: "q_ok s" and nl: "no_lost {} s" using inv by (auto simp: sched_inv_except_def)
  note dq = deq_queue [OF qok l(1), of 0]
  show q: "queue (deq_st s 0 l) = (queue s)(l := qs)"
    using dq l(2) by (auto simp: fun_eq_iff delete_at_def)
  have "queued (deq_st s 0 l) r" if "queued s r" "r \<noteq> q" for r
    using that l(2) by (auto simp: queued_def q)
  then have "no_lost {q} (deq_st s 0 l)" using nl by (auto simp: no_lost_def)
  then show "sched_inv_except {q} (deq_st s 0 l)"
    using inv q_ok_deq [OF qok l(1), of 0] l(2)
    by (simp add: sched_inv_except_def pid_ok_def live_ok_def prio_ok_def)
qed

lemma sched_inv_no_runnable:
  assumes "sched_inv s" "top_level s = None" "p < NPROC"
  shows "p_state (procs s ! p) \<noteq> RUNNABLE"
  using assms by (auto simp: sched_inv_except_def no_lost_def queued_def top_level_def find_None_iff)

lemma switchuvm_run:
  assumes "cur s < length (cpus s)" "c_proc (the_cpu s) = Some q" "p_pgdir (procs s ! p) \<noteq> 0"
    "\<not> c_if (the_cpu s)" "0 < c_ncli (the_cpu s)"
  shows "\<exists>c. switchuvm p s = Ok () (s\<lparr>cpus := (cpus s)[cur s := c]\<rparr>) \<and> c_proc c = Some q \<and>
    c_ncli c = c_ncli (the_cpu s) \<and> \<not> c_if c \<and> c_apicid c = c_apicid (the_cpu s) \<and>
    c_cr3 c = V2P (p_pgdir (procs s ! p)) \<and> c_ts_esp0 c = u32 (p_kstack (procs s ! q) + KSTACKSIZE)"
  using assms
  by (simp add: switchuvm_def pushcli_def popcli_def cli_def lcr3_def exec_simps the_cpu_def upd_cpu_def)
    (rule exI, rule conjI [OF refl], simp)

lemma run_process_run:
  assumes "cur s < length (cpus s)" "p_pgdir (procs s ! q) \<noteq> 0" "\<not> c_if (the_cpu s)"
    "0 < c_ncli (the_cpu s)"
  shows "\<exists>c. run_process (cur s) q s = Ok () (s\<lparr>cpus := (cpus s)[cur s := c],
      procs := (procs s)[q := (procs s ! q)\<lparr>p_state := RUNNING\<rparr>]\<rparr>) \<and> c_proc c = Some q \<and>
    c_ncli c = c_ncli (the_cpu s) \<and> \<not> c_if c \<and> c_apicid c = c_apicid (the_cpu s) \<and>
    c_cr3 c = V2P (p_pgdir (procs s ! q)) \<and> c_ts_esp0 c = u32 (p_kstack (procs s ! q) + KSTACKSIZE)"
proof -
  let ?s = "s\<lparr>cpus := (cpus s)[cur s := (cpus s ! cur s)\<lparr>c_proc := Some q\<rparr>]\<rparr>"
  obtain c where "switchuvm q ?s = Ok () (?s\<lparr>cpus := (cpus ?s)[cur ?s := c]\<rparr>)" and c: "c_proc c = Some q"
    "c_ncli c = c_ncli (the_cpu ?s)" "\<not> c_if c" "c_apicid c = c_apicid (the_cpu ?s)"
    "c_cr3 c = V2P (p_pgdir (procs ?s ! q))" "c_ts_esp0 c = u32 (p_kstack (procs ?s ! q) + KSTACKSIZE)"
    using switchuvm_run [of ?s q q] assms by (auto simp: the_cpu_def)
  then have "run_process (cur s) q s = Ok () (s\<lparr>cpus := (cpus s)[cur s := c],
      procs := (procs s)[q := (procs s ! q)\<lparr>p_state := RUNNING\<rparr>]\<rparr>)"
    by (simp add: run_process_def exec_simps upd_proc_def)
  with c assms(1) show ?thesis by (auto simp: the_cpu_def)
qed

text \<open>The state after \<open>sti(); acquire(&ptable.lock)\<close> at the top of the scheduler loop.\<close>

definition sched_entry :: "'z ptable_st_scheme \<Rightarrow> 'z ptable_st_scheme" where
  "sched_entry s = acquired LPtable (s\<lparr>cpus := (cpus s)[cur s := (the_cpu s)\<lparr>c_if := True\<rparr>]\<rparr>)"

lemma sched_entry_run:
  assumes "lock_ready LPtable s" "c_ncli (the_cpu s) = 0"
  shows "run [sti, acquire LPtable] s = Ok () (sched_entry s)" "holding LPtable (sched_entry s)"
    "cur (sched_entry s) = cur s" "cur s < length (cpus (sched_entry s))"
    "\<not> c_if (the_cpu (sched_entry s))" "c_ncli (the_cpu (sched_entry s)) = 1"
    "sched_inv_except X (sched_entry s) = sched_inv_except X s"
    "procs (sched_entry s) = procs s" "queue (sched_entry s) = queue s"
    "l_cpu (locks (sched_entry s) LPtable) = Some (cur s)"
proof -
  let ?s = "s\<lparr>cpus := (cpus s)[cur s := (the_cpu s)\<lparr>c_if := True\<rparr>]\<rparr>"
  have r: "lock_ready LPtable ?s" using assms by (simp add: lock_ready_def the_cpu_def)
  then show "run [sti, acquire LPtable] s = Ok () (sched_entry s)"
    by (simp add: sti_def upd_cpu_def exec_simps acquire_ready sched_entry_def)
  have c: "cur ?s < length (cpus ?s)" using r by (simp add: lock_ready_def)
  note a = acquired_cpu [OF c, of LPtable]
  show "holding LPtable (sched_entry s)" "\<not> c_if (the_cpu (sched_entry s))"
    "c_ncli (the_cpu (sched_entry s)) = 1" "cur s < length (cpus (sched_entry s))"
    using a assms c by (simp_all add: sched_entry_def the_cpu_def)
qed (simp_all add: sched_entry_def queue_frame acquired_def)

lemma top_levelD:
  assumes "top_level s = Some l"
  shows "l < PLEVELS" "queue s l \<noteq> []" "k < l \<Longrightarrow> queue s k = []"
  using assms by (auto simp: top_level_def find_Some_iff)

lemma scheduler_pick:
  assumes inv: "sched_inv s" and rdy: "lock_ready LPtable s" "c_ncli (the_cpu s) = 0"
    and top: "top_level s = Some l" and q: "queue s l = q # qs"
    and run: "p_state (procs s ! q) = RUNNABLE" "p_pgdir (procs s ! q) \<noteq> 0"
  shows "\<exists>t. scheduler_round (cur s) p s = Ok (Some q, True) t \<and> sched_inv t \<and>
    procs t = (procs s)[q := (procs s ! q)\<lparr>p_state := RUNNING\<rparr>] \<and> queue t = (queue s)(l := qs) \<and>
    c_proc (the_cpu t) = Some q \<and> c_cr3 (the_cpu t) = V2P (p_pgdir (procs s ! q)) \<and>
    holding LPtable t"
proof -
  let ?e = "sched_entry s" let ?d = "deq_st ?e 0 l"
  note e = sched_entry_run [OF rdy]
  have l: "l < PLEVELS" using top by (rule top_levelD)
  have inv': "sched_inv ?e" using inv e by simp
  then have qok: "q_ok ?e" by (simp add: sched_inv_except_def)
  have scan: "scan_levels [0..<PLEVELS] p ?e = Ok (Some q) ?d"
    using scan_levels_run [OF qok, of "[0..<PLEVELS]" p] top q e by (simp add: top_level_def lessThan_atLeast0)
  note d = sched_inv_deq_head [OF inv' l, unfolded e, OF q]
  have q': "q < NPROC" using q qok l e by (auto simp: q_ok_def row_ok_def)
  obtain c where r: "run_process (cur ?d) q ?d = Ok () (?d\<lparr>cpus := (cpus ?d)[cur ?d := c],
      procs := (procs ?d)[q := (procs ?d ! q)\<lparr>p_state := RUNNING\<rparr>]\<rparr>)"
    and c: "c_proc c = Some q" "c_cr3 c = V2P (p_pgdir (procs ?d ! q))"
    using run_process_run [of ?d q] e run by auto
  have "sched_inv_except {} (?d\<lparr>cpus := (cpus ?d)[cur ?d := c], procs :=
      (procs (?d\<lparr>cpus := (cpus ?d)[cur ?d := c]\<rparr>))[q := (procs (?d\<lparr>cpus := (cpus ?d)[cur ?d := c]\<rparr>) ! q)
        \<lparr>p_state := RUNNING\<rparr>]\<rparr>)"
    using d(1) q' run e by (intro sched_inv_set_state [where X = "{q}"]) auto
  with r c d(2) e scan run q q' show ?thesis
    by (simp add: scheduler_round_def exec_simps queue_frame the_cpu_def holding_def)
qed


lemma released_frame [simp]:
  "procs (released lk s) = procs s" "cur (released lk s) = cur s" "queue (released lk s) = queue s"
  "sched_inv_except X (released lk s) = sched_inv_except X s" "length (cpus (released lk s)) = length (cpus s)"
  by (simp_all add: released_def queue_def fun_eq_iff)

text \<open>A section that ends with the lock as it was taken at the top of the loop.\<close>

lemma sched_entry_release:
  assumes rdy: "lock_ready LPtable s" "c_ncli (the_cpu s) = 0"
    and t: "cpus t = cpus (sched_entry s)" "locks t = locks (sched_entry s)" "cur t = cur s"
  shows "release LPtable t = Ok () (released LPtable t)" "lock_ready LPtable (released LPtable t)"
    "c_ncli (the_cpu (released LPtable t)) = 0"
proof -
  let ?s = "s\<lparr>cpus := (cpus s)[cur s := (the_cpu s)\<lparr>c_if := True\<rparr>]\<rparr>"
  have r: "lock_ready LPtable ?s" using assms by (simp add: lock_ready_def the_cpu_def)
  show "release LPtable t = Ok () (released LPtable t)" "lock_ready LPtable (released LPtable t)"
    using release_acquired [OF r] lock_ready_released [OF r] t by (simp_all add: sched_entry_def)
  show "c_ncli (the_cpu (released LPtable t)) = 0"
    using sched_entry_run(6,4) [OF rdy] t by (simp add: released_def the_cpu_def sched_entry_def)
qed

lemma scheduler_drop:
  assumes inv: "sched_inv s" and rdy: "lock_ready LPtable s" "c_ncli (the_cpu s) = 0"
    and top: "top_level s = Some l" and q: "queue s l = q # qs"
    and run: "p_state (procs s ! q) \<noteq> RUNNABLE"
  shows "\<exists>t. scheduler_round (cur s) p s = Ok (Some q, False) t \<and> sched_inv t \<and>
    procs t = procs s \<and> queue t = (queue s)(l := qs) \<and>
    lock_ready LPtable t \<and> c_ncli (the_cpu t) = 0 \<and> cur t = cur s"
proof -
  let ?e = "sched_entry s" let ?d = "deq_st ?e 0 l"
  note e = sched_entry_run [OF rdy]
  have l: "l < PLEVELS" using top by (rule top_levelD)
  have inv': "sched_inv ?e" using inv e by simp
  then have qok: "q_ok ?e" by (simp add: sched_inv_except_def)
  have scan: "scan_levels [0..<PLEVELS] p ?e = Ok (Some q) ?d"
    using scan_levels_run [OF qok, of "[0..<PLEVELS]" p] top q e
    by (simp add: top_level_def lessThan_atLeast0)
  note d = sched_inv_deq_head [OF inv' l, unfolded e, OF q]
  then have "sched_inv ?d" using run e by (auto simp: sched_inv_except_def no_lost_def)
  moreover note sched_entry_release [OF rdy, of ?d]
  ultimately show ?thesis using d(2) e scan run
    by (simp add: scheduler_round_def exec_simps)
qed

lemma scheduler_idle:
  assumes inv: "sched_inv s" and rdy: "lock_ready LPtable s" "c_ncli (the_cpu s) = 0"
    and top: "top_level s = None" and p: "\<And>q. p = Some q \<Longrightarrow> q < NPROC"
  shows "\<exists>t. scheduler_round (cur s) p s = Ok (p, False) t \<and> sched_inv t \<and>
    procs t = procs s \<and> queue t = queue s \<and> lock_ready LPtable t \<and> c_ncli (the_cpu t) = 0 \<and> cur t = cur s"
proof -
  let ?e = "sched_entry s"
  note e = sched_entry_run [OF rdy]
  have "sched_inv ?e" using inv e by simp
  then have "q_ok ?e" by (simp add: sched_inv_except_def)
  then have "scan_levels [0..<PLEVELS] p ?e = Ok p ?e"
    using scan_levels_run [of ?e "[0..<PLEVELS]" p] top e by (simp add: top_level_def lessThan_atLeast0)
  moreover have "p_state (procs s ! q) \<noteq> RUNNABLE" if "p = Some q" for q
    using sched_inv_no_runnable [OF inv top] p that by simp
  moreover note sched_entry_release [OF rdy, of ?e]
  ultimately show ?thesis using e inv
    by (cases p) (simp_all add: scheduler_round_def exec_simps)
qed

text \<open>
  The loop of \<open>scheduler()\<close> up to the next switch to a process, with fuel for its rounds: None
  when no process was run within them.
\<close>

primrec scheduler_loop :: "nat \<Rightarrow> nat \<Rightarrow> nat option \<Rightarrow> ('z ptable_st_scheme, nat option) cmd" where
  "scheduler_loop 0 c p = ret None"
| "scheduler_loop (Suc n) c p = bnd (scheduler_round c p) (\<lambda>(p', sw).
     if sw then ret p' else scheduler_loop n c p')"

lemma level_sum_update:
  assumes "l < PLEVELS" "queue s l = q # qs" "queue t = (queue s)(l := qs)"
  shows "(\<Sum>k<PLEVELS. length (queue s k)) = Suc (\<Sum>k<PLEVELS. length (queue t k))"
proof -
  have "(\<Sum>k\<in>{..<PLEVELS} - {l}. length (queue s k)) = (\<Sum>k\<in>{..<PLEVELS} - {l}. length (queue t k))"
    using assms(3) by (intro sum.cong) auto
  then show ?thesis using assms
    by (simp add: sum.remove [of "{..<PLEVELS}" l])
qed

lemma scheduler_progress:
  assumes "sched_inv s" "lock_ready LPtable s" "c_ncli (the_cpu s) = 0"
    and "p < NPROC" "p_state (procs s ! p) = RUNNABLE"
    and "\<And>q. q < NPROC \<Longrightarrow> p_state (procs s ! q) = RUNNABLE \<Longrightarrow> p_pgdir (procs s ! q) \<noteq> 0"
    and "(\<Sum>l<PLEVELS. length (queue s l)) \<le> n"
  shows "\<exists>q t. scheduler_loop n (cur s) x s = Ok (Some q) t \<and> p_state (procs s ! q) = RUNNABLE \<and>
    p_state (procs t ! q) = RUNNING \<and> c_proc (the_cpu t) = Some q \<and> sched_inv t"
  using assms
proof (induction n arbitrary: s x)
  case 0
  then show ?case by (auto simp: sched_inv_except_def no_lost_def queued_def)
next
  case (Suc n)
  then obtain l where top: "top_level s = Some l"
    using sched_inv_no_runnable [of s p] by (cases "top_level s") auto
  note l = top_levelD [OF top]
  obtain q qs where q: "queue s l = q # qs" using l(2) by (cases "queue s l") auto
  have q': "q < length (procs s)" "q < NPROC" using q l(1) Suc.prems(1)
    by (auto simp: sched_inv_except_def q_ok_def row_ok_def)
  show ?case
  proof (cases "p_state (procs s ! q) = RUNNABLE")
    case True
    then obtain t where "scheduler_round (cur s) x s = Ok (Some q, True) t" "sched_inv t"
      "procs t = (procs s)[q := (procs s ! q)\<lparr>p_state := RUNNING\<rparr>]" "c_proc (the_cpu t) = Some q"
      using scheduler_pick [OF Suc.prems(1-3) top q True Suc.prems(6) [OF q'(2) True]] by blast
    then show ?thesis using True q' by (simp add: exec_simps)
  next
    case False
    then obtain t where t: "scheduler_round (cur s) x s = Ok (Some q, False) t" "sched_inv t" "procs t = procs s"
      "queue t = (queue s)(l := qs)" "lock_ready LPtable t" "c_ncli (the_cpu t) = 0" "cur t = cur s"
      using scheduler_drop [OF Suc.prems(1-3) top q False] by blast
    have "(\<Sum>k<PLEVELS. length (queue t k)) \<le> n"
      using level_sum_update [OF l(1) q t(4)] Suc.prems(7) by simp
    then have "\<exists>q u. scheduler_loop n (cur t) (Some q') t = Ok (Some q) u \<and> p_state (procs t ! q) = RUNNABLE \<and>
        p_state (procs u ! q) = RUNNING \<and> c_proc (the_cpu u) = Some q \<and> sched_inv u" for q'
      by (intro Suc.IH) (use t Suc.prems in simp_all)
    then show ?thesis using t by (simp add: exec_simps)
  qed
qed


section \<open>Going to sleep\<close>

lemma sleep_run:
  assumes inv: "sched_inv s" and rdy: "lock_ready LPtable s" and on: "on_cpu s p"
    and lk: "holding lk s" "lk \<noteq> LPtable" "c_ncli (the_cpu s) = 1"
  shows "\<exists>t. sleep ch (Some lk) s = Stop Switch t \<and> sched_inv t \<and> holding LPtable t \<and>
    l_locked (locks t lk) = 0 \<and> queue t = queue s \<and>
    procs t = (procs s)[p := (procs s ! p)\<lparr>p_chan := ch, p_state := SLEEPING\<rparr>]"
proof -
  let ?a = "acquired LPtable s" let ?r = "released lk ?a"
  let ?c = "?r\<lparr>procs := (procs s)[p := (procs s ! p)\<lparr>p_chan := ch\<rparr>]\<rparr>"
  let ?t = "?c\<lparr>procs := (procs ?c)[p := (procs ?c ! p)\<lparr>p_state := SLEEPING\<rparr>]\<rparr>"
  have p: "p < NPROC" "p < length (procs s)" and cur: "cur s < length (cpus s)"
    using on inv by (auto simp: on_cpu_def sched_inv_except_def q_ok_def)
  note a = acquired_cpu [OF cur, of LPtable]
  have h: "holding lk ?a" using lk by (simp add: holding_def acquired_def)
  have rel: "release lk ?a = Ok () ?r" using h a cur lk by (intro release_Ok) simp_all
  have r: "the_cpu ?r = (the_cpu ?a)\<lparr>c_ncli := 1, c_if := False\<rparr>" "holding LPtable ?r"
      "l_locked (locks ?r lk) = 0"
    using a cur lk by (auto simp: released_def the_cpu_def holding_def)
  have "sched_inv ?c" using sched_inv_upd_proc [of "{}" ?r "\<lambda>x. x\<lparr>p_chan := ch\<rparr>" p] inv by simp
  then have "sched_inv ?t" using p on by (intro sched_inv_set_state) (auto simp: on_cpu_def)
  moreover have "sleep ch (Some lk) s = Stop Switch ?t"
    using on lk p r a acquire_ready [OF rdy] rel
    by (simp add: sleep_def sleep_steps_def exec_simps with_proc_def upd_proc_def on_cpu_def sched_switch)
  ultimately show ?thesis using r p by (simp add: queue_frame)
qed

lemma wakeup1_sleeper:
  assumes "sched_inv s" "p < NPROC" "p_state (procs s ! p) = SLEEPING" "p_chan (procs s ! p) = ch"
  shows "\<exists>t. wakeup1 ch s = Ok () t \<and> p_state (procs t ! p) = RUNNABLE \<and> queued t p \<and> sched_inv t"
proof -
  obtain t where t: "wakeup1 ch s = Ok () t" "sched_inv t" "procs t = map (woken ch) (procs s)"
    using wakeup1_run [OF assms(1)] by blast
  have "p < length (procs s)" using assms by (simp add: sched_inv_except_def q_ok_def)
  then have "p_state (procs t ! p) = RUNNABLE" using assms t(3) by (simp add: woken_def)
  then show ?thesis using t assms(2) by (auto simp: sched_inv_except_def no_lost_def)
qed


section \<open>Properties\<close>

text \<open>
  A system with four processes: slot 0 runnable and queued at its level, slot 1 running on
  processor 0, slot 2 asleep on the clock, slot 3 queued though it is asleep.
\<close>

definition busy0 :: ptable_st where
  "busy0 = ptable0\<lparr>
     cpus := [cpu0\<lparr>c_proc := Some 1\<rparr>, cpu0\<lparr>c_apicid := 1\<rparr>],
     procs := (replicate NPROC proc0)
       [0 := proc0\<lparr>p_state := RUNNABLE, p_pid := 1, p_priority := 3, p_pgdir := 0x80200000\<rparr>,
        1 := proc0\<lparr>p_state := RUNNING, p_pid := 2, p_priority := 3, p_pgdir := 0x80300000\<rparr>,
        2 := proc0\<lparr>p_state := SLEEPING, p_pid := 3, p_priority := 1, p_chan := Some ChTicks\<rparr>,
        3 := proc0\<lparr>p_state := SLEEPING, p_pid := 4, p_priority := 2\<rparr>],
     priority_q := (replicate PLEVELS (replicate NPROC node0))
       [1 := (replicate NPROC node0)[0 := node0\<lparr>n_p := Some 3\<rparr>],
        2 := (replicate NPROC node0)[0 := node0\<lparr>n_p := Some 0\<rparr>]],
     marker := [0, 1, 1, 0, 0], nextpid := 5\<rparr>"

lemma row_busy0: "take (Suc 0) ((replicate NPROC node0)[0 := x]) = [x]"
  by (simp add: take_Suc_update NPROC_def)

lemma busy0_rows:
  "priority_q busy0 ! Suc 0 = (replicate NPROC node0)[0 := node0\<lparr>n_p := Some 3\<rparr>]"
  "priority_q busy0 ! 2 = (replicate NPROC node0)[0 := node0\<lparr>n_p := Some 0\<rparr>]"
  "priority_q busy0 ! 0 = replicate NPROC node0" "priority_q busy0 ! 3 = replicate NPROC node0"
  "priority_q busy0 ! 4 = replicate NPROC node0" "marker busy0 = [0, 1, 1, 0, 0]"
  by (simp_all add: busy0_def PLEVELS_def)

lemma queue_busy0: "queue busy0 0 = []" "queue busy0 1 = [3]" "queue busy0 2 = [0]" "queue busy0 3 = []"
  "queue busy0 4 = []"
  by (simp_all add: queue_def busy0_rows row_busy0)

lemma less_PLEVELS: "l < PLEVELS \<longleftrightarrow> l \<in> {0, 1, 2, 3, 4}"
  by (auto simp: PLEVELS_def)

lemma sched_inv_busy0: "sched_inv busy0"
proof -
  have "q_ok busy0"
  proof -
    have "row_ok busy0 l" if "l < PLEVELS" for l
      using that queue_busy0 unfolding less_PLEVELS
      by (auto simp: row_ok_def busy0_rows row_busy0) (simp_all add: NPROC_def)
    then show ?thesis by (simp add: q_ok_def) (simp add: busy0_def PLEVELS_def)
  qed
  moreover have "pid_ok busy0" "live_ok busy0"
    by (auto simp: pid_ok_def live_ok_def prio_ok_def pid_of_def busy0_def ptable0_def proc0_def NPROC_def
      PLEVELS_def nth_list_update')
  moreover have "no_lost {} busy0"
  proof -
    have "p = 0" if "p < NPROC" "p_state (procs busy0 ! p) = RUNNABLE" for p
      using that by (simp add: busy0_def ptable0_def proc0_def NPROC_def nth_list_update' split: if_splits)
    moreover have "queued busy0 0"
      unfolding queued_def by (rule exI [of _ 2]) (simp add: queue_busy0 PLEVELS_def)
    ultimately show ?thesis unfolding no_lost_def by blast
  qed
  ultimately show ?thesis by (simp add: sched_inv_except_def busy0_def ptable0_def)
qed

lemma busy0_ready: "lock_ready lk busy0" "c_ncli (the_cpu busy0) = 0" "on_cpu busy0 1"
  by (simp_all add: lock_ready_def on_cpu_def the_cpu_def busy0_def ptable0_def mach0_def cpu0_def lock0_def
      NPROC_def proc0_def)


text \<open>
  C6. The scheduler runs the head of the first non-empty level. Under the scheduling invariant a
  round of \<open>scheduler()\<close> takes the first process of the lowest-numbered level that has one off its
  queue; if it is runnable it becomes RUNNING, the current process of this processor with its own
  page table loaded, and the other queues and processes are unchanged.
\<close>

theorem scheduler_runs_highest_priority:
  assumes "sched_inv s" "lock_ready LPtable s" "c_ncli (the_cpu s) = 0"
    and "l < PLEVELS" "\<forall>k<l. queue s k = []" "queue s l = q # qs"
    and "p_state (procs s ! q) = RUNNABLE" "p_pgdir (procs s ! q) \<noteq> 0"
  shows "\<exists>t. scheduler_round (cur s) p s = Ok (Some q, True) t \<and> sched_inv t \<and>
    procs t = (procs s)[q := (procs s ! q)\<lparr>p_state := RUNNING\<rparr>] \<and> queue t = (queue s)(l := qs) \<and>
    c_proc (the_cpu t) = Some q \<and> c_cr3 (the_cpu t) = V2P (p_pgdir (procs s ! q)) \<and> holding LPtable t"
proof -
  have "top_level s = Some l" using assms(4-6)
    by (auto simp: top_level_def find_Some_iff intro!: exI [of _ l])
  then show ?thesis using assms by (intro scheduler_pick) simp_all
qed

text \<open>The state of the witness: the stale entry for slot 3 removed, so that level 2 is the first.\<close>

lemma busy0_deq: "sched_inv (deq_st busy0 0 1)" "queue (deq_st busy0 0 1) = (queue busy0)(1 := [])"
proof -
  have q: "queue busy0 1 = 3 # []" by (simp add: queue_busy0 [unfolded One_nat_def])
  note d = sched_inv_deq_head [OF sched_inv_busy0 _ q]
  show "queue (deq_st busy0 0 1) = (queue busy0)(1 := [])" using d(2) by (simp add: PLEVELS_def)
  have "p_state (procs busy0 ! 3) = SLEEPING" by (simp add: busy0_def NPROC_def)
  then show "sched_inv (deq_st busy0 0 1)"
    using d(1) by (auto simp: PLEVELS_def sched_inv_except_def no_lost_def)
qed

theorem scheduler_runs_highest_priority_witness:
  "\<exists>t. scheduler_round 0 None (deq_st busy0 0 1) = Ok (Some 0, True) t \<and> c_proc (the_cpu t) = Some 0"
proof -
  have "\<forall>k<2. queue (deq_st busy0 0 1) k = []" "queue (deq_st busy0 0 1) 2 = 0 # []"
    unfolding busy0_deq(2) using queue_busy0 by (auto simp: numeral_2_eq_2 less_Suc_eq)
  moreover have "lock_ready LPtable (deq_st busy0 0 1)"
    using busy0_ready(1) [of LPtable] by (simp add: lock_ready_def)
  moreover have "p_state (procs busy0 ! 0) = RUNNABLE" "p_pgdir (procs busy0 ! 0) \<noteq> 0" "cur busy0 = 0"
    by (simp_all add: busy0_def NPROC_def ptable0_def)
  ultimately show ?thesis
    using scheduler_runs_highest_priority [OF busy0_deq(1), of 2 0 "[]" None] busy0_ready(2)
    by (auto simp: PLEVELS_def)
qed

text \<open>
  C7. Progress of the scheduler. If some process is runnable, the scheduler loop switches to a
  runnable process within as many rounds as there are queue entries: stale entries of processes
  that are no longer runnable are dropped one per round, and no runnable process is missing from
  the queues.
\<close>

theorem scheduler_makes_progress:
  assumes "sched_inv s" "lock_ready LPtable s" "c_ncli (the_cpu s) = 0"
    and "p < NPROC" "p_state (procs s ! p) = RUNNABLE"
    and "\<And>q. q < NPROC \<Longrightarrow> p_state (procs s ! q) = RUNNABLE \<Longrightarrow> p_pgdir (procs s ! q) \<noteq> 0"
  shows "\<exists>q t. scheduler_loop (\<Sum>l<PLEVELS. length (queue s l)) (cur s) x s = Ok (Some q) t \<and>
    p_state (procs s ! q) = RUNNABLE \<and> p_state (procs t ! q) = RUNNING \<and>
    c_proc (the_cpu t) = Some q \<and> sched_inv t"
  using scheduler_progress [OF assms order_refl] .

lemma busy0_procs: "q < NPROC \<Longrightarrow> p_state (procs busy0 ! q) = RUNNABLE \<longleftrightarrow> q = 0"
  by (simp add: busy0_def NPROC_def ptable0_def proc0_def nth_list_update')


theorem scheduler_makes_progress_witness:
  "\<exists>q t. scheduler_loop 2 0 None busy0 = Ok (Some q) t \<and> p_state (procs t ! q) = RUNNING"
proof -
  have run: "p_state (procs busy0 ! 0) = RUNNABLE" and pg: "p_pgdir (procs busy0 ! 0) \<noteq> 0" and cur: "cur busy0 = 0"
    by (simp_all add: busy0_def NPROC_def ptable0_def)
  have "{..<PLEVELS} = {0, 1, 2, 3, 4}" by (rule set_eqI) (simp only: less_PLEVELS lessThan_iff)
  then have sum: "(\<Sum>l<PLEVELS. length (queue busy0 l)) = 2" using queue_busy0 by simp
  have np: "0 < NPROC" by (simp add: NPROC_def)
  have "p_pgdir (procs busy0 ! q) \<noteq> 0" if "q < NPROC" "p_state (procs busy0 ! q) = RUNNABLE" for q
    using that pg by (simp add: busy0_procs)
  from scheduler_makes_progress [OF sched_inv_busy0 busy0_ready(1,2) np run this, of None]
  show ?thesis unfolding sum cur by blast
qed

text \<open>
  C35. Waking up. \<open>wakeup(chan)\<close> makes exactly the processes asleep on \<open>chan\<close> runnable, changes
  nothing else in the process table, puts each of them on a run queue, and gives the lock back.
\<close>

theorem wakeup_wakes_sleepers:
  assumes "sched_inv s" "lock_ready LPtable s"
  shows "\<exists>t. wakeup ch s = Ok () t \<and> procs t = map (woken ch) (procs s) \<and> sched_inv t \<and>
    lock_ready LPtable t \<and>
    (\<forall>p<NPROC. p_state (procs s ! p) = SLEEPING \<and> p_chan (procs s ! p) = ch \<longrightarrow> queued t p)"
proof -
  have "sched_inv (acquired LPtable s)" using assms(1) by simp
  from wakeup1_run [OF this, of ch] obtain t where
    t: "wakeup1 ch (acquired LPtable s) = Ok () t" "sched_inv t" "procs t = map (woken ch) (procs s)"
      "cpus t = cpus (acquired LPtable s)" "locks t = locks (acquired LPtable s)" "cur t = cur s" by auto
  let ?t = "released LPtable t"
  have "wakeup ch s = Ok () ?t"
    using t release_acquired [OF assms(2) t(4-6)] acquire_ready [OF assms(2)]
    by (simp add: wakeup_def exec_simps)
  moreover have "lock_ready LPtable ?t" using lock_ready_released [OF assms(2) t(4-6)] .
  moreover have "length (procs s) = NPROC" using assms(1) by (simp add: sched_inv_except_def q_ok_def)
  then have "queued ?t p" if "p < NPROC" "p_state (procs s ! p) = SLEEPING" "p_chan (procs s ! p) = ch" for p
    using that t(2,3) by (auto simp: sched_inv_except_def no_lost_def queued_def woken_def)
  ultimately show ?thesis using t by auto
qed

theorem wakeup_wakes_sleepers_witness:
  "\<exists>t. wakeup (Some ChTicks) busy0 = Ok () t \<and> p_state (procs t ! 2) = RUNNABLE \<and> queued t 2"
proof -
  have "p_state (procs busy0 ! 2) = SLEEPING" "p_chan (procs busy0 ! 2) = Some ChTicks" "2 < NPROC"
      "length (procs busy0) = NPROC"
    by (simp_all add: busy0_def NPROC_def)
  then show ?thesis using wakeup_wakes_sleepers [OF sched_inv_busy0 busy0_ready(1), of "Some ChTicks"]
    by (auto simp: woken_def)
qed

text \<open>
  C36. Yielding. A running process that calls \<open>yield()\<close> leaves the processor RUNNABLE, at the end of
  the queue of its priority (unless it is already there), with the process table lock held for the
  scheduler.
\<close>

theorem yield_requeues:
  assumes "sched_inv s" "lock_ready LPtable s" "c_ncli (the_cpu s) = 0" "on_cpu s p"
  shows "\<exists>t. yield s = Stop Switch t \<and> sched_inv t \<and> holding LPtable t \<and>
    procs t = (procs s)[p := (procs s ! p)\<lparr>p_state := RUNNABLE\<rparr>] \<and>
    queue t = enqueued (queue s) p (nat (p_priority (procs s ! p) - 1))"
  using yield_run [OF assms] by blast

theorem yield_requeues_witness:
  "\<exists>t. yield busy0 = Stop Switch t \<and> queue t 2 = [0, 1]"
proof -
  have "p_priority (procs busy0 ! 1) = 3" by (simp add: busy0_def NPROC_def)
  then show ?thesis using yield_requeues [OF sched_inv_busy0 busy0_ready] queue_busy0
    by (auto simp: enqueued_def)
qed

end
