(* ===== verification/Sleeplock.thy ===== *)
theory Sleeplock
  imports Sched
begin

text \<open>
  \<open>sleeplock.c\<close>: locks held across disk accesses. A process that finds the lock taken goes to
  sleep on it, which ends the command with the outcome \<open>Switch\<close>; the loop of \<open>acquiresleep\<close> goes
  on in \<open>acquiresleep_return\<close> when the process runs again. The theory also fixes the notion of a
  quiet state, in which the current process holds no spinlock and can take any: the file system
  is verified from quiet state to quiet state.
\<close>

section \<open>Operations\<close>

record sleeplock =
  sl_locked :: nat
  sl_name :: string
  sl_pid :: int

record slp_st = sched_st +
  slocks :: "sleepid \<Rightarrow> sleeplock"

definition upd_slock :: "sleepid \<Rightarrow> (sleeplock \<Rightarrow> sleeplock) \<Rightarrow> ('z slp_st_scheme, unit) cmd" where
  "upd_slock lk f = modify (\<lambda>s. s\<lparr>slocks := (slocks s)(lk := f (slocks s lk))\<rparr>)"

definition initsleeplock :: "sleepid \<Rightarrow> string \<Rightarrow> ('z slp_st_scheme, unit) cmd" where
  "initsleeplock lk nm = run
     [initlock (LSleep lk) ''sleep lock'',
      upd_slock lk (\<lambda>l. l\<lparr>sl_name := nm\<rparr>),
      upd_slock lk (\<lambda>l. l\<lparr>sl_locked := 0\<rparr>),
      upd_slock lk (\<lambda>l. l\<lparr>sl_pid := 0\<rparr>)]"

text \<open>The loop and what follows it, from the point where the spinlock is held.\<close>

definition acquiresleep_loop :: "sleepid \<Rightarrow> ('z slp_st_scheme, unit) cmd" where
  "acquiresleep_loop lk = run
     [whenM (\<lambda>s. sl_locked (slocks s lk) \<noteq> 0) (sleep (Some (ChSleep lk)) (Some (LSleep lk))),
      upd_slock lk (\<lambda>l. l\<lparr>sl_locked := 1\<rparr>),
      with_proc (\<lambda>p. withS (\<lambda>s. upd_slock lk (\<lambda>l. l\<lparr>sl_pid := p_pid (procs s ! p)\<rparr>))),
      release (LSleep lk)]"

definition acquiresleep :: "sleepid \<Rightarrow> ('z slp_st_scheme, unit) cmd" where
  "acquiresleep lk = run [acquire (LSleep lk), acquiresleep_loop lk]"

definition acquiresleep_return :: "sleepid \<Rightarrow> nat \<Rightarrow> ('z slp_st_scheme, unit) cmd" where
  "acquiresleep_return lk intena = run [sleep_return (LSleep lk) intena, acquiresleep_loop lk]"

definition releasesleep :: "sleepid \<Rightarrow> ('z slp_st_scheme, unit) cmd" where
  "releasesleep lk = run
     [acquire (LSleep lk),
      upd_slock lk (\<lambda>l. l\<lparr>sl_locked := 0\<rparr>),
      upd_slock lk (\<lambda>l. l\<lparr>sl_pid := 0\<rparr>),
      wakeup (Some (ChSleep lk)),
      release (LSleep lk)]"

definition holdingsleep :: "sleepid \<Rightarrow> ('z slp_st_scheme, nat) cmd" where
  "holdingsleep lk = bnd (acquire (LSleep lk)) (\<lambda>_. bnd (gets (\<lambda>s. sl_locked (slocks s lk))) (\<lambda>r.
     andthen [release (LSleep lk)] (ret r)))"


section \<open>Quiet states\<close>

text \<open>
  \<open>quiet s p\<close>: process \<open>p\<close> runs on the executing processor, no spinlock is held, and the table is
  in order, so that \<open>wakeup\<close> returns. With the priority scheduler compiled in that is the
  scheduling invariant; without it \<open>wakeup\<close> does not touch the queues.
\<close>

definition table_ok :: "'z ptable_st_scheme \<Rightarrow> bool" where
  "table_ok s \<longleftrightarrow> (if cfg_custom s then length (procs s) = NPROC else sched_inv s)"

definition quiet :: "'z ptable_st_scheme \<Rightarrow> nat \<Rightarrow> bool" where
  "quiet s p \<longleftrightarrow> table_ok s \<and> on_cpu s p \<and> c_ncli (the_cpu s) = 0 \<and> (\<forall>lk. l_locked (locks s lk) = 0)"

lemma table_ok_frame [simp]:
  "table_ok (acquired lk s) = table_ok s" "table_ok (released lk s) = table_ok s"
  "table_ok (s\<lparr>cpus := c\<rparr>) = table_ok s" "table_ok (s\<lparr>locks := l\<rparr>) = table_ok s"
  by (simp_all add: table_ok_def) (simp_all add: acquired_def released_def)

lemma table_ok_length: "table_ok s \<Longrightarrow> length (procs s) = NPROC"
  by (simp add: table_ok_def sched_inv_except_def q_ok_def split: if_splits)

text \<open>
  What such sections may change besides their own data: the debugging fields of the locks, the
  saved interrupt state of the processor, the console, the queues, and processes from SLEEPING to RUNNABLE.
\<close>

definition calm :: "proc \<Rightarrow> proc" where
  "calm x = x\<lparr>p_state := (if p_state x = SLEEPING then RUNNABLE else p_state x)\<rparr>"

definition stirred :: "'z ptable_st_scheme \<Rightarrow> 'z ptable_st_scheme \<Rightarrow> bool" where
  "stirred s t \<longleftrightarrow> cur t = cur s \<and> mem t = mem s \<and> km_freelist t = km_freelist s \<and>
     map c_proc (cpus t) = map c_proc (cpus s) \<and> map calm (procs t) = map calm (procs s)"

lemma stirred_refl [simp]: "stirred s s"
  by (simp add: stirred_def)

lemma stirred_trans [trans]: "stirred s t \<Longrightarrow> stirred t u \<Longrightarrow> stirred s u"
  by (simp add: stirred_def)

lemma calm_woken [simp]: "calm (woken ch x) = calm x"
  by (simp add: calm_def woken_def)


text \<open>
  \<open>wake_indep I\<close>: the predicate concerns nothing that \<open>wakeup\<close> changes.
\<close>

definition wake_indep :: "('z ptable_st_scheme \<Rightarrow> bool) \<Rightarrow> bool" where
  "wake_indep I \<longleftrightarrow> lock_indep I \<and> (\<forall>s x y z w. I (s\<lparr>cons_out := x\<rparr>) = I s \<and> I (s\<lparr>procs := y\<rparr>) = I s \<and>
     I (s\<lparr>priority_q := z\<rparr>) = I s \<and> I (s\<lparr>marker := w\<rparr>) = I s)"

lemma keeps_add_process:
  assumes "wake_indep I"
  shows "keeps I (add_process_to_queue p pr)"
  unfolding add_process_to_queue_def
  by (intro keeps_intros keeps_modify) (use assms in \<open>simp_all add: wake_indep_def keeps_intros keeps_modify split: option.split prod.split\<close>)

lemma keeps_wakeup_indep:
  assumes I: "wake_indep I"
  shows "keeps I (wakeup ch)"
proof -
  have li: "lock_indep I" using I by (simp add: wake_indep_def)
  have up: "keeps I (upd_proc p f)" "keeps I (cprintf fmt args)" for p f fmt args
    using I by (simp_all add: upd_proc_def cprintf_def wake_indep_def keeps_modify)
  show ?thesis
    unfolding wakeup_def wakeup1_def wakeup1_body_def print_unable_def
    by (intro keeps_intros keeps_spin_ops [OF li] up keeps_add_process [OF I])
qed

lemma wakeup1_custom:
  assumes "cfg_custom s" "length (procs s) = NPROC"
  shows "\<exists>t. wakeup1 ch s = Ok () t \<and> procs t = map (woken ch) (procs s) \<and> cfg_custom t \<and>
    cpus t = cpus s \<and> locks t = locks s \<and> cur t = cur s"
proof -
  have "\<exists>t. forM [0..<NPROC] (wakeup1_body ch) s = Ok () t \<and>
      t = s\<lparr>procs := map (woken ch) (take NPROC (procs s)) @ drop NPROC (procs s)\<rparr>"
  proof (rule forM_upt_Ok)
    fix i u
    assume i: "i < NPROC" and u: "u = s\<lparr>procs := map (woken ch) (take i (procs s)) @ drop i (procs s)\<rparr>"
    have "procs u ! i = procs s ! i" using u i assms(2) by (simp add: nth_append)
    moreover have "(map (woken ch) (take i (procs s)) @ drop i (procs s))[i := x] =
        map (woken ch) (take i (procs s)) @ x # drop (Suc i) (procs s)" for x
      using i assms(2) by (simp add: list_update_append flip: Cons_nth_drop_Suc)
    moreover have "drop i (procs s) = procs s ! i # drop (Suc i) (procs s)"
      using i assms(2) by (simp add: Cons_nth_drop_Suc)
    ultimately show "\<exists>t. wakeup1_body ch i u = Ok () t \<and>
        t = s\<lparr>procs := map (woken ch) (take (Suc i) (procs s)) @ drop (Suc i) (procs s)\<rparr>"
      using u i assms by (simp add: wakeup1_body_def exec_simps upd_proc_def woken_def take_Suc_conv_app_nth)
  qed simp
  then show ?thesis using assms by (auto simp: wakeup1_def)
qed

lemma wakeup_quiet:
  assumes tab: "table_ok s" and rdy: "lock_ready LPtable s"
  shows "\<exists>u. wakeup ch s = Ok () (released LPtable u) \<and> table_ok u \<and> procs u = map (woken ch) (procs s) \<and>
    cpus u = cpus (acquired LPtable s) \<and> locks u = locks (acquired LPtable s) \<and> cur u = cur s"
proof -
  have "\<exists>u. wakeup1 ch (acquired LPtable s) = Ok () u \<and> table_ok u \<and> procs u = map (woken ch) (procs s) \<and>
    cpus u = cpus (acquired LPtable s) \<and> locks u = locks (acquired LPtable s) \<and> cur u = cur s"
  proof (cases "cfg_custom s")
    case True
    then show ?thesis using wakeup1_custom [of "acquired LPtable s" ch] tab by (auto simp: table_ok_def)
  next
    case False
    then have "sched_inv (acquired LPtable s)" using tab by (simp add: table_ok_def)
    from wakeup1_run [OF this, of ch] show ?thesis by (auto simp: table_ok_def sched_inv_except_def)
  qed
  then obtain u where u: "wakeup1 ch (acquired LPtable s) = Ok () u" "table_ok u"
    "procs u = map (woken ch) (procs s)" "cpus u = cpus (acquired LPtable s)"
    "locks u = locks (acquired LPtable s)" "cur u = cur s" by blast
  then have "wakeup ch s = Ok () (released LPtable u)"
    using release_acquired [OF rdy u(4-6)] acquire_ready [OF rdy] by (simp add: wakeup_def exec_simps)
  with u show ?thesis by blast
qed

text \<open>A section inside another one leaves the processor as it was.\<close>

lemma nested_cpus:
  assumes "cur s < length (cpus s)" "\<not> c_if (the_cpu s)" "0 < c_ncli (the_cpu s)"
    "cpus u = cpus (acquired lk s)" "cur u = cur s"
  shows "cpus (released lk u) = cpus s"
proof -
  have "(cpus s ! cur s)\<lparr>c_if := False, c_intena := c_intena (cpus s ! cur s)\<rparr> = cpus s ! cur s"
    using assms(2) by (cases "cpus s ! cur s") (simp add: the_cpu_def)
  then show ?thesis using assms by (simp add: released_def acquired_def the_cpu_def cpu_if_id)
qed


text \<open>
  A critical section from a quiet state: whatever the body does to the data, if it leaves the
  processors and locks alone the lock can be released, and the state is quiet again.
\<close>

lemma quiet_ready: "quiet s p \<Longrightarrow> lock_ready lk s"
  by (simp add: quiet_def lock_ready_def on_cpu_def)

lemma quiet_section':
  assumes q: "quiet s p" and u: "cpus u = cpus (acquired lk s)" "cur u = cur s"
    "table_ok u" "mem u = mem s" "km_freelist u = km_freelist s" "map calm (procs u) = map calm (procs s)"
    "p_state (procs u ! p) = RUNNING"
    and lk: "holding lk u" "\<And>l. l \<noteq> lk \<Longrightarrow> l_locked (locks u l) = 0"
  shows "release lk u = Ok () (released lk u)" "quiet (released lk u) p" "stirred s (released lk u)"
proof -
  have cur: "cur s < length (cpus s)" "c_proc (the_cpu s) = Some p" "distinct (map c_apicid (cpus s))" "p < NPROC"
    "c_ncli (the_cpu s) = 0"
    using q by (auto simp: quiet_def on_cpu_def)
  show "release lk u = Ok () (released lk u)"
    using u lk cur acquired_cpu [OF cur(1), of lk] by (intro release_Ok) (simp_all add: the_cpu_def)
  have c: "cpus (released lk u) = (cpus s)[cur s := c']"
    if "c' = (the_cpu (acquired lk s))\<lparr>c_ncli := 0,
      c_if := c_intena (the_cpu (acquired lk s)) \<noteq> 0\<rparr>" for c'
    using that u cur by (simp add: released_def acquired_def the_cpu_def)
  have m: "map c_proc (cpus (released lk u)) = map c_proc (cpus s)"
    "map c_apicid (cpus (released lk u)) = map c_apicid (cpus s)"
    using cur by (auto simp: c [OF refl] list_eq_iff_nth_eq nth_list_update' acquired_def the_cpu_def)
  show "stirred s (released lk u)" using u m by (simp add: stirred_def) (simp add: released_def)
  have "l_locked (locks (released lk u) l) = 0" for l
    using lk by (simp add: released_def)
  moreover have "on_cpu (released lk u) p" using cur u m
    by (simp add: on_cpu_def) (simp add: c [OF refl] the_cpu_def acquired_def)
  moreover have "c_ncli (the_cpu (released lk u)) = 0" using cur u by (simp add: the_cpu_def c [OF refl])
  ultimately show "quiet (released lk u) p" using u(3) by (simp add: quiet_def)
qed

lemma quiet_section:
  assumes q: "quiet s p" and u: "cpus u = cpus (acquired lk s)" "locks u = locks (acquired lk s)" "cur u = cur s"
    "table_ok u" "mem u = mem s" "km_freelist u = km_freelist s" "map calm (procs u) = map calm (procs s)"
    "p_state (procs u ! p) = RUNNING"
  shows "acquire lk s = Ok () (acquired lk s)" "release lk u = Ok () (released lk u)"
    "quiet (released lk u) p" "stirred s (released lk u)"
proof -
  show "acquire lk s = Ok () (acquired lk s)" using acquire_ready [OF quiet_ready [OF q]] .
  have "holding lk u" "\<And>l. l \<noteq> lk \<Longrightarrow> l_locked (locks u l) = 0"
    using u q by (auto simp: holding_def acquired_def quiet_def)
  with quiet_section' [OF q u(1,3-8)]
  show "release lk u = Ok () (released lk u)" "quiet (released lk u) p" "stirred s (released lk u)" by auto
qed

lemma acquired_more [simp]:
  "sched_st.more (acquired lk s) = sched_st.more s" "km_freelist (acquired lk s') = km_freelist s'"
  "sched_st.more (released lk s) = sched_st.more s" "mem (released lk s') = mem s'"
  "km_freelist (released lk s') = km_freelist s'"
  by (simp_all add: acquired_def released_def)

lemma slocks_more [simp]:
  "slocks (acquired lk s) = slocks s" "slocks (released lk s) = slocks s"
  "slp_st.more (acquired lk s) = slp_st.more s" "slp_st.more (released lk s) = slp_st.more s"
  by (simp_all add: acquired_def released_def)

lemma quiet_RUNNING: "quiet s p \<Longrightarrow> p_state (procs s ! p) = RUNNING"
  and quiet_table: "quiet s p \<Longrightarrow> table_ok s"
  and quiet_proc: "quiet s p \<Longrightarrow> c_proc (the_cpu s) = Some p"
  and quiet_cur: "quiet s p \<Longrightarrow> cur s < length (cpus s)"
  by (simp_all add: quiet_def on_cpu_def)

lemma table_ok_slocks [simp]: "table_ok (s\<lparr>slocks := x\<rparr>) = table_ok s"
  by (simp add: table_ok_def sched_inv_defs)

lemma holdingsleep_quiet:
  assumes q: "quiet s p"
  shows "\<exists>t. holdingsleep lk s = Ok (sl_locked (slocks s lk)) t \<and> quiet t p \<and> stirred s t \<and>
    slocks t = slocks s \<and> slp_st.more t = slp_st.more s"
proof -
  note sec = quiet_section [OF q, of "acquired (LSleep lk) s" "LSleep lk"]
  show ?thesis using sec quiet_RUNNING [OF q] quiet_table [OF q]
    by (simp add: holdingsleep_def exec_simps)
qed

lemma acquiresleep_quiet:
  assumes q: "quiet s p" and free: "sl_locked (slocks s lk) = 0"
  shows "\<exists>t. acquiresleep lk s = Ok () t \<and> quiet t p \<and> stirred s t \<and>
    slocks t = (slocks s)(lk := (slocks s lk)\<lparr>sl_locked := 1, sl_pid := p_pid (procs s ! p)\<rparr>) \<and>
    slp_st.more t = slp_st.more s"
proof -
  let ?u = "(acquired (LSleep lk) s)\<lparr>slocks := (slocks s)(lk := (slocks s lk)
     \<lparr>sl_locked := 1, sl_pid := p_pid (procs s ! p)\<rparr>)\<rparr>"
  note sec = quiet_section [OF q, of ?u "LSleep lk"]
  have "c_proc (the_cpu (acquired (LSleep lk) s)) = Some p"
    using acquired_cpu(1) [OF quiet_cur [OF q]] quiet_proc [OF q] by simp
  then show ?thesis using sec quiet_RUNNING [OF q] quiet_table [OF q] free
    by (simp add: acquiresleep_def acquiresleep_loop_def exec_simps upd_slock_def with_proc_def the_cpu_def)
qed


lemma wakeup_frame:
  assumes "wakeup ch s = Ok () t"
  shows "mem t = mem s" "km_freelist t = km_freelist s" "sched_st.more t = sched_st.more s"
    "cfg_custom t = cfg_custom s"
proof -
  have "wake_indep (\<lambda>s :: 'a sched_st_scheme. mem s = m)" "wake_indep (\<lambda>s :: 'a sched_st_scheme. km_freelist s = n)"
    "wake_indep (\<lambda>s :: 'a sched_st_scheme. sched_st.more s = r)" "wake_indep (\<lambda>s :: 'a sched_st_scheme. cfg_custom s = b)"
    for m n r b by (simp_all add: wake_indep_def lock_indep_def)
  note k = this [THEN keeps_wakeup_indep]
  show "mem t = mem s" by (rule keeps_Ok [OF k(1) refl assms])
  show "km_freelist t = km_freelist s" by (rule keeps_Ok [OF k(2) refl assms])
  show "sched_st.more t = sched_st.more s" by (rule keeps_Ok [OF k(3) refl assms])
  show "cfg_custom t = cfg_custom s" by (rule keeps_Ok [OF k(4) refl assms])
qed

lemma slp_of_more:
  assumes "sched_st.more x = sched_st.more y"
  shows "slocks x = slocks y" "slp_st.more x = slp_st.more y"
  using assms by (cases x, cases y, simp)+

text \<open>
  \<open>crit s p lk u\<close>: the process entered the section of \<open>lk\<close> from the quiet state \<open>s\<close> and is now at
  \<open>u\<close>, having touched only the data the lock protects and woken sleepers.
\<close>

definition crit :: "'z ptable_st_scheme \<Rightarrow> nat \<Rightarrow> lockid \<Rightarrow> 'z ptable_st_scheme \<Rightarrow> bool" where
  "crit s p lk u \<longleftrightarrow> quiet s p \<and> cpus u = cpus (acquired lk s) \<and> cur u = cur s \<and> table_ok u \<and> mem u = mem s \<and>
     km_freelist u = km_freelist s \<and> map calm (procs u) = map calm (procs s) \<and> p_state (procs u ! p) = RUNNING \<and>
     holding lk u \<and> (\<forall>l. l \<noteq> lk \<longrightarrow> l_locked (locks u l) = 0)"

lemma crit_enter:
  assumes q: "quiet s p"
  shows "acquire lk s = Ok () (acquired lk s)" "crit s p lk (acquired lk s)"
proof -
  show "acquire lk s = Ok () (acquired lk s)" using acquire_ready [OF quiet_ready [OF q]] .
  have "holding lk (acquired lk s)" "\<And>l. l \<noteq> lk \<Longrightarrow> l_locked (locks (acquired lk s) l) = 0"
    using q by (auto simp: holding_def acquired_def quiet_def)
  then show "crit s p lk (acquired lk s)"
    using q quiet_RUNNING [OF q] quiet_table [OF q] by (simp add: crit_def)
qed

lemma crit_same:
  assumes "crit s p lk u" "cpus v = cpus u" "cur v = cur u" "mem v = mem u" "km_freelist v = km_freelist u"
    "procs v = procs u" "locks v = locks u" "table_ok v"
  shows "crit s p lk v"
  using assms by (simp add: crit_def holding_def)

lemma crit_release:
  assumes "crit s p lk u"
  shows "release lk u = Ok () (released lk u)" "quiet (released lk u) p" "stirred s (released lk u)"
  using quiet_section' [of s p u lk] assms by (simp_all add: crit_def)

lemma crit_proc: "crit s p lk u \<Longrightarrow> c_proc (the_cpu u) = Some p"
  using acquired_cpu(1) [OF quiet_cur, of s p lk] quiet_proc [of s p] by (simp add: crit_def the_cpu_def)

lemma crit_wakeup:
  assumes c: "crit s p lk u" and lk: "lk \<noteq> LPtable"
  shows "\<exists>w. wakeup ch u = Ok () w \<and> crit s p lk w \<and> sched_st.more w = sched_st.more u"
proof -
  let ?a = "acquired lk s"
  have q: "quiet s p" and u: "cpus u = cpus ?a" "cur u = cur s" "table_ok u" "holding lk u"
    "\<And>l. l \<noteq> lk \<Longrightarrow> l_locked (locks u l) = 0" using c by (simp_all add: crit_def)
  note a = acquired_cpu [OF quiet_cur [OF q], of lk]
  have ncli: "c_ncli (the_cpu s) = 0" using q by (auto simp: quiet_def)
  have cpu: "the_cpu u = the_cpu ?a" "cur u < length (cpus u)" using a u quiet_cur [OF q] by (simp_all add: the_cpu_def)
  have rdy: "lock_ready LPtable u" using a cpu ncli u lk by (simp add: lock_ready_def)
  obtain v where v: "wakeup ch u = Ok () (released LPtable v)" "table_ok v"
    "procs v = map (woken ch) (procs u)" "cpus v = cpus (acquired LPtable u)"
    "locks v = locks (acquired LPtable u)" "cur v = cur s"
    using wakeup_quiet [OF u(3) rdy, of ch] u by auto
  let ?w = "released LPtable v"
  have "cpus ?w = cpus u" using nested_cpus [OF cpu(2), of v LPtable] a cpu v ncli u by simp
  moreover have "holding lk ?w" "\<And>l. l \<noteq> lk \<Longrightarrow> l_locked (locks ?w l) = 0"
    using v u lk by (auto simp: holding_def released_def acquired_def)
  moreover have "p_state (procs ?w ! p) = RUNNING"
    using v(3) c table_ok_length [OF u(3)] q by (auto simp: woken_def quiet_def on_cpu_def crit_def)
  moreover have "map calm (procs ?w) = map calm (procs s)" using v(3) c by (simp add: crit_def comp_def)
  ultimately have "crit s p lk ?w" using c v wakeup_frame [OF v(1)] by (simp add: crit_def)
  then show ?thesis using v(1) wakeup_frame [OF v(1)] by blast
qed

text \<open>Going to sleep in a section gives the lock back and leaves the data the lock protects as it is.\<close>

lemma crit_sleep:
  assumes c: "crit s p lk u" and lk: "lk \<noteq> LPtable"
  shows "\<exists>t. sleep ch (Some lk) u = Stop Switch t \<and> sched_st.more t = sched_st.more u \<and> l_locked (locks t lk) = 0 \<and>
    procs t = (procs u)[p := (procs u ! p)\<lparr>p_chan := ch, p_state := SLEEPING\<rparr>]"
proof -
  let ?a = "acquired LPtable u" let ?r = "released lk ?a"
  let ?t = "?r\<lparr>procs := (procs u)[p := (procs u ! p)\<lparr>p_chan := ch, p_state := SLEEPING\<rparr>]\<rparr>"
  have q: "quiet s p" and u: "cpus u = cpus (acquired lk s)" "cur u = cur s" "table_ok u" "holding lk u"
    "\<And>l. l \<noteq> lk \<Longrightarrow> l_locked (locks u l) = 0" using c by (simp_all add: crit_def)
  note s = acquired_cpu [OF quiet_cur [OF q], of lk]
  have cpu: "the_cpu u = the_cpu (acquired lk s)" "cur u < length (cpus u)"
    using s u quiet_cur [OF q] by (simp_all add: the_cpu_def)
  have ncli: "c_ncli (the_cpu u) = 1" using s cpu q by (simp add: quiet_def)
  have p: "p < length (procs u)" "c_proc (the_cpu u) = Some p"
    using crit_proc [OF c] table_ok_length [OF u(3)] q by (auto simp: quiet_def on_cpu_def)
  have rdy: "lock_ready LPtable u" using s cpu ncli u lk by (simp add: lock_ready_def)
  note a = acquired_cpu [OF cpu(2), of LPtable]
  have h: "holding lk ?a" using u(4) lk by (simp add: holding_def acquired_def)
  have rel: "release lk ?a = Ok () ?r" using h a cpu ncli by (intro release_Ok) simp_all
  have r: "the_cpu ?r = (the_cpu ?a)\<lparr>c_ncli := 1, c_if := False\<rparr>" "holding LPtable ?r" "l_locked (locks ?r lk) = 0"
    using a cpu(2) ncli lk by (auto simp: released_def the_cpu_def holding_def)
  have "sleep ch (Some lk) u = Stop Switch ?t"
    using lk p r a acquire_ready [OF rdy] rel
    by (simp add: sleep_def sleep_steps_def exec_simps with_proc_def upd_proc_def sched_switch)
  then show ?thesis using r by auto
qed

text \<open>A critical section that changes \<open>u\<close> and wakes the sleepers of a channel before its release.\<close>

lemma quiet_wakeup_section:
  assumes q: "quiet s p" and lk: "lk \<noteq> LPtable"
    and u: "cpus u = cpus (acquired lk s)" "locks u = locks (acquired lk s)" "cur u = cur s" "table_ok u"
    "mem u = mem s" "km_freelist u = km_freelist s" "procs u = procs s"
  shows "\<exists>w. wakeup ch u = Ok () w \<and> release lk w = Ok () (released lk w) \<and> quiet (released lk w) p \<and>
    stirred s (released lk w) \<and> sched_st.more w = sched_st.more u"
proof -
  have "crit s p lk u" by (rule crit_same [OF crit_enter(2) [OF q, of lk]]) (use u in simp_all)
  from crit_wakeup [OF this lk, of ch] crit_release show ?thesis by blast
qed

lemma releasesleep_quiet:
  assumes q: "quiet s p"
  shows "\<exists>t. releasesleep lk s = Ok () t \<and> quiet t p \<and> stirred s t \<and>
    slocks t = (slocks s)(lk := (slocks s lk)\<lparr>sl_locked := 0, sl_pid := 0\<rparr>) \<and>
    slp_st.more t = slp_st.more s"
proof -
  let ?u = "(acquired (LSleep lk) s)\<lparr>slocks := (slocks s)(lk := (slocks s lk)\<lparr>sl_locked := 0, sl_pid := 0\<rparr>)\<rparr>"
  obtain w where w: "wakeup (Some (ChSleep lk)) ?u = Ok () w" "release (LSleep lk) w = Ok () (released (LSleep lk) w)"
    "quiet (released (LSleep lk) w) p" "stirred s (released (LSleep lk) w)" "sched_st.more w = sched_st.more ?u"
    using quiet_wakeup_section [OF q, of "LSleep lk" ?u "Some (ChSleep lk)"] quiet_table [OF q] by auto
  then show ?thesis using slp_of_more [OF w(5)] acquire_ready [OF quiet_ready [OF q]]
    by (simp add: releasesleep_def exec_simps upd_slock_def)
qed

end
