(* ===== verification/Bio.thy ===== *)
theory Bio
  imports Sleeplock
begin

text \<open>
  The buffer cache of \<open>bio.c\<close> over the in-memory disk of \<open>memide.c\<close>. A \<open>struct buf *\<close> is an index
  into \<open>bufs\<close>; index \<open>NBUF\<close> is \<open>bcache.head\<close>, and \<open>prev\<close>/\<open>next\<close> are the links of the circular
  list of buffers in the order of their last use. The two bits of \<open>b->flags\<close> are the fields
  \<open>b_valid\<close> and \<open>b_dirty\<close>. The disk is a byte array; block \<open>b\<close> starts at \<open>b * BSIZE\<close>.
\<close>

section \<open>Operations\<close>

definition BSIZE :: nat where "BSIZE = 512"
definition NBUF :: nat where "NBUF = 30"

record buf =
  b_valid :: bool
  b_dirty :: bool
  b_dev :: nat
  b_blockno :: nat
  b_refcnt :: nat
  b_prev :: nat
  b_next :: nat
  b_data :: memory

record bio_st = slp_st +
  bufs :: "buf list"
  memdisk :: memory
  disksize :: nat

definition upd_buf :: "nat \<Rightarrow> (buf \<Rightarrow> buf) \<Rightarrow> ('z bio_st_scheme, unit) cmd" where
  "upd_buf i f = modify (\<lambda>s. s\<lparr>bufs := (bufs s)[i := f (bufs s ! i)]\<rparr>)"

text \<open>\<open>memmove\<close> between two different objects.\<close>

definition copy_bytes :: "memory \<Rightarrow> nat \<Rightarrow> memory \<Rightarrow> nat \<Rightarrow> nat \<Rightarrow> memory" where
  "copy_bytes dst d src a n = (\<lambda>i. if d \<le> i \<and> i < d + n then src (a + (i - d)) else dst i)"

definition binit_body :: "nat \<Rightarrow> ('z bio_st_scheme, unit) cmd" where
  "binit_body b = run
     [withS (\<lambda>s. upd_buf b (\<lambda>x. x\<lparr>b_next := b_next (bufs s ! NBUF)\<rparr>)),
      upd_buf b (\<lambda>x. x\<lparr>b_prev := NBUF\<rparr>),
      initsleeplock (SBuf b) ''buffer'',
      withS (\<lambda>s. upd_buf (b_next (bufs s ! NBUF)) (\<lambda>x. x\<lparr>b_prev := b\<rparr>)),
      upd_buf NBUF (\<lambda>x. x\<lparr>b_next := b\<rparr>)]"

definition binit :: "('z bio_st_scheme, unit) cmd" where
  "binit = run
     [initlock LBcache ''bcache'',
      upd_buf NBUF (\<lambda>x. x\<lparr>b_prev := NBUF\<rparr>),
      upd_buf NBUF (\<lambda>x. x\<lparr>b_next := NBUF\<rparr>),
      forM [0..<NBUF] binit_body]"

text \<open>
  A walk along the links until the head or a buffer with the property; \<open>None\<close> when \<open>n\<close> steps
  were not enough. On a well-formed list \<open>NBUF + 1\<close> steps are; a list that never comes back to
  the head makes the C loop endless.
\<close>

primrec walk :: "nat \<Rightarrow> (buf \<Rightarrow> nat) \<Rightarrow> (buf \<Rightarrow> bool) \<Rightarrow> buf list \<Rightarrow> nat \<Rightarrow> nat option option" where
  "walk 0 nx P bs i = None"
| "walk (Suc n) nx P bs i = (if i = NBUF then Some None else if P (bs ! i) then Some (Some i)
     else walk n nx P bs (nx (bs ! i)))"

definition bget :: "nat \<Rightarrow> nat \<Rightarrow> ('z bio_st_scheme, nat) cmd" where
  "bget dev blockno = bnd (acquire LBcache) (\<lambda>_. withS (\<lambda>s.
     case walk (Suc NBUF) b_next (\<lambda>b. b_dev b = dev \<and> b_blockno b = blockno) (bufs s)
            (b_next (bufs s ! NBUF)) of
       None \<Rightarrow> stop_with Spin
     | Some (Some b) \<Rightarrow> andthen
         [upd_buf b (\<lambda>x. x\<lparr>b_refcnt := u32 (b_refcnt x + 1)\<rparr>), release LBcache, acquiresleep (SBuf b)] (ret b)
     | Some None \<Rightarrow>
       (case walk (Suc NBUF) b_prev (\<lambda>b. b_refcnt b = 0 \<and> \<not> b_dirty b) (bufs s)
               (b_prev (bufs s ! NBUF)) of
          None \<Rightarrow> stop_with Spin
        | Some (Some b) \<Rightarrow> andthen
            [upd_buf b (\<lambda>x. x\<lparr>b_dev := dev\<rparr>), upd_buf b (\<lambda>x. x\<lparr>b_blockno := blockno\<rparr>),
             upd_buf b (\<lambda>x. x\<lparr>b_valid := False, b_dirty := False\<rparr>), upd_buf b (\<lambda>x. x\<lparr>b_refcnt := 1\<rparr>),
             release LBcache, acquiresleep (SBuf b)] (ret b)
        | Some None \<Rightarrow> panic ''bget: no buffers'')))"

text \<open>\<open>memide.c\<close>\<close>

definition ideinit :: "memory \<Rightarrow> nat \<Rightarrow> ('z bio_st_scheme, unit) cmd" where
  "ideinit img nbytes = run
     [modify (\<lambda>s. s\<lparr>memdisk := img\<rparr>), modify (\<lambda>s. s\<lparr>disksize := nbytes div BSIZE\<rparr>)]"

definition iderw :: "nat \<Rightarrow> ('z bio_st_scheme, unit) cmd" where
  "iderw b = bnd (holdingsleep (SBuf b)) (\<lambda>h. run
     [panic_if (\<lambda>_. h = 0) ''iderw: buf not locked'',
      panic_if (\<lambda>s. b_valid (bufs s ! b) \<and> \<not> b_dirty (bufs s ! b)) ''iderw: nothing to do'',
      panic_if (\<lambda>s. b_dev (bufs s ! b) \<noteq> 1) ''iderw: request not for disk 1'',
      panic_if (\<lambda>s. disksize s \<le> b_blockno (bufs s ! b)) ''iderw: block out of range'',
      withS (\<lambda>s. let p = b_blockno (bufs s ! b) * BSIZE in
        if b_dirty (bufs s ! b) then run
          [upd_buf b (\<lambda>x. x\<lparr>b_dirty := False\<rparr>),
           modify (\<lambda>s. s\<lparr>memdisk := copy_bytes (memdisk s) p (b_data (bufs s ! b)) 0 BSIZE\<rparr>)]
        else upd_buf b (\<lambda>x. x\<lparr>b_data := copy_bytes (b_data x) 0 (memdisk s) p BSIZE\<rparr>)),
      upd_buf b (\<lambda>x. x\<lparr>b_valid := True\<rparr>)])"

definition bread :: "nat \<Rightarrow> nat \<Rightarrow> ('z bio_st_scheme, nat) cmd" where
  "bread dev blockno = bnd (bget dev blockno) (\<lambda>b.
     andthen [whenM (\<lambda>s. \<not> b_valid (bufs s ! b)) (iderw b)] (ret b))"

definition bwrite :: "nat \<Rightarrow> ('z bio_st_scheme, unit) cmd" where
  "bwrite b = bnd (holdingsleep (SBuf b)) (\<lambda>h. run
     [panic_if (\<lambda>_. h = 0) ''bwrite'',
      upd_buf b (\<lambda>x. x\<lparr>b_dirty := True\<rparr>),
      iderw b])"

definition brelse_move :: "nat \<Rightarrow> ('z bio_st_scheme, unit) cmd" where
  "brelse_move b = run
     [withS (\<lambda>s. upd_buf (b_next (bufs s ! b)) (\<lambda>x. x\<lparr>b_prev := b_prev (bufs s ! b)\<rparr>)),
      withS (\<lambda>s. upd_buf (b_prev (bufs s ! b)) (\<lambda>x. x\<lparr>b_next := b_next (bufs s ! b)\<rparr>)),
      withS (\<lambda>s. upd_buf b (\<lambda>x. x\<lparr>b_next := b_next (bufs s ! NBUF)\<rparr>)),
      upd_buf b (\<lambda>x. x\<lparr>b_prev := NBUF\<rparr>),
      withS (\<lambda>s. upd_buf (b_next (bufs s ! NBUF)) (\<lambda>x. x\<lparr>b_prev := b\<rparr>)),
      upd_buf NBUF (\<lambda>x. x\<lparr>b_next := b\<rparr>)]"

definition brelse :: "nat \<Rightarrow> ('z bio_st_scheme, unit) cmd" where
  "brelse b = bnd (holdingsleep (SBuf b)) (\<lambda>h. run
     [panic_if (\<lambda>_. h = 0) ''brelse'',
      releasesleep (SBuf b),
      acquire LBcache,
      upd_buf b (\<lambda>x. x\<lparr>b_refcnt := nat ((int (b_refcnt x) - 1) mod 2 ^ 32)\<rparr>),
      whenM (\<lambda>s. b_refcnt (bufs s ! b) = 0) (brelse_move b),
      release LBcache])"


section \<open>The list of buffers\<close>

text \<open>\<open>links n p xs\<close>: \<open>n\<close> and \<open>p\<close> lead from each element of \<open>xs\<close> to the next and back.\<close>

fun links :: "(nat \<Rightarrow> nat) \<Rightarrow> (nat \<Rightarrow> nat) \<Rightarrow> nat list \<Rightarrow> bool" where
  "links n p (x # y # zs) \<longleftrightarrow> n x = y \<and> p y = x \<and> links n p (y # zs)"
| "links n p _ \<longleftrightarrow> True"

definition nxt :: "buf list \<Rightarrow> nat \<Rightarrow> nat" where "nxt bs i = b_next (bs ! i)"
definition prv :: "buf list \<Rightarrow> nat \<Rightarrow> nat" where "prv bs i = b_prev (bs ! i)"

text \<open>\<open>ring bs xs\<close>: following \<open>next\<close> from the head visits the buffers in the order \<open>xs\<close>.\<close>

definition ring :: "buf list \<Rightarrow> nat list \<Rightarrow> bool" where
  "ring bs xs \<longleftrightarrow> length bs = Suc NBUF \<and> distinct xs \<and> set xs = {..<NBUF} \<and>
     links (nxt bs) (prv bs) (NBUF # xs @ [NBUF])"

lemma links_append: "links n p (xs @ y # zs) \<longleftrightarrow> links n p (xs @ [y]) \<and> links n p (y # zs)"
proof (induction xs)
  case (Cons x xs)
  then show ?case by (cases xs) auto
qed simp

lemma links_next: "a \<notin> set (butlast xs) \<Longrightarrow> links (n(a := b)) p xs = links n p xs"
  by (induction n p xs rule: links.induct) auto

lemma links_prev: "b \<notin> set (tl xs) \<Longrightarrow> links n (p(b := a)) xs = links n p xs"
  by (induction n p xs rule: links.induct) auto

lemma links_unlink:
  assumes "links n p (xs @ a # i # b # ys)" "a \<notin> set xs" "a \<notin> set (butlast (b # ys))"
    "b \<notin> set (tl (xs @ [a]))" "b \<notin> set ys"
  shows "links (n(a := b)) (p(b := a)) (xs @ a # b # ys)"
proof -
  have l: "links n p (xs @ [a])" "links n p (b # ys)"
    using iffD1 [OF links_append assms(1)] by simp_all
  have "links (n(a := b)) (p(b := a)) (xs @ [a])"
    using l(1) assms(2,4) by (subst links_next, simp, subst links_prev, simp_all)
  moreover have "links (n(a := b)) (p(b := a)) (b # ys)"
    using l(2) assms(3,5) by (subst links_next, simp, subst links_prev, simp_all)
  ultimately show ?thesis using iffD2 [OF links_append, of "n(a := b)" "p(b := a)" xs a "b # ys"] by simp
qed

lemma links_insert:
  assumes "links n p (h # b # ys)" "h \<notin> set (butlast (b # ys))" "b \<notin> set ys" "i \<noteq> h" "i \<notin> set (b # ys)"
  shows "links ((n(i := b))(h := i)) ((p(i := h))(b := i)) (h # i # b # ys)"
proof -
  have "links ((n(i := b))(h := i)) ((p(i := h))(b := i)) (b # ys)"
    using assms in_set_butlastD [of i "b # ys"]
    by (subst links_next, simp, subst links_next, blast, subst links_prev, simp, subst links_prev, simp_all)
  then show ?thesis using assms by simp
qed


definition set_next :: "nat \<Rightarrow> nat \<Rightarrow> buf list \<Rightarrow> buf list" where
  "set_next k v bs = bs[k := (bs ! k)\<lparr>b_next := v\<rparr>]"

definition set_prev :: "nat \<Rightarrow> nat \<Rightarrow> buf list \<Rightarrow> buf list" where
  "set_prev k v bs = bs[k := (bs ! k)\<lparr>b_prev := v\<rparr>]"

lemma set_link [simp]:
  "length (set_next k v bs) = length bs" "length (set_prev k v bs) = length bs"
  "k < length bs \<Longrightarrow> nxt (set_next k v bs) = (nxt bs)(k := v)" "nxt (set_prev k v bs) = nxt bs"
  "k < length bs \<Longrightarrow> prv (set_prev k v bs) = (prv bs)(k := v)" "prv (set_next k v bs) = prv bs"
  by (auto simp: set_next_def set_prev_def nxt_def prv_def nth_list_update' fun_eq_iff)

text \<open>Everything of a buffer but its links.\<close>

definition body :: "buf \<Rightarrow> bool \<times> bool \<times> nat \<times> nat \<times> nat \<times> memory" where
  "body x = (b_valid x, b_dirty x, b_dev x, b_blockno x, b_refcnt x, b_data x)"

lemma body_set_link [simp]: "body (set_next k v bs ! j) = body (bs ! j)" "body (set_prev k v bs ! j) = body (bs ! j)"
  by (auto simp: set_next_def set_prev_def nth_list_update' body_def)

definition to_front :: "nat \<Rightarrow> buf list \<Rightarrow> buf list" where
  "to_front i bs =
     (let bs1 = set_prev (nxt bs i) (prv bs i) bs; bs2 = set_next (prv bs1 i) (nxt bs1 i) bs1;
          bs3 = set_next i (nxt bs2 NBUF) bs2; bs4 = set_prev i NBUF bs3;
          bs5 = set_prev (nxt bs4 NBUF) i bs4 in set_next NBUF i bs5)"

lemma brelse_move_run: "brelse_move i s = Ok () (s\<lparr>bufs := to_front i (bufs s)\<rparr>)"
  by (simp add: brelse_move_def upd_buf_def exec_simps to_front_def Let_def set_next_def set_prev_def nxt_def prv_def)

lemma body_to_front [simp]: "body (to_front i bs ! j) = body (bs ! j)"
  by (simp add: to_front_def Let_def)

lemma ring_split:
  assumes "ring bs (us @ i # vs)"
  shows "nxt bs i = hd (vs @ [NBUF])" "prv bs i = last (NBUF # us)" "i < NBUF" "i \<notin> set us" "i \<notin> set vs"
    "set us \<subseteq> {..<NBUF}" "set vs \<subseteq> {..<NBUF}"
proof -
  have l: "links (nxt bs) (prv bs) ((NBUF # us) @ i # vs @ [NBUF])" and d: "distinct (us @ i # vs)"
    and st: "set (us @ i # vs) = {..<NBUF}"
    using assms by (simp_all add: ring_def)
  then show "i < NBUF" "i \<notin> set us" "i \<notin> set vs" "set us \<subseteq> {..<NBUF}" "set vs \<subseteq> {..<NBUF}" by auto
  note l' = iffD1 [OF links_append l]
  then show "nxt bs i = hd (vs @ [NBUF])" by (cases vs) auto
  have "NBUF # us = butlast (NBUF # us) @ [last (NBUF # us)]" by (rule append_butlast_last_id [symmetric]) simp
  then have "links (nxt bs) (prv bs) (butlast (NBUF # us) @ last (NBUF # us) # [i])"
    using l' by (metis append.assoc append_Cons append_Nil)
  from iffD1 [OF links_append this] show "prv bs i = last (NBUF # us)" by simp
qed

lemma ring_unlink:
  assumes r: "ring bs (us @ i # vs)"
  shows "links ((nxt bs)(prv bs i := nxt bs i)) ((prv bs)(nxt bs i := prv bs i)) (NBUF # us @ vs @ [NBUF])"
proof -
  let ?a = "last (NBUF # us)" let ?b = "hd (vs @ [NBUF])"
  note sp = ring_split [OF r]
  have d: "distinct us" "distinct vs" "set us \<inter> set vs = {}" using r by (auto simp: ring_def)
  have e: "NBUF # us = butlast (NBUF # us) @ [?a]" by (rule append_butlast_last_id [symmetric]) simp
  have f: "vs @ [NBUF] = ?b # tl (vs @ [NBUF])" by simp
  have "links (nxt bs) (prv bs) (butlast (NBUF # us) @ ?a # i # ?b # tl (vs @ [NBUF]))"
    using r e f unfolding ring_def by (metis append.assoc append_Cons append_Nil)
  moreover have "distinct (NBUF # us)" using d sp by auto
  then have "?a \<notin> set (butlast (NBUF # us))" using e by (metis distinct_append disjoint_iff list.set_intros(1))
  moreover have "?a \<in> set (NBUF # us)" by (rule last_in_set) simp
  then have "?a \<notin> set vs" using d sp by auto
  then have "?a \<notin> set (butlast (?b # tl (vs @ [NBUF])))" using f by (metis butlast_snoc)
  moreover have "?b \<notin> set us" using d sp by (cases vs) auto
  then have "?b \<notin> set (tl (butlast (NBUF # us) @ [?a]))" using e by (metis list.sel(3))
  moreover have "distinct (vs @ [NBUF])" using d sp by auto
  then have "?b \<notin> set (tl (vs @ [NBUF]))" using f by (metis distinct.simps(2))
  ultimately have "links ((nxt bs)(?a := ?b)) ((prv bs)(?b := ?a)) (butlast (NBUF # us) @ ?a # ?b # tl (vs @ [NBUF]))"
    by (rule links_unlink)
  then show ?thesis using e f sp by (metis append.assoc append_Cons append_Nil)
qed

lemma ring_to_front:
  assumes r: "ring bs (us @ i # vs)"
  shows "ring (to_front i bs) (i # us @ vs)"
proof -
  note sp = ring_split [OF r]
  have len: "length bs = Suc NBUF" and d: "distinct us" "distinct vs" "set us \<inter> set vs = {}"
    and st: "set (us @ i # vs) = {..<NBUF}" using r by (auto simp: ring_def)
  have "nxt bs i \<in> set (vs @ [NBUF])" "prv bs i \<in> set (NBUF # us)"
    unfolding sp(1,2) by (rule hd_in_set, simp, rule last_in_set, simp)
  then have b: "nxt bs i < length bs" "prv bs i < length bs" "nxt bs i \<noteq> i" "prv bs i \<noteq> i"
    using sp len by auto
  define n1 where "n1 = (nxt bs)(prv bs i := nxt bs i)"
  define p1 where "p1 = (prv bs)(nxt bs i := prv bs i)"
  obtain h ys where h: "us @ vs @ [NBUF] = h # ys" by (cases "us @ vs @ [NBUF]") auto
  have l: "links n1 p1 (NBUF # h # ys)" using ring_unlink [OF r] h by (simp add: n1_def p1_def)
  then have nh: "n1 NBUF = h" by simp
  have dis: "distinct (us @ vs @ [NBUF])" "i \<notin> set (us @ vs @ [NBUF])" using d sp by auto
  then have "h \<notin> set ys" "i \<notin> set (h # ys)" unfolding h by auto
  moreover have "NBUF \<notin> set (butlast (h # ys))" using h dis by (metis append.assoc butlast_snoc distinct_append
    disjoint_iff list.set_intros(1))
  ultimately have l2: "links ((n1(i := h))(NBUF := i)) ((p1(i := NBUF))(h := i)) (NBUF # i # h # ys)"
    using l sp by (intro links_insert) auto
  have hl: "h < length bs" using h sp len by (cases us; cases vs) auto
  have "nxt (to_front i bs) = (n1(i := h))(NBUF := i)" "prv (to_front i bs) = (p1(i := NBUF))(h := i)"
    using b len sp nh hl by (auto simp: to_front_def Let_def n1_def p1_def)
  then show ?thesis using l2 h len d sp st by (auto simp: ring_def to_front_def Let_def)
qed


text \<open>Walks along a well-formed list end within their fuel at the first match in list order.\<close>

lemma walk_links:
  assumes "links (\<lambda>i. nx (bs ! i)) g (xs @ [NBUF])" "NBUF \<notin> set xs" "length xs < n"
  shows "walk n nx P bs (hd (xs @ [NBUF])) = Some (find (\<lambda>i. P (bs ! i)) xs)"
  using assms
proof (induction xs arbitrary: n)
  case Nil
  then show ?case by (cases n) auto
next
  case (Cons x xs)
  then obtain m where n: "n = Suc m" by (cases n) auto
  have "nx (bs ! x) = hd (xs @ [NBUF])" "links (\<lambda>i. nx (bs ! i)) g (xs @ [NBUF])"
    using Cons.prems(1) by (cases xs; simp)+
  then show ?case using Cons n by simp
qed

lemma links_rev: "links n p xs \<Longrightarrow> links p n (rev xs)"
proof (induction n p xs rule: links.induct)
  case (1 n p x y zs)
  then have "links p n (rev zs @ [y])" "p y = x" "n x = y" by auto
  then show ?case using iffD2 [OF links_append, of p n "rev zs" y "[x]"] by simp
qed auto

lemma ring_length: "ring bs xs \<Longrightarrow> length xs = NBUF"
  using distinct_card [of xs] by (simp add: ring_def)

lemma walk_next:
  assumes "ring bs xs"
  shows "walk (Suc NBUF) b_next P bs (b_next (bs ! NBUF)) = Some (find (\<lambda>i. P (bs ! i)) xs)"
proof -
  have l: "links (nxt bs) (prv bs) (NBUF # xs @ [NBUF])" "NBUF \<notin> set xs" using assms by (auto simp: ring_def)
  then have "nxt bs NBUF = hd (xs @ [NBUF])" "links (nxt bs) (prv bs) (xs @ [NBUF])" by (cases xs; simp)+
  then show ?thesis using walk_links [of b_next bs "prv bs" xs "Suc NBUF" P] l ring_length [OF assms]
    by (simp add: nxt_def [abs_def])
qed

lemma walk_prev:
  assumes "ring bs xs"
  shows "walk (Suc NBUF) b_prev P bs (b_prev (bs ! NBUF)) = Some (find (\<lambda>i. P (bs ! i)) (rev xs))"
proof -
  have l: "links (nxt bs) (prv bs) (NBUF # xs @ [NBUF])" "NBUF \<notin> set xs" using assms by (auto simp: ring_def)
  have "links (prv bs) (nxt bs) (NBUF # rev xs @ [NBUF])" using links_rev [OF l(1)] by simp
  then have "prv bs NBUF = hd (rev xs @ [NBUF])" "links (prv bs) (nxt bs) (rev xs @ [NBUF])"
    by (cases "rev xs"; simp)+
  then show ?thesis using walk_links [of b_prev bs "nxt bs" "rev xs" "Suc NBUF" P] l ring_length [OF assms]
    by (simp add: prv_def [abs_def])
qed

lemma binit_body_bufs:
  "\<exists>t. binit_body i s = Ok () t \<and> bufs t =
     (let bs1 = set_prev i NBUF (set_next i (nxt (bufs s) NBUF) (bufs s));
          bs2 = set_prev (nxt bs1 NBUF) i bs1 in set_next NBUF i bs2)"
  by (simp add: binit_body_def upd_buf_def initsleeplock_def initlock_def upd_slock_def upd_lock_def exec_simps
    Let_def set_next_def set_prev_def nxt_def prv_def)

lemma binit_ring:
  assumes "length (bufs s) = Suc NBUF"
  shows "\<exists>t. binit s = Ok () t \<and> ring (bufs t) (rev [0..<NBUF])"
proof -
  let ?J = "\<lambda>i t. length (bufs t) = Suc NBUF \<and> links (nxt (bufs t)) (prv (bufs t)) (NBUF # rev [0..<i] @ [NBUF])"
  let ?s = "\<lambda>l. s\<lparr>locks := l, bufs := set_next NBUF NBUF (set_prev NBUF NBUF (bufs s))\<rparr>"
  have "\<exists>t. forM [0..<NBUF] binit_body (?s l) = Ok () t \<and> ?J NBUF t" for l
  proof (rule forM_upt_Ok [where J = ?J])
    fix i and t :: "'a bio_st_scheme"
    assume i: "i < NBUF" and J: "?J i t"
    obtain h ys where h: "rev [0..<i] @ [NBUF] = h # ys" by (cases "rev [0..<i] @ [NBUF]") auto
    have d: "distinct (h # ys)" "NBUF \<notin> set (butlast (h # ys))" "i \<notin> set (h # ys)" "set (h # ys) \<subseteq> {..NBUF}"
      using i unfolding h [symmetric] by (auto simp del: upt.simps)
    have l: "links ((nxt (bufs t))(i := h, NBUF := i)) ((prv (bufs t))(i := NBUF, h := i)) (NBUF # i # h # ys)"
      using J d i h by (intro links_insert) auto
    obtain u where u: "binit_body i t = Ok () u" "bufs u =
     (let bs1 = set_prev i NBUF (set_next i (nxt (bufs t) NBUF) (bufs t));
          bs2 = set_prev (nxt bs1 NBUF) i bs1 in set_next NBUF i bs2)" using binit_body_bufs by blast
    have "nxt (bufs t) NBUF = h" "h < Suc NBUF" using J h d by auto
    then have "nxt (bufs u) = (nxt (bufs t))(i := h, NBUF := i)" "prv (bufs u) = (prv (bufs t))(i := NBUF, h := i)"
      "length (bufs u) = Suc NBUF"
      using J i u(2) by (auto simp: Let_def)
    with u(1) l h show "\<exists>u. binit_body i t = Ok () u \<and> ?J (Suc i) u" by auto
  qed (use assms in simp)
  then obtain t where "forM [0..<NBUF] binit_body (?s ((locks s)(LBcache := (locks s LBcache)
      \<lparr>l_name := ''bcache'', l_locked := 0, l_cpu := None\<rparr>))) = Ok () t" "?J NBUF t" by blast
  then show ?thesis
    by (simp add: binit_def initlock_def upd_lock_def upd_buf_def exec_simps ring_def set_next_def set_prev_def
      lessThan_atLeast0)
qed


section \<open>Operations from quiet states\<close>

lemma bio_frame [simp]:
  "bufs (acquired lk s) = bufs s" "memdisk (acquired lk s) = memdisk s" "disksize (acquired lk s) = disksize s"
  "bio_st.more (acquired lk s) = bio_st.more s"
  "bufs (released lk s) = bufs s" "memdisk (released lk s) = memdisk s" "disksize (released lk s) = disksize s"
  "bio_st.more (released lk s) = bio_st.more s"
  by (simp_all add: acquired_def released_def)

lemma table_ok_bio [simp]: "table_ok (s\<lparr>bufs := x\<rparr>) = table_ok s" "table_ok (s\<lparr>memdisk := m\<rparr>) = table_ok s"
  by (simp_all add: table_ok_def sched_inv_defs)

lemma quiet_bio [simp]: "quiet (s\<lparr>bufs := x\<rparr>) p = quiet s p" "quiet (s\<lparr>memdisk := m\<rparr>) p = quiet s p"
  by (simp_all add: quiet_def on_cpu_def the_cpu_def)

lemma stirred_bio [simp]: "stirred s (t\<lparr>bufs := x\<rparr>) = stirred s t" "stirred s (t\<lparr>memdisk := m\<rparr>) = stirred s t"
  "stirred (s\<lparr>bufs := x\<rparr>) t = stirred s t" "stirred (s\<lparr>memdisk := m\<rparr>) t = stirred s t"
  by (simp_all add: stirred_def)

lemma bio_of_more:
  assumes "slp_st.more x = slp_st.more y"
  shows "bufs x = bufs y" "memdisk x = memdisk y" "disksize x = disksize y" "bio_st.more x = bio_st.more y"
  using assms by (cases x, cases y, simp)+

text \<open>The end of \<open>bget\<close>: the cache lock is given back and the sleep lock of the buffer taken.\<close>

lemma take_buf:
  assumes q: "quiet s p" and free: "sl_locked (slocks s (SBuf i)) = 0"
  shows "\<exists>r t pid. release LBcache ((acquired LBcache s)\<lparr>bufs := bs\<rparr>) = Ok () r \<and>
    acquiresleep (SBuf i) r = Ok () t \<and> quiet t p \<and> stirred s t \<and> bufs t = bs \<and> memdisk t = memdisk s \<and> disksize t = disksize s \<and>
    slocks t = (slocks s)(SBuf i := (slocks s (SBuf i))\<lparr>sl_locked := 1, sl_pid := pid\<rparr>) \<and>
    bio_st.more t = bio_st.more s"
proof -
  let ?u = "(acquired LBcache s)\<lparr>bufs := bs\<rparr>" let ?r = "released LBcache ?u"
  have r: "release LBcache ?u = Ok () ?r" "quiet ?r p" "stirred s ?r"
    using quiet_section [OF q, of ?u LBcache] quiet_RUNNING [OF q] quiet_table [OF q] by simp_all
  have "slocks ?r = slocks s" by simp
  then obtain t where t: "acquiresleep (SBuf i) ?r = Ok () t" "quiet t p" "stirred ?r t"
    "slocks t = (slocks s)(SBuf i := (slocks s (SBuf i))\<lparr>sl_locked := 1, sl_pid := p_pid (procs ?r ! p)\<rparr>)"
    "slp_st.more t = slp_st.more ?r"
    using acquiresleep_quiet [OF r(2), of "SBuf i"] free by auto
  note m = bio_of_more [OF t(5)]
  with r t m stirred_trans [OF r(3) t(3)] show ?thesis by auto
qed

lemma bget_hit:
  assumes q: "quiet s p" and r: "ring (bufs s) xs" and free: "sl_locked (slocks s (SBuf i)) = 0"
    and f: "find (\<lambda>i. b_dev (bufs s ! i) = dev \<and> b_blockno (bufs s ! i) = b) xs = Some i"
  shows "\<exists>t pid. bget dev b s = Ok i t \<and> quiet t p \<and> stirred s t \<and>
    bufs t = (bufs s)[i := (bufs s ! i)\<lparr>b_refcnt := u32 (b_refcnt (bufs s ! i) + 1)\<rparr>] \<and>
    memdisk t = memdisk s \<and> disksize t = disksize s \<and>
    slocks t = (slocks s)(SBuf i := (slocks s (SBuf i))\<lparr>sl_locked := 1, sl_pid := pid\<rparr>) \<and>
    bio_st.more t = bio_st.more s"
proof -
  note w = walk_next [OF r, of "\<lambda>x. b_dev x = dev \<and> b_blockno x = b", unfolded f]
  let ?bs = "(bufs s)[i := (bufs s ! i)\<lparr>b_refcnt := u32 (b_refcnt (bufs s ! i) + 1)\<rparr>]"
  obtain r t pid where t: "release LBcache ((acquired LBcache s)\<lparr>bufs := ?bs\<rparr>) = Ok () r"
    "acquiresleep (SBuf i) r = Ok () t" and post: "quiet t p \<and> stirred s t \<and> bufs t = ?bs \<and>
    memdisk t = memdisk s \<and> disksize t = disksize s \<and>
    slocks t = (slocks s)(SBuf i := (slocks s (SBuf i))\<lparr>sl_locked := 1, sl_pid := pid\<rparr>) \<and>
    bio_st.more t = bio_st.more s" using take_buf [OF q free, of ?bs] by blast
  have "bget dev b s = Ok i t" using w t acquire_ready [OF quiet_ready [OF q]]
    by (simp add: bget_def exec_simps upd_buf_def del: walk.simps)
  with post show ?thesis by blast
qed

lemma bget_miss:
  assumes q: "quiet s p" and r: "ring (bufs s) xs" and free: "sl_locked (slocks s (SBuf i)) = 0"
    and f: "find (\<lambda>i. b_dev (bufs s ! i) = dev \<and> b_blockno (bufs s ! i) = b) xs = None"
    and g: "find (\<lambda>i. b_refcnt (bufs s ! i) = 0 \<and> \<not> b_dirty (bufs s ! i)) (rev xs) = Some i"
  shows "\<exists>t pid. bget dev b s = Ok i t \<and> quiet t p \<and> stirred s t \<and>
    bufs t = (bufs s)[i := (bufs s ! i)\<lparr>b_dev := dev, b_blockno := b, b_valid := False, b_dirty := False,
      b_refcnt := 1\<rparr>] \<and>
    memdisk t = memdisk s \<and> disksize t = disksize s \<and>
    slocks t = (slocks s)(SBuf i := (slocks s (SBuf i))\<lparr>sl_locked := 1, sl_pid := pid\<rparr>) \<and>
    bio_st.more t = bio_st.more s"
proof -
  note w = walk_next [OF r, of "\<lambda>x. b_dev x = dev \<and> b_blockno x = b", unfolded f]
  note v = walk_prev [OF r, of "\<lambda>x. b_refcnt x = 0 \<and> \<not> b_dirty x", unfolded g]
  have i: "i < length (bufs s)" using g r by (auto simp: find_Some_iff ring_def) (metis length_rev less_SucI lessThan_iff nth_mem set_rev)
  let ?bs = "(bufs s)[i := (bufs s ! i)\<lparr>b_dev := dev, b_blockno := b, b_valid := False,
     b_dirty := False, b_refcnt := 1\<rparr>]"
  obtain r t pid where t: "release LBcache ((acquired LBcache s)\<lparr>bufs := ?bs\<rparr>) = Ok () r"
    "acquiresleep (SBuf i) r = Ok () t" and post: "quiet t p \<and> stirred s t \<and> bufs t = ?bs \<and>
    memdisk t = memdisk s \<and> disksize t = disksize s \<and>
    slocks t = (slocks s)(SBuf i := (slocks s (SBuf i))\<lparr>sl_locked := 1, sl_pid := pid\<rparr>) \<and>
    bio_st.more t = bio_st.more s" using take_buf [OF q free, of ?bs] by blast
  have "bget dev b s = Ok i t" using w v i t acquire_ready [OF quiet_ready [OF q]]
    by (simp add: bget_def exec_simps upd_buf_def del: walk.simps)
  with post show ?thesis by blast
qed


section \<open>The cache invariant and the logical disk\<close>

text \<open>
  \<open>content s b\<close> is the logical content of block \<open>b\<close> of disk 1: that of the valid buffer that
  holds it, if there is one, and that of the disk otherwise.
\<close>

definition on_disk :: "'z bio_st_scheme \<Rightarrow> nat \<Rightarrow> memory" where
  "on_disk s b = (\<lambda>k. if k < BSIZE then memdisk s (b * BSIZE + k) else 0)"

definition blk :: "memory \<Rightarrow> memory" where
  "blk d = (\<lambda>k. if k < BSIZE then d k else 0)"

definition cached :: "'z bio_st_scheme \<Rightarrow> nat \<Rightarrow> nat \<Rightarrow> bool" where
  "cached s b i \<longleftrightarrow> i < NBUF \<and> b_dev (bufs s ! i) = 1 \<and> b_blockno (bufs s ! i) = b"

definition content :: "'z bio_st_scheme \<Rightarrow> nat \<Rightarrow> memory" where
  "content s b = (case find (\<lambda>i. cached s b i \<and> b_valid (bufs s ! i)) [0..<NBUF] of
     Some i \<Rightarrow> blk (b_data (bufs s ! i)) | None \<Rightarrow> on_disk s b)"

definition locked :: "'z slp_st_scheme \<Rightarrow> nat \<Rightarrow> bool" where
  "locked s i \<longleftrightarrow> sl_locked (slocks s (SBuf i)) \<noteq> 0"

text \<open>
  A dirty buffer is valid, a valid one caches a block of the disk, and one that is valid, clean
  and not in use by anybody agrees with the disk. A locked buffer is referenced.
\<close>

definition buf_ok :: "'z bio_st_scheme \<Rightarrow> nat \<Rightarrow> bool" where
  "buf_ok s i \<longleftrightarrow> (let x = bufs s ! i in
     (b_dirty x \<longrightarrow> b_valid x) \<and> (b_valid x \<longrightarrow> b_dev x = 1 \<and> b_blockno x < disksize s) \<and>
     (b_valid x \<and> \<not> b_dirty x \<and> \<not> locked s i \<longrightarrow> blk (b_data x) = on_disk s (b_blockno x)) \<and>
     (locked s i \<longrightarrow> 0 < b_refcnt x) \<and> b_refcnt x \<le> 2 ^ 31 + (if locked s i then 1 else 0))"

definition bc_ok :: "'z bio_st_scheme \<Rightarrow> bool" where
  "bc_ok s \<longleftrightarrow> (\<exists>xs. ring (bufs s) xs) \<and> (\<forall>b i j. cached s b i \<and> cached s b j \<longrightarrow> i = j) \<and>
     (\<forall>i<NBUF. buf_ok s i)"

text \<open>The buffers that can be recycled.\<close>

definition avail :: "'z bio_st_scheme \<Rightarrow> nat set" where
  "avail s = {i. i < NBUF \<and> b_refcnt (bufs s ! i) = 0 \<and> \<not> b_dirty (bufs s ! i)}"

lemma content_cached:
  assumes "bc_ok s" "cached s b i" "b_valid (bufs s ! i)"
  shows "content s b = blk (b_data (bufs s ! i))"
proof -
  have i: "i < NBUF" using assms(2) by (simp add: cached_def)
  have "\<not> cached s b j" if "j < i" for j using assms(1,2) that unfolding bc_ok_def by blast
  then have "find (\<lambda>i. cached s b i \<and> b_valid (bufs s ! i)) [0..<NBUF] = Some i"
    unfolding find_Some_iff using i assms(2,3) by (intro exI [of _ i]) simp
  then show ?thesis by (simp add: content_def)
qed

lemma content_uncached:
  assumes "\<And>i. cached s b i \<Longrightarrow> \<not> b_valid (bufs s ! i)"
  shows "content s b = on_disk s b"
proof -
  have "find (\<lambda>i. cached s b i \<and> b_valid (bufs s ! i)) [0..<NBUF] = None"
    using assms by (auto simp: find_None_iff)
  then show ?thesis by (simp add: content_def)
qed

lemma content_eqI:
  assumes "bc_ok s" "bc_ok t"
    and "\<And>i. cached s b i \<Longrightarrow> b_valid (bufs s ! i) \<Longrightarrow> content t b = blk (b_data (bufs s ! i))"
    and "(\<And>i. cached s b i \<Longrightarrow> \<not> b_valid (bufs s ! i)) \<Longrightarrow> content t b = on_disk s b"
  shows "content t b = content s b"
proof (cases "\<exists>i. cached s b i \<and> b_valid (bufs s ! i)")
  case True
  then obtain i where "cached s b i" "b_valid (bufs s ! i)" by blast
  then show ?thesis using assms(3) content_cached [OF assms(1)] by simp
next
  case False
  then show ?thesis using assms(4) content_uncached [of s b] by auto
qed

text \<open>
  A change of one buffer \<open>i\<close> only: the invariant has to be checked for it alone.
\<close>

lemma bc_ok_upd:
  assumes ok: "bc_ok s" and i: "i < NBUF" and bs: "bufs t = (bufs s)[i := x]"
    and lnk: "b_next x = b_next (bufs s ! i)" "b_prev x = b_prev (bufs s ! i)"
    and sl: "\<And>j. j \<noteq> i \<Longrightarrow> slocks t (SBuf j) = slocks s (SBuf j)"
    and dsk: "memdisk t = memdisk s" "disksize t = disksize s"
    and uniq: "\<And>j. b_dev x = 1 \<Longrightarrow> cached s (b_blockno x) j \<Longrightarrow> j = i"
    and x: "buf_ok t i"
  shows "bc_ok t"
proof -
  from ok obtain xs where r: "ring (bufs s) xs" by (auto simp: bc_ok_def)
  then have len: "length (bufs s) = Suc NBUF" by (simp add: ring_def)
  have "nxt (bufs t) = nxt (bufs s)" "prv (bufs t) = prv (bufs s)" using bs lnk
    by (auto simp: nxt_def prv_def fun_eq_iff nth_list_update')
  then have ring: "ring (bufs t) xs" using r bs by (simp add: ring_def)
  have nth: "bufs t ! j = (if j = i then x else bufs s ! j)" if "j < NBUF" for j
    using bs that len by (simp add: nth_list_update')
  have c: "cached t b j \<longleftrightarrow> (if j = i then b_dev x = 1 \<and> b_blockno x = b else cached s b j)" for b j
    using nth i by (auto simp: cached_def)
  have u: "j = k" if "cached s b j" "cached s b k" for b j k using ok that unfolding bc_ok_def by blast
  have xi: "k = i" if "b_dev x = 1 \<and> b_blockno x = b" "cached s b k" for b k
    using uniq [of k] that by simp
  have "j = k" if "cached t b j" "cached t b k" for b j k
  proof (cases "j = i")
    case True
    then show ?thesis using that xi [of b k] by (cases "k = i") (simp_all add: c)
  next
    case False
    then show ?thesis using that xi [of b j] u [of b j k] by (cases "k = i") (simp_all add: c)
  qed
  moreover note ring
  moreover have "buf_ok t j" if "j < NBUF" for j
  proof (cases "j = i")
    case False
    then have "buf_ok s j" using ok that by (simp add: bc_ok_def)
    moreover have "locked t j = locked s j" "on_disk t = on_disk s" "bufs t ! j = bufs s ! j"
      using False that nth sl dsk by (simp_all add: locked_def on_disk_def fun_eq_iff)
    ultimately show ?thesis using dsk by (simp add: buf_ok_def)
  qed (use x in simp)
  ultimately show ?thesis unfolding bc_ok_def by blast
qed


lemma ring_nth_upd [simp]: "ring bs xs \<Longrightarrow> j < NBUF \<Longrightarrow> bs[i := x] ! j = (if j = i then x else bs ! j)"
  by (auto simp: ring_def nth_list_update')

lemma find_ring:
  assumes "ring bs xs"
  shows "find P xs = None \<longleftrightarrow> (\<forall>i<NBUF. \<not> P i)" "find P xs = Some i \<Longrightarrow> i < NBUF \<and> P i"
    "find P (rev xs) = None \<longleftrightarrow> (\<forall>i<NBUF. \<not> P i)" "find P (rev xs) = Some i \<Longrightarrow> i < NBUF \<and> P i"
proof -
  have st: "set xs = {..<NBUF}" using assms by (simp add: ring_def)
  then show "find P xs = None \<longleftrightarrow> (\<forall>i<NBUF. \<not> P i)" "find P (rev xs) = None \<longleftrightarrow> (\<forall>i<NBUF. \<not> P i)"
    by (auto simp: find_None_iff)
  have "i \<in> set ys \<and> P i" if "find P ys = Some i" for ys
    using that by (auto simp: find_Some_iff)
  then show "find P xs = Some i \<Longrightarrow> i < NBUF \<and> P i" "find P (rev xs) = Some i \<Longrightarrow> i < NBUF \<and> P i"
    using st by (metis lessThan_iff, metis lessThan_iff set_rev)
qed

text \<open>
  \<open>frame s t\<close>: what \<open>bread\<close> and \<open>brelse\<close> never change: the disk and everything above the cache.
\<close>

definition frame :: "nat \<Rightarrow> 'z bio_st_scheme \<Rightarrow> 'z bio_st_scheme \<Rightarrow> bool" where
  "frame p s t \<longleftrightarrow> quiet t p \<and> stirred s t \<and> memdisk t = memdisk s \<and> disksize t = disksize s \<and>
     bio_st.more t = bio_st.more s"

lemma frame_refl: "quiet s p \<Longrightarrow> frame p s s"
  by (simp add: frame_def)

lemma frame_trans [trans]: "frame p s t \<Longrightarrow> frame p t u \<Longrightarrow> frame p s u"
  unfolding frame_def using stirred_trans by metis

text \<open>Reading a block that is valid in the cache, or from the disk.\<close>

lemma iderw_read:
  assumes q: "quiet s p" and i: "i < length (bufs s)" and b: "\<not> b_valid (bufs s ! i)" "\<not> b_dirty (bufs s ! i)"
    "b_dev (bufs s ! i) = 1" "b_blockno (bufs s ! i) < disksize s" and l: "locked s i"
  shows "\<exists>t. iderw i s = Ok () t \<and> frame p s t \<and> slocks t = slocks s \<and> bufs t = (bufs s)[i := (bufs s ! i)
      \<lparr>b_data := copy_bytes (b_data (bufs s ! i)) 0 (memdisk s) (b_blockno (bufs s ! i) * BSIZE) BSIZE,
       b_valid := True\<rparr>]"
proof -
  obtain u where u: "holdingsleep (SBuf i) s = Ok (sl_locked (slocks s (SBuf i))) u" "quiet u p" "stirred s u"
    "slocks u = slocks s" "slp_st.more u = slp_st.more s" using holdingsleep_quiet [OF q] by blast
  note m = bio_of_more [OF u(5)]
  let ?t = "u\<lparr>bufs := (bufs s)[i := (bufs s ! i)
      \<lparr>b_data := copy_bytes (b_data (bufs s ! i)) 0 (memdisk s) (b_blockno (bufs s ! i) * BSIZE) BSIZE,
       b_valid := True\<rparr>]\<rparr>"
  have "iderw i s = Ok () ?t" using u m i b l
    by (simp add: iderw_def exec_simps upd_buf_def Let_def locked_def)
  moreover have "frame p s ?t" using u m by (simp add: frame_def)
  ultimately show ?thesis using u m by auto
qed

lemma iderw_write:
  assumes q: "quiet s p" and i: "i < length (bufs s)" and b: "b_dirty (bufs s ! i)"
    "b_dev (bufs s ! i) = 1" "b_blockno (bufs s ! i) < disksize s" and l: "locked s i"
  shows "\<exists>t. iderw i s = Ok () t \<and> quiet t p \<and> stirred s t \<and> slocks t = slocks s \<and>
    bufs t = (bufs s)[i := (bufs s ! i)\<lparr>b_dirty := False, b_valid := True\<rparr>] \<and>
    memdisk t = copy_bytes (memdisk s) (b_blockno (bufs s ! i) * BSIZE) (b_data (bufs s ! i)) 0 BSIZE \<and>
    disksize t = disksize s \<and> bio_st.more t = bio_st.more s"
proof -
  obtain u where u: "holdingsleep (SBuf i) s = Ok (sl_locked (slocks s (SBuf i))) u" "quiet u p" "stirred s u"
    "slocks u = slocks s" "slp_st.more u = slp_st.more s" using holdingsleep_quiet [OF q] by blast
  note m = bio_of_more [OF u(5)]
  let ?t = "u\<lparr>bufs := (bufs s)[i := (bufs s ! i)\<lparr>b_dirty := False, b_valid := True\<rparr>],
    memdisk := copy_bytes (memdisk s) (b_blockno (bufs s ! i) * BSIZE) (b_data (bufs s ! i)) 0 BSIZE\<rparr>"
  have "iderw i s = Ok () ?t" using u m i b l
    by (simp add: iderw_def exec_simps upd_buf_def Let_def locked_def)
  then show ?thesis using u m by auto
qed


definition sole :: "'z bio_st_scheme \<Rightarrow> nat \<Rightarrow> nat \<Rightarrow> bool" where
  "sole s b i \<longleftrightarrow> (\<forall>j. cached s b j \<longrightarrow> j = i)"

text \<open>\<open>grabbed s b i x\<close>: buffer \<open>i\<close> of \<open>s\<close>, nobody's so far, has become \<open>x\<close>, which stands for block \<open>b\<close>.\<close>

definition grabbed :: "'z bio_st_scheme \<Rightarrow> nat \<Rightarrow> nat \<Rightarrow> buf \<Rightarrow> bool" where
  "grabbed s b i x \<longleftrightarrow> i < NBUF \<and> \<not> locked s i \<and> sole s b i \<and>
     b_next x = b_next (bufs s ! i) \<and> b_prev x = b_prev (bufs s ! i) \<and> b_dev x = 1 \<and> b_blockno x = b \<and>
     b_refcnt x = b_refcnt (bufs s ! i) + 1 \<and> b_refcnt x \<le> 2 ^ 31 + 1 \<and> b_dirty x = b_dirty (bufs s ! i) \<and>
     b_data x = b_data (bufs s ! i) \<and>
     (if cached s b i then b_valid x = b_valid (bufs s ! i) else \<not> b_valid x \<and> \<not> b_dirty x)"

lemma bget_run:
  assumes q: "quiet s p" and ok: "bc_ok s" and free: "\<And>i. cached s b i \<Longrightarrow> \<not> locked s i"
    and av: "(\<exists>i. cached s b i) \<or> avail s \<noteq> {}"
  shows "\<exists>i t x. bget 1 b s = Ok i t \<and> grabbed s b i x \<and> frame p s t \<and> bufs t = (bufs s)[i := x] \<and>
    locked t i \<and> (\<forall>l. l \<noteq> SBuf i \<longrightarrow> slocks t l = slocks s l)"
proof -
  from ok obtain xs where r: "ring (bufs s) xs" by (auto simp: bc_ok_def)
  let ?P = "\<lambda>i. b_dev (bufs s ! i) = 1 \<and> b_blockno (bufs s ! i) = b"
  have uniq: "j = i" if "cached s b i" "cached s b j" for i j using ok that unfolding bc_ok_def by blast
  have bok: "buf_ok s i" if "i < NBUF" for i using ok that by (simp add: bc_ok_def)
  show ?thesis
  proof (cases "find ?P xs")
    case (Some i)
    then have c: "cached s b i" using find_ring(2) [OF r Some] by (simp add: cached_def)
    then have i: "i < NBUF" and l: "\<not> locked s i" using free by (auto simp: cached_def)
    let ?x = "(bufs s ! i)\<lparr>b_refcnt := u32 (b_refcnt (bufs s ! i) + 1)\<rparr>"
    have "b_refcnt (bufs s ! i) \<le> 2 ^ 31" using bok [OF i] l by (simp add: buf_ok_def Let_def)
    then have "b_refcnt ?x = b_refcnt (bufs s ! i) + 1" by (simp add: u32_def)
    moreover have "b_dev ?x = 1" "b_blockno ?x = b" using c by (simp_all add: cached_def)
    moreover have "sole s b i" unfolding sole_def using uniq [OF c] by blast
    ultimately have "grabbed s b i ?x" using i l c \<open>b_refcnt (bufs s ! i) \<le> 2 ^ 31\<close>
      by (simp add: grabbed_def)
    moreover obtain t pid where "bget 1 b s = Ok i t" "quiet t p" "stirred s t" "bufs t = (bufs s)[i := ?x]"
      "memdisk t = memdisk s" "disksize t = disksize s"
      "slocks t = (slocks s)(SBuf i := (slocks s (SBuf i))\<lparr>sl_locked := 1, sl_pid := pid\<rparr>)"
      "bio_st.more t = bio_st.more s"
      using bget_hit [OF q r _ Some] l by (auto simp: locked_def)
    ultimately show ?thesis by (intro exI [of _ i] exI [of _ t] exI [of _ ?x]) (simp add: frame_def locked_def)
  next
    case None
    then have nc: "\<not> cached s b j" for j using find_ring(1) [OF r] by (auto simp: cached_def)
    obtain i where f: "find (\<lambda>i. b_refcnt (bufs s ! i) = 0 \<and> \<not> b_dirty (bufs s ! i)) (rev xs) = Some i"
      using av nc find_ring(3) [OF r, of "\<lambda>i. b_refcnt (bufs s ! i) = 0 \<and> \<not> b_dirty (bufs s ! i)"]
      by (auto simp: avail_def)
    then have i: "i < NBUF" "b_refcnt (bufs s ! i) = 0" "\<not> b_dirty (bufs s ! i)" using find_ring(4) [OF r f] by auto
    then have l: "\<not> locked s i" using bok [OF i(1)] by (auto simp: buf_ok_def Let_def)
    let ?x = "(bufs s ! i)\<lparr>b_dev := 1, b_blockno := b, b_valid := False, b_dirty := False, b_refcnt := 1\<rparr>"
    have "grabbed s b i ?x" using i l nc by (simp add: grabbed_def sole_def)
    moreover obtain t pid where "bget 1 b s = Ok i t" "quiet t p" "stirred s t" "bufs t = (bufs s)[i := ?x]"
      "memdisk t = memdisk s" "disksize t = disksize s"
      "slocks t = (slocks s)(SBuf i := (slocks s (SBuf i))\<lparr>sl_locked := 1, sl_pid := pid\<rparr>)"
      "bio_st.more t = bio_st.more s"
      using bget_miss [OF q r _ None f] l by (auto simp: locked_def)
    ultimately show ?thesis by (intro exI [of _ i] exI [of _ t] exI [of _ ?x]) (simp add: frame_def locked_def)
  qed
qed


text \<open>
  What \<open>bread\<close> guarantees: buffer \<open>i\<close> is locked, valid and has the logical content of block \<open>b\<close>;
  nothing changed logically.
\<close>

definition got :: "nat \<Rightarrow> 'z bio_st_scheme \<Rightarrow> nat \<Rightarrow> nat \<Rightarrow> 'z bio_st_scheme \<Rightarrow> bool" where
  "got p s b i t \<longleftrightarrow> frame p s t \<and> bc_ok t \<and> cached t b i \<and> b_valid (bufs t ! i) \<and> locked t i \<and> \<not> locked s i \<and>
     blk (b_data (bufs t ! i)) = content s b \<and> content t = content s \<and>
     (\<forall>j<NBUF. j \<noteq> i \<longrightarrow> bufs t ! j = bufs s ! j) \<and> (\<forall>l. l \<noteq> SBuf i \<longrightarrow> slocks t l = slocks s l) \<and>
     b_dirty (bufs t ! i) = b_dirty (bufs s ! i) \<and> b_refcnt (bufs t ! i) = b_refcnt (bufs s ! i) + 1 \<and>
     avail t = avail s - {i} \<and> (b_dirty (bufs s ! i) \<longrightarrow> cached s b i) \<and>
     (b_dirty (bufs t ! i) \<or> content s b = on_disk s b)"

lemma bc_okD: "bc_ok s \<Longrightarrow> i < NBUF \<Longrightarrow> buf_ok s i"
  unfolding bc_ok_def by blast

lemma bc_ok_sole: "bc_ok s \<Longrightarrow> cached s b i \<Longrightarrow> sole s b i"
  unfolding bc_ok_def sole_def by blast

lemma bc_ok_ring: "bc_ok s \<Longrightarrow> \<exists>xs. ring (bufs s) xs"
  unfolding bc_ok_def by blast

lemma content_grabbed:
  assumes ok: "bc_ok s" "bc_ok t" and g: "grabbed s b i x" and bs: "bufs t = (bufs s)[i := y]"
    and y: "b_valid y" "b_dev y = 1" "b_blockno y = b" "blk (b_data y) = content s b"
    and dsk: "memdisk t = memdisk s"
  shows "content t = content s"
proof
  fix b'
  from ok(1) obtain xs where r: "ring (bufs s) xs" by (auto simp: bc_ok_def)
  have i: "i < NBUF" using g by (simp add: grabbed_def)
  have nth: "bufs t ! j = (if j = i then y else bufs s ! j)" if "j < NBUF" for j
    using that r by (simp add: bs)
  have od: "on_disk t = on_disk s" using dsk by (simp add: on_disk_def fun_eq_iff)
  show "content t b' = content s b'"
  proof (cases "b' = b")
    case True
    have "cached t b i" "b_valid (bufs t ! i)" using i y nth by (simp_all add: cached_def)
    from content_cached [OF ok(2) this] show ?thesis using True nth i y by simp
  next
    case False
    have ct: "cached t b' j \<longleftrightarrow> j \<noteq> i \<and> cached s b' j" for j
      using nth False y by (cases "j = i") (auto simp: cached_def)
    show ?thesis
    proof (rule content_eqI [OF ok])
      fix j assume j: "cached s b' j" "b_valid (bufs s ! j)"
      show "content t b' = blk (b_data (bufs s ! j))"
      proof (cases "j = i")
        case False
        then have "cached t b' j" "bufs t ! j = bufs s ! j" using j ct nth by (auto simp: cached_def)
        then show ?thesis using content_cached [OF ok(2)] j by simp
      next
        case True
        have nc: "\<not> cached s b i" using j True False by (auto simp: cached_def)
        have "j' = i" if "cached s b' j'" for j' using ok(1) that j True unfolding bc_ok_def by blast
        then have "content t b' = on_disk s b'" using od ct by (subst content_uncached) auto
        moreover have "blk (b_data (bufs s ! i)) = on_disk s b'"
          using g nc bc_okD [OF ok(1) i] j True by (auto simp: grabbed_def buf_ok_def Let_def cached_def)
        ultimately show ?thesis using True by simp
      qed
    next
      assume n: "\<And>j. cached s b' j \<Longrightarrow> \<not> b_valid (bufs s ! j)"
      have "\<not> b_valid (bufs t ! j)" if "cached t b' j" for j
      proof -
        have "cached s b' j" "j \<noteq> i" "j < NBUF" using that ct by (auto simp: cached_def)
        then show ?thesis using n nth [of j] by simp
      qed
      then show "content t b' = on_disk s b'" using content_uncached [of t b'] od by simp
    qed
  qed
qed

lemma got_grabbed:
  assumes ok: "bc_ok s" and g: "grabbed s b i x" and f: "frame p s t" and bs: "bufs t = (bufs s)[i := y]"
    and y: "b_valid y" "b_dev y = 1" "b_blockno y = b" "blk (b_data y) = content s b" "b_next y = b_next x"
      "b_prev y = b_prev x" "b_refcnt y = b_refcnt x" "b_dirty y = b_dirty x"
      "b_dirty y \<or> content s b = on_disk s b"
    and l: "locked t i" "\<And>l. l \<noteq> SBuf i \<Longrightarrow> slocks t l = slocks s l" and b: "b < disksize s"
  shows "got p s b i t"
proof -
  from ok obtain xs where r: "ring (bufs s) xs" by (auto simp: bc_ok_def)
  have i: "i < NBUF" and sole: "sole s b i" using g by (simp_all add: grabbed_def)
  have nth: "bufs t ! j = (if j = i then y else bufs s ! j)" if "j < NBUF" for j
    using that r by (simp add: bs)
  have dsk: "memdisk t = memdisk s" "disksize t = disksize s" using f by (simp_all add: frame_def)
  have "buf_ok t i" using y g l(1) b dsk nth [OF i] by (simp add: buf_ok_def grabbed_def)
  then have ok': "bc_ok t"
    using y g l(2) dsk sole by (intro bc_ok_upd [OF ok i bs]) (auto simp: grabbed_def sole_def)
  moreover have "cached t b i" using y nth [OF i] i by (simp add: cached_def)
  moreover have "0 < b_refcnt y" using y(7) g by (simp add: grabbed_def)
  then have "avail t = avail s - {i}" using nth by (auto simp: avail_def split: if_splits)
  ultimately show ?thesis using f y l g nth i content_grabbed [OF ok ok' g bs y(1-4) dsk(1)]
    by (auto simp: got_def grabbed_def split: if_splits)
qed


lemma bread_run:
  assumes q: "quiet s p" and ok: "bc_ok s" and b: "b < disksize s"
    and free: "\<And>i. cached s b i \<Longrightarrow> \<not> locked s i" and av: "(\<exists>i. cached s b i) \<or> avail s \<noteq> {}"
  shows "\<exists>i t. bread 1 b s = Ok i t \<and> got p s b i t"
proof -
  obtain i t x where t: "bget 1 b s = Ok i t" "grabbed s b i x" "frame p s t" "bufs t = (bufs s)[i := x]"
    "locked t i" "\<forall>l. l \<noteq> SBuf i \<longrightarrow> slocks t l = slocks s l" using bget_run [OF q ok free av] by blast
  from bc_ok_ring [OF ok] obtain xs where r: "ring (bufs s) xs" by blast
  have i: "i < NBUF" and sole: "sole s b i" using t(2) by (simp_all add: grabbed_def)
  have x: "bufs t ! i = x" "i < length (bufs t)" using t(4) r i by (simp_all add: ring_def)
  note bok = bc_okD [OF ok i]
  show ?thesis
  proof (cases "b_valid x")
    case True
    then have c: "cached s b i" "b_valid (bufs s ! i)" using t(2) by (auto simp: grabbed_def split: if_splits)
    have "got p s b i t"
      using t True content_cached [OF ok c] bok c b
      by (intro got_grabbed [OF ok t(2,3,4)]) (auto simp: grabbed_def buf_ok_def Let_def cached_def)
    then show ?thesis using t(1) True x by (simp add: bread_def exec_simps)
  next
    case False
    have nd: "\<not> b_dirty x" using t(2) False bok by (auto simp: grabbed_def buf_ok_def Let_def split: if_splits)
    have "\<not> b_valid (bufs s ! j)" if "cached s b j" for j
    proof -
      have "j = i" using that sole by (simp add: sole_def)
      then show ?thesis using that t(2) False by (simp add: grabbed_def)
    qed
    then have od: "content s b = on_disk s b" by (rule content_uncached)
    have m: "quiet t p" "memdisk t = memdisk s" "disksize t = disksize s" using t(3) by (simp_all add: frame_def)
    let ?y = "x\<lparr>b_data := copy_bytes (b_data x) 0 (memdisk s) (b * BSIZE) BSIZE, b_valid := True\<rparr>"
    have g: "b_dev x = 1" "b_blockno x = b" using t(2) by (simp_all add: grabbed_def)
    obtain u where u: "iderw i t = Ok () u" "frame p t u" "slocks u = slocks t" "bufs u = (bufs t)[i := ?y]"
      using iderw_read [OF m(1) x(2)] False nd g m b t(5) unfolding x(1) by auto
    have "blk (b_data ?y) = content s b" by (auto simp: od blk_def copy_bytes_def on_disk_def fun_eq_iff)
    then have "got p s b i u" using t u nd od g b
      by (intro got_grabbed [OF ok t(2) frame_trans [OF t(3) u(2)], of ?y]) (auto simp: locked_def)
    then show ?thesis using t(1) False x u(1) by (simp add: bread_def exec_simps)
  qed
qed

text \<open>Two buffers that differ at most in their links and reference counts.\<close>

definition same_data :: "buf \<Rightarrow> buf \<Rightarrow> bool" where
  "same_data x y \<longleftrightarrow> b_valid x = b_valid y \<and> b_dirty x = b_dirty y \<and> b_dev x = b_dev y \<and>
     b_blockno x = b_blockno y \<and> b_data x = b_data y"

lemma cached_same_data:
  "(\<And>j. j < NBUF \<Longrightarrow> same_data (bufs t ! j) (bufs s ! j)) \<Longrightarrow> cached t b i = cached s b i"
  by (auto simp: cached_def same_data_def)

lemma content_same_data:
  assumes "bc_ok s" "bc_ok t" "\<And>j. j < NBUF \<Longrightarrow> same_data (bufs t ! j) (bufs s ! j)" "memdisk t = memdisk s"
  shows "content t = content s"
proof
  fix b
  have c: "cached t b j = cached s b j" for j using cached_same_data assms(3) .
  have d: "same_data (bufs t ! j) (bufs s ! j)" if "cached s b j" for j
    using that assms(3) by (simp add: cached_def)
  have od: "on_disk t b = on_disk s b" using assms(4) by (simp add: on_disk_def fun_eq_iff)
  show "content t b = content s b"
  proof (rule content_eqI [OF assms(1,2)])
    fix i assume i: "cached s b i" "b_valid (bufs s ! i)"
    then show "content t b = blk (b_data (bufs s ! i))"
      using content_cached [OF assms(2), of b i] c d [OF i(1)] by (simp add: same_data_def)
  next
    assume n: "\<And>i. cached s b i \<Longrightarrow> \<not> b_valid (bufs s ! i)"
    then have "\<not> b_valid (bufs t ! i)" if "cached t b i" for i
      using that c d [of i] by (simp add: same_data_def)
    from content_uncached [of t b, OF this] show "content t b = on_disk s b" using od by simp
  qed
qed

lemma body_same_data: "body x = body y \<Longrightarrow> same_data x y"
  by (simp add: body_def same_data_def)

text \<open>What \<open>brelse\<close> guarantees.\<close>

definition put :: "nat \<Rightarrow> 'z bio_st_scheme \<Rightarrow> nat \<Rightarrow> 'z bio_st_scheme \<Rightarrow> bool" where
  "put p s i t \<longleftrightarrow> frame p s t \<and> bc_ok t \<and> content t = content s \<and> \<not> locked t i \<and>
     (\<forall>l. l \<noteq> SBuf i \<longrightarrow> slocks t l = slocks s l) \<and> (\<forall>j<NBUF. same_data (bufs t ! j) (bufs s ! j)) \<and>
     (\<forall>j<NBUF. b_refcnt (bufs t ! j) = (if j = i then b_refcnt (bufs s ! j) - 1 else b_refcnt (bufs s ! j)))"


text \<open>The list after the last reference to buffer \<open>i\<close>, or another one, is given up.\<close>

definition unref :: "nat \<Rightarrow> buf list \<Rightarrow> buf list" where
  "unref i bs = (let bs' = bs[i := (bs ! i)\<lparr>b_refcnt := b_refcnt (bs ! i) - 1\<rparr>] in
     if b_refcnt (bs ! i) = 1 then to_front i bs' else bs')"

lemma unref_nth:
  assumes "ring bs xs" "i < NBUF" "j < NBUF"
  shows "same_data (unref i bs ! j) (bs ! j)"
    "b_refcnt (unref i bs ! j) = (if j = i then b_refcnt (bs ! j) - 1 else b_refcnt (bs ! j))"
proof -
  let ?bs = "bs[i := (bs ! i)\<lparr>b_refcnt := b_refcnt (bs ! i) - 1\<rparr>]"
  have "body (unref i bs ! j) = body (?bs ! j)" by (simp add: unref_def Let_def)
  then show "same_data (unref i bs ! j) (bs ! j)"
    "b_refcnt (unref i bs ! j) = (if j = i then b_refcnt (bs ! j) - 1 else b_refcnt (bs ! j))"
    using assms by (auto simp: body_def same_data_def)
qed

lemma ring_unref:
  assumes r: "ring bs xs" and i: "i < NBUF"
  shows "\<exists>ys. ring (unref i bs) ys"
proof -
  let ?bs = "bs[i := (bs ! i)\<lparr>b_refcnt := b_refcnt (bs ! i) - 1\<rparr>]"
  have "nxt ?bs = nxt bs" "prv ?bs = prv bs" by (auto simp: nxt_def prv_def fun_eq_iff nth_list_update')
  then have r': "ring ?bs xs" using r by (simp add: ring_def)
  have "i \<in> set xs" using r i by (simp add: ring_def)
  then obtain us vs where "xs = us @ i # vs" by (meson split_list)
  then have "ring (to_front i ?bs) (i # us @ vs)" using r' ring_to_front by blast
  with r' show ?thesis by (auto simp: unref_def Let_def)
qed

lemma buf_ok_unref:
  assumes ok: "buf_ok s j" and x: "same_data (bufs t ! j) (bufs s ! j)" "disksize t = disksize s" "on_disk t = on_disk s"
    and n: "j \<noteq> i \<Longrightarrow> b_refcnt (bufs t ! j) = b_refcnt (bufs s ! j) \<and> locked t j = locked s j"
    and e: "j = i \<Longrightarrow> b_refcnt (bufs t ! j) = b_refcnt (bufs s ! j) - 1 \<and> \<not> locked t j \<and> locked s j \<and>
      (b_valid (bufs s ! j) \<longrightarrow> b_dirty (bufs s ! j) \<or> blk (b_data (bufs s ! j)) = on_disk s (b_blockno (bufs s ! j)))"
  shows "buf_ok t j"
proof (cases "j = i")
  case True
  then show ?thesis using ok x e by (auto simp: buf_ok_def Let_def same_data_def)
next
  case False
  then show ?thesis using ok x n by (auto simp: buf_ok_def Let_def same_data_def)
qed

lemma put_unref:
  assumes ok: "bc_ok s" and i: "i < NBUF" and l: "locked s i"
    and d: "b_valid (bufs s ! i) \<Longrightarrow> b_dirty (bufs s ! i) \<or> blk (b_data (bufs s ! i)) = on_disk s (b_blockno (bufs s ! i))"
    and f: "frame p s t" and sl: "slocks t = (slocks s)(SBuf i := (slocks s (SBuf i))\<lparr>sl_locked := 0, sl_pid := 0\<rparr>)"
    and bs: "bufs t = unref i (bufs s)"
  shows "put p s i t"
proof -
  from bc_ok_ring [OF ok] obtain xs where r: "ring (bufs s) xs" by blast
  note un = unref_nth [OF r i, folded bs]
  have lk: "locked t j \<longleftrightarrow> j \<noteq> i \<and> locked s j" for j using sl by (simp add: locked_def)
  have m: "memdisk t = memdisk s" "disksize t = disksize s" using f by (simp_all add: frame_def)
  then have od: "on_disk t = on_disk s" by (simp add: on_disk_def fun_eq_iff)
  have "buf_ok t j" if "j < NBUF" for j
    using lk l d un(2) [OF that]
    by (intro buf_ok_unref [OF bc_okD [OF ok that] un(1) [OF that] m(2) od, where i = i]) auto
  moreover have c: "cached t b j = cached s b j" for b j by (rule cached_same_data) (rule un(1))
  have "\<forall>b i j. cached t b i \<and> cached t b j \<longrightarrow> i = j" using ok unfolding bc_ok_def c by blast
  ultimately have ok': "bc_ok t" using ring_unref [OF r i] bs unfolding bc_ok_def by simp
  then have "content t = content s" using content_same_data [OF ok ok' un(1) m(1)] by simp
  with ok' f sl lk un show ?thesis by (simp add: put_def)
qed

lemma brelse_run:
  assumes q: "quiet s p" and ok: "bc_ok s" and i: "i < NBUF" and l: "locked s i"
    and d: "b_valid (bufs s ! i) \<Longrightarrow> b_dirty (bufs s ! i) \<or> blk (b_data (bufs s ! i)) = on_disk s (b_blockno (bufs s ! i))"
  shows "\<exists>t. brelse i s = Ok () t \<and> put p s i t \<and> bufs t = unref i (bufs s)"
proof -
  obtain u where u: "holdingsleep (SBuf i) s = Ok (sl_locked (slocks s (SBuf i))) u" "quiet u p" "stirred s u"
    "slocks u = slocks s" "slp_st.more u = slp_st.more s" using holdingsleep_quiet [OF q] by blast
  obtain v where v: "releasesleep (SBuf i) u = Ok () v" "quiet v p" "stirred u v"
    "slocks v = (slocks u)(SBuf i := (slocks u (SBuf i))\<lparr>sl_locked := 0, sl_pid := 0\<rparr>)"
    "slp_st.more v = slp_st.more u" using releasesleep_quiet [OF u(2)] by blast
  have "slp_st.more v = slp_st.more s" using u v by simp
  note m = bio_of_more [OF this]
  from bc_ok_ring [OF ok] obtain xs where r: "ring (bufs s) xs" by blast
  have ilen: "i < length (bufs s)" using r i by (simp add: ring_def)
  note bok = bc_okD [OF ok i]
  have rc: "0 < b_refcnt (bufs s ! i)" "b_refcnt (bufs s ! i) \<le> 2 ^ 31 + 1"
    using bok l by (simp_all add: buf_ok_def Let_def)
  then have dec: "nat ((int (b_refcnt (bufs s ! i)) - 1) mod 4294967296) = b_refcnt (bufs s ! i) - 1" by simp
  let ?w = "(acquired LBcache v)\<lparr>bufs := unref i (bufs s)\<rparr>" let ?t = "released LBcache ?w"
  have sec: "acquire LBcache v = Ok () (acquired LBcache v)" "release LBcache ?w = Ok () ?t" "quiet ?t p" "stirred v ?t"
    using quiet_section [OF v(2), of ?w LBcache] quiet_RUNNING [OF v(2)] quiet_table [OF v(2)] by simp_all
  have "brelse i s = Ok () ?t"
    using u(1) v(1) l sec(1,2) m ilen rc dec
    by (simp add: brelse_def exec_simps locked_def upd_buf_def brelse_move_run unref_def Let_def split: if_splits)
  moreover have f: "frame p s ?t"
    using sec m stirred_trans [OF stirred_trans [OF u(3) v(3)] sec(4)] by (simp add: frame_def)
  moreover have sl: "slocks ?t = (slocks s)(SBuf i := (slocks s (SBuf i))\<lparr>sl_locked := 0, sl_pid := 0\<rparr>)"
    using u(4) v(4) by simp
  moreover have bs: "bufs ?t = unref i (bufs s)" by simp
  ultimately show ?thesis using put_unref [OF ok i l d f sl bs] bs by blast
qed


text \<open>Changing the data of a buffer one holds changes the logical content of its block.\<close>

lemma bc_ok_data:
  assumes ok: "bc_ok s" and c: "cached s b i" and v: "b_valid (bufs s ! i)" and l: "locked s i"
    and bs: "bufs t = (bufs s)[i := (bufs s ! i)\<lparr>b_data := d, b_dirty := e\<rparr>]"
    and fr: "slocks t = slocks s" "memdisk t = memdisk s" "disksize t = disksize s"
  shows "bc_ok t" "content t = (content s)(b := blk d)" "cached t b i" "b_valid (bufs t ! i)" "locked t i"
proof -
  let ?x = "(bufs s ! i)\<lparr>b_data := d, b_dirty := e\<rparr>"
  from bc_ok_ring [OF ok] obtain xs where r: "ring (bufs s) xs" by blast
  have i: "i < NBUF" "b_dev (bufs s ! i) = 1" "b_blockno (bufs s ! i) = b" using c by (simp_all add: cached_def)
  have nth: "bufs t ! j = (if j = i then ?x else bufs s ! j)" if "j < NBUF" for j
    using that r by (simp add: bs)
  have lk: "locked t = locked s" using fr by (simp add: locked_def fun_eq_iff)
  have "buf_ok t i" using bc_okD [OF ok i(1)] nth [OF i(1)] v l fr lk by (simp add: buf_ok_def Let_def)
  then show ok': "bc_ok t" using fr i bc_ok_sole [OF ok c]
    by (intro bc_ok_upd [OF ok i(1) bs]) (auto simp: sole_def)
  have ct: "cached t b' j = cached s b' j" for b' j using nth by (auto simp: cached_def split: if_splits)
  show "cached t b i" "b_valid (bufs t ! i)" "locked t i" using ct c v l lk nth [OF i(1)] by simp_all
  show "content t = (content s)(b := blk d)"
  proof
    fix b'
    have od: "on_disk t b' = on_disk s b'" using fr by (simp add: on_disk_def fun_eq_iff)
    show "content t b' = ((content s)(b := blk d)) b'"
    proof (cases "b' = b")
      case True
      then show ?thesis using content_cached [OF ok' \<open>cached t b i\<close> \<open>b_valid (bufs t ! i)\<close>] nth [OF i(1)] by simp
    next
      case False
      have same: "bufs t ! j = bufs s ! j" if "cached s b' j" for j
        using that nth [of j] False i by (auto simp: cached_def)
      have "content t b' = content s b'"
      proof (rule content_eqI [OF ok ok'])
        fix j assume j: "cached s b' j" "b_valid (bufs s ! j)"
        then show "content t b' = blk (b_data (bufs s ! j))"
          using content_cached [OF ok', of b' j] ct same [OF j(1)] by simp
      next
        assume n: "\<And>j. cached s b' j \<Longrightarrow> \<not> b_valid (bufs s ! j)"
        then have "\<not> b_valid (bufs t ! j)" if "cached t b' j" for j using that ct same [of j] by simp
        from content_uncached [of t b', OF this] show "content t b' = on_disk s b'" using od by simp
      qed
      then show ?thesis using False by simp
    qed
  qed
qed

lemma on_disk_write:
  assumes "memdisk t = copy_bytes (memdisk s) (b * BSIZE) d 0 BSIZE"
  shows "on_disk t = (on_disk s)(b := blk d)"
proof (rule ext)
  fix b'
  have "\<not> (b * BSIZE \<le> b' * BSIZE + k \<and> b' * BSIZE + k < b * BSIZE + BSIZE)" if "b' \<noteq> b" "k < BSIZE" for k
  proof
    assume a: "b * BSIZE \<le> b' * BSIZE + k \<and> b' * BSIZE + k < b * BSIZE + BSIZE"
    have "(b' * BSIZE + k) div BSIZE = b'" using that(2) by simp
    moreover have "(b' * BSIZE + k) div BSIZE = b" using a by (intro div_nat_eqI) (auto simp: algebra_simps)
    ultimately show False using that by simp
  qed
  then show "on_disk t b' = ((on_disk s)(b := blk d)) b'"
    using assms by (auto simp: on_disk_def copy_bytes_def blk_def fun_eq_iff)
qed

lemma bc_ok_disk:
  assumes ok: "bc_ok s" and c: "cached s b i" "b_valid (bufs s ! i)" "locked s i"
    and fr: "bufs t = bufs s" "slocks t = slocks s" "disksize t = disksize s" "on_disk t = (on_disk s)(b := x)"
  shows "bc_ok t" "content t = content s"
proof -
  have ct: "cached t b' j = cached s b' j" for b' j using fr by (simp add: cached_def)
  have lk: "locked t = locked s" using fr by (simp add: locked_def fun_eq_iff)
  have "buf_ok t j" if j: "j < NBUF" for j
  proof (cases "j = i")
    case True
    then show ?thesis using bc_okD [OF ok j] c(3) fr(1,3) lk by (simp add: buf_ok_def Let_def)
  next
    case False
    then have "\<not> cached s b j" using bc_ok_sole [OF ok c(1)] by (auto simp: sole_def)
    then show ?thesis using bc_okD [OF ok j] fr lk j by (auto simp: buf_ok_def Let_def cached_def)
  qed
  moreover have "\<forall>b i j. cached t b i \<and> cached t b j \<longrightarrow> i = j" using ok unfolding bc_ok_def ct by blast
  ultimately show ok': "bc_ok t" using bc_ok_ring [OF ok] fr(1) unfolding bc_ok_def by simp
  show "content t = content s"
  proof
    fix b'
    show "content t b' = content s b'"
    proof (rule content_eqI [OF ok ok'])
      fix j assume "cached s b' j" "b_valid (bufs s ! j)"
      then show "content t b' = blk (b_data (bufs s ! j))" using content_cached [OF ok', of b' j] ct fr(1) by simp
    next
      assume n: "\<And>j. cached s b' j \<Longrightarrow> \<not> b_valid (bufs s ! j)"
      then have "b' \<noteq> b" using c by auto
      moreover have "\<not> b_valid (bufs t ! j)" if "cached t b' j" for j using that n ct fr(1) by simp
      note content_uncached [of t b', OF this]
      ultimately show "content t b' = on_disk s b'" using fr(4) by simp
    qed
  qed
qed

lemma bwrite_run:
  assumes q: "quiet s p" and ok: "bc_ok s" and c: "cached s b i" and v: "b_valid (bufs s ! i)" and l: "locked s i"
  shows "\<exists>t. bwrite i s = Ok () t \<and> quiet t p \<and> stirred s t \<and> bc_ok t \<and> slocks t = slocks s \<and>
    bufs t = (bufs s)[i := (bufs s ! i)\<lparr>b_dirty := False\<rparr>] \<and> content t = content s \<and>
    on_disk t = (on_disk s)(b := content s b) \<and> disksize t = disksize s \<and> bio_st.more t = bio_st.more s"
proof -
  obtain u where u: "holdingsleep (SBuf i) s = Ok (sl_locked (slocks s (SBuf i))) u" "quiet u p" "stirred s u"
    "slocks u = slocks s" "slp_st.more u = slp_st.more s" using holdingsleep_quiet [OF q] by blast
  note m = bio_of_more [OF u(5)]
  from bc_ok_ring [OF ok] obtain xs where r: "ring (bufs s) xs" by blast
  have i: "i < NBUF" "b_dev (bufs s ! i) = 1" "b_blockno (bufs s ! i) = b" "i < length (bufs s)"
    using c r by (simp_all add: cached_def ring_def)
  note bok = bc_okD [OF ok i(1)]
  let ?u = "u\<lparr>bufs := (bufs s)[i := (bufs s ! i)\<lparr>b_dirty := True\<rparr>]\<rparr>"
  have "b < disksize s" using bok v i by (simp add: buf_ok_def Let_def)
  then obtain t where t: "iderw i ?u = Ok () t" "quiet t p" "stirred u t" "slocks t = slocks s"
    "bufs t = (bufs s)[i := (bufs s ! i)\<lparr>b_dirty := False, b_valid := True\<rparr>]"
    "memdisk t = copy_bytes (memdisk s) (b * BSIZE) (b_data (bufs s ! i)) 0 BSIZE"
    "disksize t = disksize s" "bio_st.more t = bio_st.more s"
    using iderw_write [of ?u p i] u m i l by (auto simp: locked_def)
  have x: "(bufs s ! i)\<lparr>b_dirty := False, b_valid := True\<rparr> = (bufs s ! i)\<lparr>b_dirty := False\<rparr>"
    using v by (cases "bufs s ! i") simp
  have "bwrite i s = Ok () t" using u(1) t(1) l m by (simp add: bwrite_def exec_simps locked_def upd_buf_def)
  moreover have cd: "content s b = blk (b_data (bufs s ! i))" using content_cached [OF ok c v] .
  moreover have od: "on_disk t = (on_disk s)(b := blk (b_data (bufs s ! i)))" by (rule on_disk_write) (rule t(6))
  moreover have "bc_ok t \<and> content t = content s"
  proof -
    let ?s = "s\<lparr>bufs := bufs t\<rparr>"
    have b1: "bufs ?s = (bufs s)[i := (bufs s ! i)\<lparr>b_data := b_data (bufs s ! i), b_dirty := False\<rparr>]"
      using t(5) x by simp
    have e: "(content s)(b := blk (b_data (bufs s ! i))) = content s" using cd by (metis fun_upd_triv)
    note s1 = bc_ok_data [OF ok c v l b1, unfolded e]
    have "on_disk ?s = on_disk s" by (simp add: on_disk_def fun_eq_iff)
    then show ?thesis using bc_ok_disk [of ?s b i t] s1 t od by auto
  qed
  ultimately show ?thesis using t x stirred_trans [OF u(3) t(3)] by auto
qed


section \<open>Properties\<close>

text \<open>
  A machine of the default build with process 1 running, a disk of 1000 blocks whose bytes are
  their own addresses modulo 256, and an empty cache.
\<close>

definition buf0 :: buf where
  "buf0 = \<lparr>b_valid = False, b_dirty = False, b_dev = 0, b_blockno = 0, b_refcnt = 0, b_prev = 0, b_next = 0,
     b_data = \<lambda>_. 0\<rparr>"

definition bufs0 :: "buf list" where
  "bufs0 = map (\<lambda>i. buf0\<lparr>b_prev := (i + NBUF) mod Suc NBUF, b_next := (i + 1) mod Suc NBUF\<rparr>) [0..<Suc NBUF]"

definition bio0 :: bio_st where
  "bio0 = \<lparr>mem = mem busy0, cpus = cpus busy0, cur = 0, locks = \<lambda>_. lock0, cons_out = [],
     km_use_lock = 1, km_freelist = 0, km_end = KERNBASE + 1048576, procs = procs busy0,
     priority_q = priority_q ptable0, marker = marker ptable0, initproc = Some 0, nextpid = 5, cfg_custom = True,
     kpgdir = 0, sym_data = 0, ticks = 0, sym_forkret = 0, sym_trapret = 0,
     slocks = \<lambda>_. \<lparr>sl_locked = 0, sl_name = [], sl_pid = 0\<rparr>,
     bufs = bufs0, memdisk = (\<lambda>a. word_of_nat a), disksize = 1000\<rparr>"

lemma quiet_bio0: "quiet bio0 1"
  using busy0_ready
  by (simp add: quiet_def table_ok_def on_cpu_def the_cpu_def bio0_def lock0_def)
    (simp add: busy0_def ptable0_def)

lemma length_bufs0: "length bufs0 = Suc NBUF"
  by (simp add: bufs0_def)

lemma bufs0_nth:
  "i < Suc NBUF \<Longrightarrow> bufs0 ! i = buf0\<lparr>b_prev := (i + NBUF) mod Suc NBUF, b_next := (i + 1) mod Suc NBUF\<rparr>"
  unfolding bufs0_def by (simp del: upt_Suc)

lemma links_upt:
  assumes "\<And>i. a \<le> i \<Longrightarrow> i < b \<Longrightarrow> n i = Suc i" "\<And>i. a \<le> i \<Longrightarrow> i < b \<Longrightarrow> p (Suc i) = i"
  shows "links n p [a..<Suc b]"
  using assms
proof (induction "b - a" arbitrary: a)
  case 0
  then show ?case by (cases "a = b") auto
next
  case (Suc k)
  then have "a < b" by simp
  then have "[a..<Suc b] = a # Suc a # [Suc (Suc a)..<Suc b]" by (simp add: upt_conv_Cons del: upt_Suc)
  moreover have "links n p [Suc a..<Suc b]" using Suc by (intro Suc(1)) auto
  ultimately show ?case using Suc.prems \<open>a < b\<close> by (simp add: upt_conv_Cons del: upt_Suc)
qed

lemma ring_bufs0: "ring bufs0 [0..<NBUF]"
proof -
  have n: "nxt bufs0 i = (i + 1) mod Suc NBUF" "prv bufs0 i = (i + NBUF) mod Suc NBUF" if "i < Suc NBUF" for i
    using that by (simp_all add: nxt_def prv_def bufs0_nth)
  have "links (nxt bufs0) (prv bufs0) [0..<Suc NBUF]"
    by (rule links_upt) (simp_all add: n, simp add: mod_if)
  moreover have "[0..<Suc NBUF] = 0 # [1..<Suc NBUF]" by (simp add: upt_conv_Cons del: upt_Suc)
  ultimately have "links (nxt bufs0) (prv bufs0) (NBUF # [0..<Suc NBUF])"
    using n [of NBUF] n [of 0] by (simp del: upt_Suc) 
  then show ?thesis by (simp add: ring_def length_bufs0 lessThan_atLeast0)
qed

lemma bc_ok_bio0: "bc_ok bio0"
proof -
  have "b_dev (bufs bio0 ! i) = 0" "b_valid (bufs bio0 ! i) = False" "b_dirty (bufs bio0 ! i) = False"
    "b_refcnt (bufs bio0 ! i) = 0" if "i < NBUF" for i
    using that by (simp_all add: bio0_def bufs0_nth) (simp_all add: buf0_def)
  then show ?thesis using ring_bufs0
    by (auto simp: bc_ok_def cached_def buf_ok_def Let_def locked_def) (auto simp: bio0_def)
qed


text \<open>
  C23. Reading through the cache. If no buffer for block \<open>b\<close> is in use and there is a buffer for it
  or one to recycle, \<open>bread(1, b)\<close> returns a locked, valid buffer whose data is the logical content
  of the block; the logical content of every block and the disk are unchanged, and the cache
  invariant holds again.
\<close>

theorem bread_returns_content:
  assumes "quiet s p" "bc_ok s" "b < disksize s"
    and "\<And>i. cached s b i \<Longrightarrow> \<not> locked s i" "(\<exists>i. cached s b i) \<or> avail s \<noteq> {}"
  shows "\<exists>i t. bread 1 b s = Ok i t \<and> i < NBUF \<and> b_valid (bufs t ! i) \<and> b_blockno (bufs t ! i) = b \<and>
    sl_locked (slocks t (SBuf i)) \<noteq> 0 \<and> (\<forall>k<BSIZE. b_data (bufs t ! i) k = content s b k) \<and>
    content t = content s \<and> memdisk t = memdisk s \<and> bc_ok t \<and> quiet t p"
proof -
  obtain i t where t: "bread 1 b s = Ok i t" "got p s b i t" using bread_run [OF assms] by blast
  have "blk (b_data (bufs t ! i)) = content s b" using t(2) by (simp add: got_def)
  then have "b_data (bufs t ! i) k = content s b k" if "k < BSIZE" for k
    using that by (metis blk_def)
  then show ?thesis using t by (auto simp: got_def frame_def cached_def locked_def)
qed

lemma bio0_read: "\<And>i. cached bio0 b i \<Longrightarrow> \<not> locked bio0 i" "avail bio0 \<noteq> {}" "content bio0 b = on_disk bio0 b"
proof -
  have "b_dev (bufs bio0 ! i) = 0" if "i < NBUF" for i
    using that by (simp add: bio0_def bufs0_nth) (simp add: buf0_def)
  then have n: "\<not> cached bio0 b i" for i by (auto simp: cached_def)
  then show "\<And>i. cached bio0 b i \<Longrightarrow> \<not> locked bio0 i" "content bio0 b = on_disk bio0 b"
    using content_uncached [of bio0 b] by blast+
  have "0 \<in> avail bio0" by (simp add: avail_def bio0_def bufs0_nth NBUF_def) (simp add: buf0_def)
  then show "avail bio0 \<noteq> {}" by blast
qed

theorem bread_returns_content_witness:
  "\<exists>i t. bread 1 3 bio0 = Ok i t \<and> b_data (bufs t ! i) 7 = word_of_nat (3 * 512 + 7)"
proof -
  have b: "3 < disksize bio0" by (simp add: bio0_def)
  have "content bio0 3 7 = word_of_nat (3 * 512 + 7)" unfolding bio0_read(3)
    by (simp add: on_disk_def BSIZE_def bio0_def)
  moreover have "(\<exists>i. cached bio0 3 i) \<or> avail bio0 \<noteq> {}" using bio0_read(2) by blast
  note bread_returns_content [OF quiet_bio0 bc_ok_bio0 b bio0_read(1) [of 3] this]
  ultimately show ?thesis by (auto simp: BSIZE_def)
qed

text \<open>
  C34. The list of buffers is kept in order of last use. \<open>brelse\<close> of the last reference to a buffer
  moves it to the front of the list and leaves the order of the others, through the six pointer
  assignments; the buffer is unlocked and the logical content of the disk is unchanged.
\<close>

theorem brelse_moves_to_front:
  assumes "quiet s p" "bc_ok s" "ring (bufs s) (us @ i # vs)" "locked s i" "b_refcnt (bufs s ! i) = 1"
    and "b_valid (bufs s ! i) \<Longrightarrow> b_dirty (bufs s ! i) \<or> blk (b_data (bufs s ! i)) = on_disk s (b_blockno (bufs s ! i))"
  shows "\<exists>t. brelse i s = Ok () t \<and> ring (bufs t) (i # us @ vs) \<and> \<not> locked t i \<and> b_refcnt (bufs t ! i) = 0 \<and>
    content t = content s \<and> bc_ok t \<and> quiet t p"
proof -
  note sp = ring_split [OF assms(3)]
  obtain t where t: "brelse i s = Ok () t" "put p s i t" "bufs t = unref i (bufs s)"
    using brelse_run [OF assms(1,2) sp(3) assms(4,6)] by blast
  let ?bs = "(bufs s)[i := (bufs s ! i)\<lparr>b_refcnt := 0\<rparr>]"
  have "nxt ?bs = nxt (bufs s)" "prv ?bs = prv (bufs s)" by (auto simp: nxt_def prv_def fun_eq_iff nth_list_update')
  then have "ring ?bs (us @ i # vs)" using assms(3) by (simp add: ring_def)
  then have "ring (bufs t) (i # us @ vs)" using ring_to_front t(3) assms(5) by (simp add: unref_def)
  then show ?thesis using t sp(3) assms(5) by (auto simp: put_def frame_def)
qed

text \<open>The state of the witness: buffer 4 locked and referenced once.\<close>

definition bio1 :: bio_st where
  "bio1 = bio0\<lparr>bufs := bufs0[4 := (bufs0 ! 4)\<lparr>b_refcnt := 1\<rparr>],
     slocks := (slocks bio0)(SBuf 4 := (slocks bio0 (SBuf 4))\<lparr>sl_locked := 1\<rparr>)\<rparr>"

lemma bio1_ok: "quiet bio1 1" "bc_ok bio1" "ring (bufs bio1) ([0..<4] @ 4 # [5..<NBUF])" "locked bio1 4"
  "b_refcnt (bufs bio1 ! 4) = 1" "\<not> b_valid (bufs bio1 ! 4)"
proof -
  let ?x = "(bufs0 ! 4)\<lparr>b_refcnt := 1\<rparr>"
  have four: "4 < NBUF" "4 < Suc NBUF" by (simp_all add: NBUF_def)
  have q: "quiet (s\<lparr>slocks := l\<rparr>) p = quiet s p" for s :: bio_st and l p
    by (simp add: quiet_def on_cpu_def the_cpu_def)
  show "quiet bio1 1" using quiet_bio0 by (simp add: bio1_def q)
  have nth: "bufs bio1 ! 4 = ?x" using four by (simp add: bio1_def length_bufs0)
  then show "b_refcnt (bufs bio1 ! 4) = 1" "\<not> b_valid (bufs bio1 ! 4)" using four
    by (simp_all add: bufs0_nth) (simp add: buf0_def)
  show l: "locked bio1 4" by (simp add: locked_def bio1_def)
  have "buf_ok bio1 4" using nth l four by (simp add: buf_ok_def bufs0_nth) (simp add: buf0_def)
  then show "bc_ok bio1" using four
    by (intro bc_ok_upd [OF bc_ok_bio0, of 4 _ ?x]) (auto simp: bio1_def bio0_def bufs0_nth buf0_def)
  have "nxt (bufs bio1) = nxt bufs0" "prv (bufs bio1) = prv bufs0"
    by (auto simp: bio1_def nxt_def prv_def fun_eq_iff nth_list_update')
  then have "ring (bufs bio1) [0..<NBUF]" using ring_bufs0 by (simp add: ring_def bio1_def length_bufs0)
  moreover have "[0..<NBUF] = [0..<4] @ 4 # [5..<NBUF]"
    using upt_add_eq_append [of 0 4 "NBUF - 4"] upt_conv_Cons [of 4 NBUF] by (simp add: NBUF_def)
  ultimately show "ring (bufs bio1) ([0..<4] @ 4 # [5..<NBUF])" by simp
qed

theorem brelse_moves_to_front_witness:
  "\<exists>t. brelse 4 bio1 = Ok () t \<and> ring (bufs t) (4 # [0..<4] @ [5..<NBUF])"
  using brelse_moves_to_front [OF bio1_ok(1-5)] bio1_ok(6) by blast

end
