(* ===== verification/Cache.thy ===== *)
theory Cache
  imports Bio
begin

text \<open>
  The view of the buffer cache that its clients use. \<open>cache p s H C D X\<close>: process \<open>p\<close> is the only
  user of the cache; it holds the buffers of \<open>H\<close>, a map from buffers to their blocks; \<open>C\<close> is the
  logical content of the blocks, \<open>D\<close> the content of the disk, and \<open>X\<close> the set of dirty blocks.
  The laws below say what each operation does to these four; they hide the list of buffers,
  reference counts and locks.
\<close>

definition holds :: "'z bio_st_scheme \<Rightarrow> (nat \<rightharpoonup> nat) \<Rightarrow> bool" where
  "holds s H \<longleftrightarrow> (\<forall>i<NBUF. (locked s i \<longleftrightarrow> H i \<noteq> None) \<and> b_refcnt (bufs s ! i) = (if H i = None then 0 else 1)) \<and>
     (\<forall>i b. H i = Some b \<longrightarrow> cached s b i \<and> b_valid (bufs s ! i))"

definition dirtyb :: "'z bio_st_scheme \<Rightarrow> nat set" where
  "dirtyb s = {b. \<exists>i. cached s b i \<and> b_dirty (bufs s ! i)}"

definition cache :: "nat \<Rightarrow> 'z bio_st_scheme \<Rightarrow> (nat \<rightharpoonup> nat) \<Rightarrow> (nat \<Rightarrow> memory) \<Rightarrow> (nat \<Rightarrow> memory) \<Rightarrow> nat set \<Rightarrow> bool" where
  "cache p s H C D X \<longleftrightarrow> quiet s p \<and> bc_ok s \<and> holds s H \<and> content s = C \<and> on_disk s = D \<and> dirtyb s = X"

text \<open>What all operations leave alone.\<close>

definition untouched :: "'z bio_st_scheme \<Rightarrow> 'z bio_st_scheme \<Rightarrow> bool" where
  "untouched s t \<longleftrightarrow> stirred s t \<and> disksize t = disksize s \<and> bio_st.more t = bio_st.more s \<and>
     (\<forall>i. slocks t (SInode i) = slocks s (SInode i))"

lemma untouched_refl [simp]: "untouched s s"
  by (simp add: untouched_def)

lemma untouched_trans [trans]: "untouched s t \<Longrightarrow> untouched t u \<Longrightarrow> untouched s u"
  unfolding untouched_def using stirred_trans by metis

lemma dirty_bij:
  assumes "bc_ok s"
  shows "bij_betw (\<lambda>i. b_blockno (bufs s ! i)) {i. i < NBUF \<and> b_dirty (bufs s ! i)} (dirtyb s)"
proof -
  have c: "cached s (b_blockno (bufs s ! i)) i" if "i < NBUF" "b_dirty (bufs s ! i)" for i
    using bc_okD [OF assms that(1)] that by (simp add: buf_ok_def Let_def cached_def)
  have "inj_on (\<lambda>i. b_blockno (bufs s ! i)) {i. i < NBUF \<and> b_dirty (bufs s ! i)}"
  proof (rule inj_onI)
    fix i j assume ij: "i \<in> {i. i < NBUF \<and> b_dirty (bufs s ! i)}" "j \<in> {i. i < NBUF \<and> b_dirty (bufs s ! i)}"
      and e: "b_blockno (bufs s ! i) = b_blockno (bufs s ! j)"
    then have "cached s (b_blockno (bufs s ! j)) i" "cached s (b_blockno (bufs s ! j)) j" using c [of i] c [of j] by auto
    then show "i = j" using bc_ok_sole [OF assms] by (metis sole_def)
  qed
  moreover have "(\<lambda>i. b_blockno (bufs s ! i)) ` {i. i < NBUF \<and> b_dirty (bufs s ! i)} = dirtyb s"
    using c by (auto simp: dirtyb_def cached_def)
  ultimately show ?thesis by (simp add: bij_betw_def)
qed

lemma dom_holds: "holds s H \<Longrightarrow> dom H \<subseteq> {..<NBUF}"
  by (auto simp: holds_def cached_def)

lemma finite_dirtyb: "bc_ok s \<Longrightarrow> finite (dirtyb s)"
  using bij_betw_finite [OF dirty_bij] by simp

text \<open>A buffer to recycle exists unless all of them are held or dirty.\<close>

lemma room:
  assumes ok: "bc_ok s" and h: "holds s H" and c: "card (dom H) + card (dirtyb s) < NBUF"
  shows "avail s \<noteq> {}"
proof
  assume e: "avail s = {}"
  let ?D = "{i. i < NBUF \<and> b_dirty (bufs s ! i)}"
  have "i \<in> dom H \<union> ?D" if "i < NBUF" for i
  proof (rule ccontr)
    assume n: "i \<notin> dom H \<union> ?D"
    then have "i \<in> avail s" using h that by (auto simp: holds_def avail_def)
    then show False using e by simp
  qed
  then have "{..<NBUF} \<subseteq> dom H \<union> ?D" by auto
  moreover have "finite (dom H)" using dom_holds [OF h] finite_subset by blast
  ultimately have "card {..<NBUF} \<le> card (dom H \<union> ?D)" by (intro card_mono) auto
  also have "\<dots> \<le> card (dom H) + card ?D" by (rule card_Un_le)
  also have "card ?D = card (dirtyb s)" using bij_betw_same_card [OF dirty_bij [OF ok]] .
  finally show False using c by simp
qed

lemma cache_data: "cache p s H C D X \<Longrightarrow> H i = Some b \<Longrightarrow> C b = blk (b_data (bufs s ! i))"
  using content_cached [of s b i] by (simp add: cache_def holds_def)

lemma cache_clean:
  assumes "cache p s H C D X" "b \<notin> X" "b \<notin> ran H"
  shows "C b = D b"
proof (cases "\<exists>i. cached s b i \<and> b_valid (bufs s ! i)")
  case True
  then obtain i where i: "cached s b i" "b_valid (bufs s ! i)" by blast
  have "\<not> b_dirty (bufs s ! i)" using assms(1,2) i by (auto simp: cache_def dirtyb_def)
  moreover have "\<not> locked s i"
  proof
    assume "locked s i"
    then obtain b' where "H i = Some b'" "cached s b' i" using assms(1) i by (auto simp: cache_def holds_def cached_def)
    then show False using assms(3) i by (auto simp: cached_def ran_def)
  qed
  moreover have "i < NBUF" using i by (simp add: cached_def)
  ultimately show ?thesis using assms(1) i bc_okD [of s i] content_cached [of s b i]
    by (auto simp: cache_def buf_ok_def Let_def cached_def)
next
  case False
  then have "content s b = on_disk s b" by (intro content_uncached) blast
  then show ?thesis using assms(1) by (simp add: cache_def)
qed


lemma cache_held: "cache p s H C D X \<Longrightarrow> H i = Some b \<Longrightarrow> i < NBUF \<and> cached s b i \<and> b_valid (bufs s ! i) \<and> locked s i"
  by (auto simp: cache_def holds_def cached_def)

lemma cache_quiet: "cache p s H C D X \<Longrightarrow> quiet s p"
  by (simp add: cache_def)

lemma dirtyb_eqI:
  assumes "\<And>b i. cached s b i \<Longrightarrow> b_dirty (bufs s ! i) \<Longrightarrow> cached t b i \<and> b_dirty (bufs t ! i)"
    and "\<And>b i. cached t b i \<Longrightarrow> b_dirty (bufs t ! i) \<Longrightarrow> cached s b i \<and> b_dirty (bufs s ! i)"
  shows "dirtyb t = dirtyb s"
  using assms unfolding dirtyb_def by blast

text \<open>The law of \<open>bread\<close>.\<close>

lemma cache_bread:
  assumes c: "cache p s H C D X" and b: "b < disksize s" "b \<notin> ran H" "b \<in> X \<or> card (dom H) + card X < NBUF"
  shows "\<exists>i t. bread 1 b s = Ok i t \<and> H i = None \<and> cache p t (H(i \<mapsto> b)) C D X \<and> untouched s t"
proof -
  have q: "quiet s p" and ok: "bc_ok s" and h: "holds s H" and dX: "dirtyb s = X" using c by (auto simp: cache_def)
  have free: "\<not> locked s i" if ci: "cached s b i" for i
  proof
    assume "locked s i"
    then obtain b' where "H i = Some b'" "cached s b' i" using h ci by (auto simp: holds_def cached_def)
    then show False using b(2) ci by (auto simp: cached_def ran_def)
  qed
  have "(\<exists>i. cached s b i) \<or> avail s \<noteq> {}" using b(3) room [OF ok h] dX by (auto simp: dirtyb_def)
  from bread_run [OF q ok b(1) free this] obtain i t where t: "bread 1 b s = Ok i t" "got p s b i t" by blast
  have i: "i < NBUF" "\<not> locked s i" "H i = None" using t(2) h by (auto simp: got_def holds_def cached_def)
  have other: "bufs t ! j = bufs s ! j" "locked t j = locked s j" if "j \<noteq> i" "j < NBUF" for j
    using t(2) that by (simp_all add: got_def locked_def)
  have "cached t b' j \<and> b_valid (bufs t ! j)" if "(H(i \<mapsto> b)) j = Some b'" for j b'
  proof (cases "j = i")
    case True
    then show ?thesis using that t(2) by (simp add: got_def)
  next
    case False
    then have "cached s b' j" "b_valid (bufs s ! j)" "j < NBUF" using that h by (auto simp: holds_def cached_def)
    then show ?thesis using other [OF False] by (simp add: cached_def)
  qed
  moreover have "(locked t j \<longleftrightarrow> (H(i \<mapsto> b)) j \<noteq> None) \<and> b_refcnt (bufs t ! j) = (if (H(i \<mapsto> b)) j = None then 0 else 1)"
    if "j < NBUF" for j
    using that other [of j] h t(2) i by (cases "j = i") (auto simp: holds_def got_def)
  ultimately have h': "holds t (H(i \<mapsto> b))" unfolding holds_def by blast
  have dirty: "b_dirty (bufs t ! j) = b_dirty (bufs s ! j)" if "j < NBUF" for j
    using other [of j] that t(2) by (cases "j = i") (auto simp: got_def)
  have ct: "cached t b' j \<longleftrightarrow> cached s b' j" if "j < NBUF" "b_dirty (bufs s ! j)" for b' j
    using other(1) [of j] that t(2) by (cases "j = i") (auto simp: got_def cached_def)
  have "dirtyb t = dirtyb s"
    using dirty ct by (intro dirtyb_eqI) (auto simp: cached_def)
  moreover have "untouched s t" "on_disk t = on_disk s"
    using t(2) by (auto simp: untouched_def got_def frame_def on_disk_def fun_eq_iff)
  moreover have "quiet t p" "bc_ok t" "content t = content s" using t(2) by (simp_all add: got_def frame_def)
  ultimately show ?thesis using t(1) i(3) h' c by (auto simp: cache_def)
qed


text \<open>The law of \<open>brelse\<close>: a block that was changed has to be dirty, or written.\<close>

lemma cache_brelse:
  assumes c: "cache p s H C D X" and i: "H i = Some b" and w: "b \<in> X \<or> C b = D b"
  shows "\<exists>t. brelse i s = Ok () t \<and> cache p t (H(i := None)) C D X \<and> untouched s t"
proof -
  have q: "quiet s p" and ok: "bc_ok s" and h: "holds s H" and X: "dirtyb s = X" using c by (auto simp: cache_def)
  note hd = cache_held [OF c i]
  have "b_dirty (bufs s ! i)" if b: "b \<in> X"
  proof -
    obtain j where "cached s b j" "b_dirty (bufs s ! j)" using b X by (auto simp: dirtyb_def)
    then show ?thesis using bc_ok_sole [OF ok, of b i] hd by (metis sole_def)
  qed
  then have "b_dirty (bufs s ! i) \<or> blk (b_data (bufs s ! i)) = on_disk s (b_blockno (bufs s ! i))"
    using w c hd cache_data [OF c i] by (auto simp: cache_def cached_def)
  then obtain t where t: "brelse i s = Ok () t" "put p s i t" using brelse_run [OF q ok, of i] hd by blast
  have sd: "same_data (bufs t ! j) (bufs s ! j)" if "j < NBUF" for j using t(2) that by (simp add: put_def)
  have ct: "cached t b' j = cached s b' j" for b' j using sd by (rule cached_same_data)
  have lk: "locked t j = (j \<noteq> i \<and> locked s j)" for j using t(2) by (cases "j = i") (auto simp: put_def locked_def)
  have "cached t b' j \<and> b_valid (bufs t ! j)" if "(H(i := None)) j = Some b'" for j b'
    using that h sd [of j] ct by (auto simp: holds_def cached_def same_data_def split: if_splits)
  moreover have "(locked t j \<longleftrightarrow> (H(i := None)) j \<noteq> None) \<and>
      b_refcnt (bufs t ! j) = (if (H(i := None)) j = None then 0 else 1)" if "j < NBUF" for j
    using that h t(2) lk hd i by (cases "j = i") (auto simp: holds_def put_def)
  ultimately have "holds t (H(i := None))" unfolding holds_def by blast
  moreover have "dirtyb t = dirtyb s"
    using ct sd by (intro dirtyb_eqI) (auto simp: cached_def same_data_def)
  moreover have "untouched s t" "on_disk t = on_disk s"
    using t(2) by (auto simp: untouched_def put_def frame_def on_disk_def fun_eq_iff)
  ultimately show ?thesis using t c by (auto simp: cache_def put_def frame_def)
qed

text \<open>Assignments to the data of a held buffer, and marking it dirty.\<close>

lemma cache_upd:
  assumes c: "cache p s H C D X" and i: "H i = Some b"
    and t: "bufs t = (bufs s)[i := (bufs s ! i)\<lparr>b_data := d, b_dirty := e\<rparr>]" "slocks t = slocks s"
      "memdisk t = memdisk s" "disksize t = disksize s" "quiet t p"
  shows "cache p t H (C(b := blk d)) D (if e then insert b X else X - {b})"
proof -
  have ok: "bc_ok s" and h: "holds s H" and X: "dirtyb s = X" using c by (auto simp: cache_def)
  note hd = cache_held [OF c i]
  note t1 = bc_ok_data [OF ok conjunct1 [OF conjunct2 [OF hd]] _ _ t(1-4)]
  from bc_ok_ring [OF ok] obtain xs where r: "ring (bufs s) xs" by blast
  have nth: "bufs t ! j = (if j = i then (bufs s ! i)\<lparr>b_data := d, b_dirty := e\<rparr> else bufs s ! j)" if "j < NBUF" for j
    using that r by (simp add: t(1))
  have ct: "cached t b' j = cached s b' j" for b' j using nth by (auto simp: cached_def split: if_splits)
  have lk: "locked t = locked s" using t(2) by (simp add: locked_def fun_eq_iff)
  have "cached t b' j \<and> b_valid (bufs t ! j)" if "H j = Some b'" for j b'
    using that h nth [of j] ct by (auto simp: holds_def cached_def)
  moreover have "(locked t j \<longleftrightarrow> H j \<noteq> None) \<and> b_refcnt (bufs t ! j) = (if H j = None then 0 else 1)" if "j < NBUF" for j
    using that h nth [of j] lk by (auto simp: holds_def)
  ultimately have "holds t H" unfolding holds_def by blast
  moreover have "dirtyb t = (if e then insert b X else X - {b})"
  proof -
    have ji: "j = i" if "cached s b j" for j using that bc_ok_sole [OF ok, of b i] hd by (metis sole_def)
    have "b' \<in> dirtyb t \<longleftrightarrow> (if b' = b then e else b' \<in> dirtyb s)" for b'
    proof (cases "b' = b")
      case True
      have "b \<in> dirtyb t \<longleftrightarrow> b_dirty (bufs t ! i)" using hd ji unfolding dirtyb_def ct by blast
      then show ?thesis using True nth [of i] hd by simp
    next
      case False
      then have "cached s b' j \<Longrightarrow> bufs t ! j = bufs s ! j" for j using nth [of j] hd by (auto simp: cached_def)
      then have "(cached s b' j \<and> b_dirty (bufs t ! j)) = (cached s b' j \<and> b_dirty (bufs s ! j))" for j by metis
      then show ?thesis using False unfolding dirtyb_def ct by simp
    qed
    then have "dirtyb t = {b'. if b' = b then e else b' \<in> dirtyb s}" by blast
    then show ?thesis unfolding X by (auto split: if_splits)
  qed
  moreover have "on_disk t = on_disk s" using t(3) by (simp add: on_disk_def fun_eq_iff)
  ultimately show ?thesis using t1 hd c t(5) by (auto simp: cache_def)
qed


lemma cache_dirty_iff:
  assumes c: "cache p s H C D X" and i: "H i = Some b"
  shows "b_dirty (bufs s ! i) \<longleftrightarrow> b \<in> X"
proof
  assume "b_dirty (bufs s ! i)"
  then show "b \<in> X" using c cache_held [OF c i] by (auto simp: cache_def dirtyb_def)
next
  assume "b \<in> X"
  then obtain j where "cached s b j" "b_dirty (bufs s ! j)" using c by (auto simp: cache_def dirtyb_def)
  then show "b_dirty (bufs s ! i)" using bc_ok_sole [of s b i] cache_held [OF c i] c by (metis cache_def sole_def)
qed

lemma cache_upd_data:
  assumes c: "cache p s H C D X" and i: "H i = Some b"
  shows "cache p (s\<lparr>bufs := (bufs s)[i := (bufs s ! i)\<lparr>b_data := d\<rparr>]\<rparr>) H (C(b := blk d)) D X"
proof -
  have "(bufs s ! i)\<lparr>b_data := d\<rparr> = (bufs s ! i)\<lparr>b_data := d, b_dirty := b_dirty (bufs s ! i)\<rparr>"
    by (cases "bufs s ! i") simp
  then have "cache p (s\<lparr>bufs := (bufs s)[i := (bufs s ! i)\<lparr>b_data := d\<rparr>]\<rparr>) H (C(b := blk d)) D
      (if b_dirty (bufs s ! i) then insert b X else X - {b})"
    using cache_quiet [OF c] by (intro cache_upd [OF c i]) simp_all
  moreover have "(if b_dirty (bufs s ! i) then insert b X else X - {b}) = X"
    using cache_dirty_iff [OF c i] by auto
  ultimately show ?thesis by simp
qed

lemma cache_mark_dirty:
  assumes c: "cache p s H C D X" and i: "H i = Some b"
  shows "cache p (s\<lparr>bufs := (bufs s)[i := (bufs s ! i)\<lparr>b_dirty := True\<rparr>]\<rparr>) H C D (insert b X)"
proof -
  have "(bufs s ! i)\<lparr>b_dirty := True\<rparr> = (bufs s ! i)\<lparr>b_data := b_data (bufs s ! i), b_dirty := True\<rparr>"
    by (cases "bufs s ! i") simp
  then have "cache p (s\<lparr>bufs := (bufs s)[i := (bufs s ! i)\<lparr>b_dirty := True\<rparr>]\<rparr>) H (C(b := blk (b_data (bufs s ! i)))) D
      (if True then insert b X else X - {b})"
    using cache_quiet [OF c] by (intro cache_upd [OF c i]) simp_all
  moreover have "C(b := blk (b_data (bufs s ! i))) = C" using cache_data [OF c i] by auto
  ultimately show ?thesis by simp
qed

lemma cache_same_bufs:
  assumes "bufs t = bufs s" "slocks t = slocks s"
  shows "cached t = cached s" "locked t = locked s" "holds t H = holds s H" "dirtyb t = dirtyb s" "avail t = avail s"
proof -
  show c: "cached t = cached s" using assms by (simp add: cached_def fun_eq_iff)
  show l: "locked t = locked s" using assms by (simp add: locked_def fun_eq_iff)
  show "holds t H = holds s H" "dirtyb t = dirtyb s" "avail t = avail s"
    using assms by (simp_all add: holds_def dirtyb_def avail_def c l)
qed

lemma cache_cong:
  assumes "bufs t = bufs s" "slocks t = slocks s" "memdisk t = memdisk s" "disksize t = disksize s" "quiet t p = quiet s p"
  shows "cache p t H C D X = cache p s H C D X"
proof -
  note b = cache_same_bufs [OF assms(1,2)]
  have d: "on_disk t = on_disk s" using assms(3) by (simp add: on_disk_def fun_eq_iff)
  have "buf_ok t = buf_ok s" using assms b d by (simp add: buf_ok_def fun_eq_iff)
  moreover have "content t = content s" by (rule ext) (simp add: content_def assms(1) b d split: option.split)
  ultimately show ?thesis using assms b d by (simp add: cache_def bc_ok_def)
qed

lemma cache_bwrite:
  assumes c: "cache p s H C D X" and i: "H i = Some b"
  shows "\<exists>t. bwrite i s = Ok () t \<and> cache p t H C (D(b := C b)) (X - {b}) \<and> untouched s t"
proof -
  have q: "quiet s p" and ok: "bc_ok s" using c by (auto simp: cache_def)
  note hd = cache_held [OF c i]
  obtain t where t: "bwrite i s = Ok () t" "quiet t p" "stirred s t" "bc_ok t" "slocks t = slocks s"
    "bufs t = (bufs s)[i := (bufs s ! i)\<lparr>b_dirty := False\<rparr>]" "content t = content s"
    "on_disk t = (on_disk s)(b := content s b)" "disksize t = disksize s" "bio_st.more t = bio_st.more s"
    using bwrite_run [OF q ok, of b i] hd by blast
  let ?s = "s\<lparr>bufs := bufs t\<rparr>"
  have "cache p ?s H (C(b := blk (b_data (bufs s ! i)))) D (if False then insert b X else X - {b})"
    using t(6) q by (intro cache_upd [OF c i]) simp_all
  then have "holds t H" "dirtyb t = X - {b}"
    using cache_same_bufs [of t ?s] t(5) by (simp_all add: cache_def)
  then have "cache p t H C (D(b := C b)) (X - {b})" using t c by (simp add: cache_def)
  then show ?thesis using t by (auto simp: untouched_def)
qed

text \<open>One step of copying: a held block becomes the copy of another one and is written to the disk.\<close>

lemma cache_copy:
  assumes c: "cache p s H C D X" and i: "H i = Some a" and j: "H j = Some b"
  shows "\<exists>t. run [withS (\<lambda>s. upd_buf j (\<lambda>x. x\<lparr>b_data := copy_bytes (b_data x) 0 (b_data (bufs s ! i)) 0 BSIZE\<rparr>)),
      bwrite j] s = Ok () t \<and> cache p t H (C(b := C a)) (D(b := C a)) (X - {b}) \<and> untouched s t"
proof -
  let ?d = "copy_bytes (b_data (bufs s ! j)) 0 (b_data (bufs s ! i)) 0 BSIZE"
  let ?s = "s\<lparr>bufs := (bufs s)[j := (bufs s ! j)\<lparr>b_data := ?d\<rparr>]\<rparr>"
  have "blk ?d = C a" using cache_data [OF c i] by (auto simp: blk_def copy_bytes_def fun_eq_iff)
  then obtain t where t: "bwrite j ?s = Ok () t" "untouched ?s t"
    "cache p t H (C(b := C a)) (D(b := C a)) (X - {b})"
    using cache_bwrite [OF cache_upd_data [OF c j, of ?d] j] by auto
  then show ?thesis by (auto simp: exec_simps upd_buf_def untouched_def)
qed

end
