(* ===== verification/Log.thy ===== *)
theory Log
  imports Cache
begin

text \<open>
  The redo log of \<open>log.c\<close>, with \<open>readsb\<close> of \<open>fs.c\<close>. The in-memory header is \<open>lh_n\<close> and
  \<open>lh_block\<close>; on disk it is the block \<open>log.start\<close>: the count at byte 0 and the block numbers
  from byte 4 on. The theory shows that a commit is atomic: at whatever point of its disk writes
  the machine stops, recovery leaves either all of the transaction's blocks or none of them.
\<close>

section \<open>Operations\<close>

definition MAXOPBLOCKS :: nat where "MAXOPBLOCKS = 10"
definition LOGSIZE :: nat where "LOGSIZE = MAXOPBLOCKS * 3"

record superblock =
  sb_size :: nat
  sb_nblocks :: nat
  sb_ninodes :: nat
  sb_nlog :: nat
  sb_logstart :: nat
  sb_inodestart :: nat
  sb_bmapstart :: nat

record log_st = bio_st +
  lg_start :: nat
  lg_size :: nat
  lg_outstanding :: int
  lg_committing :: bool
  lg_dev :: nat
  lh_n :: int
  lh_block :: "nat list"

definition sb_of :: "memory \<Rightarrow> superblock" where
  "sb_of d = \<lparr>sb_size = rd32 d 0, sb_nblocks = rd32 d 4, sb_ninodes = rd32 d 8, sb_nlog = rd32 d 12,
     sb_logstart = rd32 d 16, sb_inodestart = rd32 d 20, sb_bmapstart = rd32 d 24\<rparr>"

definition readsb :: "nat \<Rightarrow> ('z bio_st_scheme, superblock) cmd" where
  "readsb dev = bnd (bread dev 1) (\<lambda>bp. bnd (gets (\<lambda>s. sb_of (b_data (bufs s ! bp)))) (\<lambda>sb.
     andthen [brelse bp] (ret sb)))"

definition install_trans_body :: "nat \<Rightarrow> ('z log_st_scheme, unit) cmd" where
  "install_trans_body tail = withS (\<lambda>s0.
     bnd (bread (lg_dev s0) (lg_start s0 + tail + 1)) (\<lambda>lbuf.
     if LOGSIZE \<le> tail then undef ''log.lh.block[tail]'' else
     bnd (bread (lg_dev s0) (lh_block s0 ! tail)) (\<lambda>dbuf. run
       [withS (\<lambda>s. upd_buf dbuf (\<lambda>x. x\<lparr>b_data := copy_bytes (b_data x) 0 (b_data (bufs s ! lbuf)) 0 BSIZE\<rparr>)),
        bwrite dbuf,
        brelse lbuf,
        brelse dbuf])))"

definition install_trans :: "('z log_st_scheme, unit) cmd" where
  "install_trans = withS (\<lambda>s. forM [0..<nat (lh_n s)] install_trans_body)"

definition read_head_body :: "nat \<Rightarrow> nat \<Rightarrow> ('z log_st_scheme, unit) cmd" where
  "read_head_body buf i =
     (if LOGSIZE \<le> i then undef ''log.lh.block[i]'' else
      modify (\<lambda>s. s\<lparr>lh_block := (lh_block s)[i := rd32 (b_data (bufs s ! buf)) (4 + 4 * i)]\<rparr>))"

definition read_head :: "('z log_st_scheme, unit) cmd" where
  "read_head = withS (\<lambda>s0. bnd (bread (lg_dev s0) (lg_start s0)) (\<lambda>buf. run
     [modify (\<lambda>s. s\<lparr>lh_n := s32 (rd32 (b_data (bufs s ! buf)) 0)\<rparr>),
      withS (\<lambda>s. forM [0..<nat (lh_n s)] (read_head_body buf)),
      brelse buf]))"

primrec put_blocks :: "nat \<Rightarrow> nat list \<Rightarrow> memory \<Rightarrow> memory" where
  "put_blocks 0 bl d = d"
| "put_blocks (Suc n) bl d = wr32 (put_blocks n bl d) (4 + 4 * n) (bl ! n)"

definition write_head :: "('z log_st_scheme, unit) cmd" where
  "write_head = withS (\<lambda>s0. bnd (bread (lg_dev s0) (lg_start s0)) (\<lambda>buf. run
     [withS (\<lambda>s. upd_buf buf (\<lambda>x. x\<lparr>b_data := wr32 (b_data x) 0 (u32_of (lh_n s))\<rparr>)),
      withS (\<lambda>s. if int LOGSIZE < lh_n s then undef ''log.lh.block[i]''
        else upd_buf buf (\<lambda>x. x\<lparr>b_data := put_blocks (nat (lh_n s)) (lh_block s) (b_data x)\<rparr>)),
      bwrite buf,
      brelse buf]))"

definition recover_from_log :: "('z log_st_scheme, unit) cmd" where
  "recover_from_log = run
     [read_head,
      install_trans,
      modify (\<lambda>s. s\<lparr>lh_n := 0\<rparr>),
      write_head]"

definition initlog :: "nat \<Rightarrow> ('z log_st_scheme, unit) cmd" where
  "initlog dev = bnd (panic_if (\<lambda>_. BSIZE \<le> 4 + 4 * LOGSIZE) ''initlog: too big logheader'') (\<lambda>_.
     bnd (initlock LLog ''log'') (\<lambda>_. bnd (readsb dev) (\<lambda>sb. run
       [modify (\<lambda>s. s\<lparr>lg_start := sb_logstart sb\<rparr>),
        modify (\<lambda>s. s\<lparr>lg_size := sb_nlog sb\<rparr>),
        modify (\<lambda>s. s\<lparr>lg_dev := dev\<rparr>),
        recover_from_log])))"

text \<open>
  The loop of \<open>begin_op\<close> from the point where the lock is held. A process that has to wait goes
  to sleep, and comes back to the top of the loop in \<open>begin_op_return\<close>.
\<close>

definition begin_op_loop :: "('z log_st_scheme, unit) cmd" where
  "begin_op_loop = withS (\<lambda>s.
     if lg_committing s then sleep (Some ChLog) (Some LLog)
     else if int LOGSIZE < lh_n s + (lg_outstanding s + 1) * int MAXOPBLOCKS
       then sleep (Some ChLog) (Some LLog)
     else run [modify (\<lambda>s. s\<lparr>lg_outstanding := lg_outstanding s + 1\<rparr>), release LLog])"

definition begin_op :: "('z log_st_scheme, unit) cmd" where
  "begin_op = run [acquire LLog, begin_op_loop]"

definition begin_op_return :: "nat \<Rightarrow> ('z log_st_scheme, unit) cmd" where
  "begin_op_return intena = run [sleep_return LLog intena, begin_op_loop]"

definition write_log_body :: "nat \<Rightarrow> ('z log_st_scheme, unit) cmd" where
  "write_log_body tail = withS (\<lambda>s0.
     bnd (bread (lg_dev s0) (lg_start s0 + tail + 1)) (\<lambda>to.
     if LOGSIZE \<le> tail then undef ''log.lh.block[tail]'' else
     bnd (bread (lg_dev s0) (lh_block s0 ! tail)) (\<lambda>from. run
       [withS (\<lambda>s. upd_buf to (\<lambda>x. x\<lparr>b_data := copy_bytes (b_data x) 0 (b_data (bufs s ! from)) 0 BSIZE\<rparr>)),
        bwrite to,
        brelse from,
        brelse to])))"

definition write_log :: "('z log_st_scheme, unit) cmd" where
  "write_log = withS (\<lambda>s. forM [0..<nat (lh_n s)] write_log_body)"

definition commit :: "('z log_st_scheme, unit) cmd" where
  "commit = whenM (\<lambda>s. 0 < lh_n s) (run
     [write_log,
      write_head,
      install_trans,
      modify (\<lambda>s. s\<lparr>lh_n := 0\<rparr>),
      write_head])"

definition end_op :: "('z log_st_scheme, unit) cmd" where
  "end_op = bnd (run
     [acquire LLog,
      modify (\<lambda>s. s\<lparr>lg_outstanding := lg_outstanding s - 1\<rparr>),
      panic_if lg_committing ''log.committing'']) (\<lambda>_.
     bnd (gets (\<lambda>s. lg_outstanding s = 0)) (\<lambda>do_commit. run
     [if do_commit then modify (\<lambda>s. s\<lparr>lg_committing := True\<rparr>) else wakeup (Some ChLog),
      release LLog,
      if do_commit then run
        [commit,
         acquire LLog,
         modify (\<lambda>s. s\<lparr>lg_committing := False\<rparr>),
         wakeup (Some ChLog),
         release LLog]
      else skip]))"

definition log_add :: "nat \<Rightarrow> ('z log_st_scheme, unit) cmd" where
  "log_add b = withS (\<lambda>s. let n = nat (lh_n s); bn = b_blockno (bufs s ! b);
       i = (case first_idx (\<lambda>x. x = bn) (take n (lh_block s)) of Some i \<Rightarrow> i | None \<Rightarrow> n) in run
     [modify (\<lambda>s. s\<lparr>lh_block := (lh_block s)[i := bn]\<rparr>),
      if int i = lh_n s then modify (\<lambda>s. s\<lparr>lh_n := lh_n s + 1\<rparr>) else skip])"

definition log_write :: "nat \<Rightarrow> ('z log_st_scheme, unit) cmd" where
  "log_write b = run
     [panic_if (\<lambda>s. int LOGSIZE \<le> lh_n s \<or> int (lg_size s) - 1 \<le> lh_n s) ''too big a transaction'',
      panic_if (\<lambda>s. lg_outstanding s < 1) ''log_write outside of trans'',
      acquire LLog,
      log_add b,
      upd_buf b (\<lambda>x. x\<lparr>b_dirty := True\<rparr>),
      release LLog]"

section \<open>Log operations on the logical disk\<close>

lemma log_of_more:
  assumes "bio_st.more x = bio_st.more y"
  shows "lg_start x = lg_start y" "lg_size x = lg_size y" "lg_outstanding x = lg_outstanding y"
    "lg_committing x = lg_committing y" "lg_dev x = lg_dev y" "lh_n x = lh_n y" "lh_block x = lh_block y"
    "log_st.more x = log_st.more y"
  using assms by (cases x, cases y, simp)+

lemma untouched_log:
  assumes "untouched x y"
  shows "lg_start y = lg_start x" "lg_size y = lg_size x" "lg_outstanding y = lg_outstanding x"
    "lg_committing y = lg_committing x" "lg_dev y = lg_dev x" "lh_n y = lh_n x" "lh_block y = lh_block x"
    "log_st.more y = log_st.more x" "disksize y = disksize x"
  using assms log_of_more [of y x] by (simp_all add: untouched_def)

lemma map_two: "i \<noteq> j \<Longrightarrow> ((Map.empty(i \<mapsto> a, j \<mapsto> b))(j := None))(i := None) = Map.empty"
  "i \<noteq> j \<Longrightarrow> ((Map.empty(i \<mapsto> a, j \<mapsto> b))(i := None))(j := None) = Map.empty"
  by (auto simp: fun_eq_iff)

text \<open>Two blocks read one after the other.\<close>

lemma cache_bread2:
  assumes c: "cache p s Map.empty C D X" and ab: "a \<noteq> b" "a < disksize s" "b < disksize s" "card X < NBUF"
    "b \<in> X \<or> Suc (card X) < NBUF"
  shows "\<exists>i j t u. bread 1 a s = Ok i t \<and> bread 1 b t = Ok j u \<and> i \<noteq> j \<and>
    cache p u (Map.empty(i \<mapsto> a, j \<mapsto> b)) C D X \<and> untouched s u \<and> untouched s t"
proof -
  obtain i t where t: "bread 1 a s = Ok i t" "cache p t (Map.empty(i \<mapsto> a)) C D X" "untouched s t"
    using cache_bread [OF c, of a] ab by auto
  have "b < disksize t" using ab t(3) by (simp add: untouched_def)
  then obtain j u where "bread 1 b t = Ok j u" "(Map.empty(i \<mapsto> a)) j = None"
    "cache p u (Map.empty(i \<mapsto> a, j \<mapsto> b)) C D X" "untouched t u"
    using cache_bread [OF t(2), of b] ab by auto
  then show ?thesis using t untouched_trans [OF t(3)] by (metis fun_upd_same option.distinct(1))
qed

text \<open>
  The body of the two copying loops: block \<open>a\<close> in buffer \<open>i\<close> and block \<open>b\<close> in buffer \<open>j\<close>, both
  held; \<open>b\<close> is overwritten with \<open>a\<close> and written to the disk, and both are released.
\<close>

lemma cache_copy_release:
  assumes c: "cache p s H C D X" and H: "H i = Some a" "H j = Some b" "i \<noteq> j" "a \<noteq> b"
    and clean: "a \<in> X \<or> C a = D a"
  shows "\<exists>t. run [withS (\<lambda>s. upd_buf j (\<lambda>x. x\<lparr>b_data := copy_bytes (b_data x) 0 (b_data (bufs s ! i)) 0 BSIZE\<rparr>)),
      bwrite j, brelse i, brelse j] s = Ok () t \<and>
    cache p t (H(i := None, j := None)) (C(b := C a)) (D(b := C a)) (X - {b}) \<and> untouched s t"
proof -
  obtain v where v: "run [withS (\<lambda>s. upd_buf j (\<lambda>x. x\<lparr>b_data := copy_bytes (b_data x) 0 (b_data (bufs s ! i)) 0 BSIZE\<rparr>)),
      bwrite j] s = Ok () v"
    "cache p v H (C(b := C a)) (D(b := C a)) (X - {b})" "untouched s v"
    using cache_copy [OF c H(1,2)] by blast
  have "a \<in> X - {b} \<or> (C(b := C a)) a = (D(b := C a)) a" using clean H(4) by simp
  then obtain w where w: "brelse i v = Ok () w" "untouched v w"
    "cache p w (H(i := None)) (C(b := C a)) (D(b := C a)) (X - {b})"
    using cache_brelse [OF v(2) H(1)] by blast
  have "(H(i := None)) j = Some b" "b \<in> X - {b} \<or> (C(b := C a)) b = (D(b := C a)) b" using H by simp_all
  then obtain x where x: "brelse j w = Ok () x" "untouched w x"
    "cache p x (H(i := None, j := None)) (C(b := C a)) (D(b := C a)) (X - {b})"
    using cache_brelse [OF w(3)] by blast
  obtain v1 where "upd_buf j (\<lambda>x. x\<lparr>b_data := copy_bytes (b_data x) 0 (b_data (bufs s ! i)) 0 BSIZE\<rparr>) s = Ok () v1"
    "bwrite j v1 = Ok () v" using v(1) by (auto simp: exec_simps upd_buf_def split: outcome.splits)
  then have "run [withS (\<lambda>s. upd_buf j (\<lambda>x. x\<lparr>b_data := copy_bytes (b_data x) 0 (b_data (bufs s ! i)) 0 BSIZE\<rparr>)),
      bwrite j, brelse i, brelse j] s = Ok () x" using w(1) x(1) by (simp add: exec_simps)
  then show ?thesis using x untouched_trans [OF untouched_trans [OF v(3) w(2)] x(2)] by blast
qed

lemma write_log_body_run:
  assumes c: "cache p s Map.empty C D X" and k: "k < LOGSIZE" "lg_dev s = 1" "lg_start s + k + 1 < disksize s"
    and h: "lh_block s ! k < disksize s" "lh_block s ! k \<noteq> lg_start s + k + 1" "lh_block s ! k \<in> X" "card X < NBUF"
  shows "\<exists>t. write_log_body k s = Ok () t \<and> untouched s t \<and>
    cache p t Map.empty (C(lg_start s + k + 1 := C (lh_block s ! k))) (D(lg_start s + k + 1 := C (lh_block s ! k)))
      (X - {lg_start s + k + 1})"
proof -
  let ?a = "lg_start s + k + 1" let ?b = "lh_block s ! k"
  obtain i j t u where t: "bread 1 ?a s = Ok i t" "bread 1 ?b t = Ok j u" "i \<noteq> j"
    "cache p u (Map.empty(i \<mapsto> ?a, j \<mapsto> ?b)) C D X" "untouched s u"
    using cache_bread2 [OF c, of ?a ?b] k h by auto
  obtain x where x: "run [withS (\<lambda>s. upd_buf i (\<lambda>x. x\<lparr>b_data := copy_bytes (b_data x) 0 (b_data (bufs s ! j)) 0 BSIZE\<rparr>)),
      bwrite i, brelse j, brelse i] u = Ok () x" "untouched u x"
    "cache p x ((Map.empty(i \<mapsto> ?a, j \<mapsto> ?b))(j := None, i := None)) (C(?a := C ?b)) (D(?a := C ?b)) (X - {?a})"
    using cache_copy_release [OF t(4), of j ?b i ?a] t(3) h by auto
  have "write_log_body k s = Ok () x" using t(1,2) x(1) k
    by (simp add: write_log_body_def withS_def)
  then show ?thesis using x t untouched_trans [OF t(5) x(2)] by (simp add: map_two)
qed

lemma install_trans_body_run:
  assumes c: "cache p s Map.empty C D X" and k: "k < LOGSIZE" "lg_dev s = 1" "lg_start s + k + 1 < disksize s"
    and h: "lh_block s ! k < disksize s" "lh_block s ! k \<noteq> lg_start s + k + 1" "card X < NBUF"
      "lh_block s ! k \<in> X \<or> Suc (card X) < NBUF"
  shows "\<exists>t. install_trans_body k s = Ok () t \<and> untouched s t \<and>
    cache p t Map.empty (C(lh_block s ! k := C (lg_start s + k + 1))) (D(lh_block s ! k := C (lg_start s + k + 1)))
      (X - {lh_block s ! k})"
proof -
  let ?a = "lg_start s + k + 1" let ?b = "lh_block s ! k"
  obtain i j t u where t: "bread 1 ?a s = Ok i t" "bread 1 ?b t = Ok j u" "i \<noteq> j"
    "cache p u (Map.empty(i \<mapsto> ?a, j \<mapsto> ?b)) C D X" "untouched s u"
    using cache_bread2 [OF c, of ?a ?b] k h by auto
  have "?a \<in> X \<or> C ?a = D ?a" using cache_clean [OF c, of ?a] by auto
  then obtain x where x: "run [withS (\<lambda>s. upd_buf j (\<lambda>x. x\<lparr>b_data := copy_bytes (b_data x) 0 (b_data (bufs s ! i)) 0 BSIZE\<rparr>)),
      bwrite j, brelse i, brelse j] u = Ok () x" "untouched u x"
    "cache p x ((Map.empty(i \<mapsto> ?a, j \<mapsto> ?b))(i := None, j := None)) (C(?b := C ?a)) (D(?b := C ?a)) (X - {?b})"
    using cache_copy_release [OF t(4), of i ?a j ?b] t(3) h by auto
  have "install_trans_body k s = Ok () x" using t(1,2) x(1) k
    by (simp add: install_trans_body_def withS_def)
  then show ?thesis using x t untouched_trans [OF t(5) x(2)] by (simp add: map_two)
qed


lemma put_blocks_head: "rd32 (put_blocks n bl d) 0 = rd32 d 0"
  by (induction n) (simp_all add: rd32_wr32_other)

lemma put_blocks_nth: "i < n \<Longrightarrow> rd32 (put_blocks n bl d) (4 + 4 * i) = u32 (bl ! i)"
proof (induction n)
  case (Suc n)
  then show ?case by (cases "i = n") (simp_all add: rd32_wr32_other)
qed simp

lemma rd32_blk: "a + 4 \<le> BSIZE \<Longrightarrow> rd32 (blk d) a = rd32 d a"
  by (rule rd32_cong) (simp add: blk_def)

text \<open>\<open>is_head d n bl\<close>: block \<open>d\<close> is a log header for the first \<open>n\<close> block numbers of \<open>bl\<close>.\<close>

definition is_head :: "memory \<Rightarrow> nat \<Rightarrow> nat list \<Rightarrow> bool" where
  "is_head d n bl \<longleftrightarrow> rd32 d 0 = n \<and> (\<forall>i<n. rd32 d (4 + 4 * i) = bl ! i)"

lemma table_ok_log [simp]: "table_ok (s\<lparr>lh_n := n\<rparr>) = table_ok s" "table_ok (s\<lparr>lh_block := bl\<rparr>) = table_ok s"
  "table_ok (s\<lparr>lg_outstanding := k\<rparr>) = table_ok s" "table_ok (s\<lparr>lg_committing := c\<rparr>) = table_ok s"
  by (simp_all add: table_ok_def sched_inv_defs)

lemma quiet_log [simp]: "quiet (s\<lparr>lh_n := n\<rparr>) p = quiet s p" "quiet (s\<lparr>lh_block := bl\<rparr>) p = quiet s p"
  "quiet (s\<lparr>lg_outstanding := k\<rparr>) p = quiet s p" "quiet (s\<lparr>lg_committing := c\<rparr>) p = quiet s p"
  by (simp_all add: quiet_def on_cpu_def the_cpu_def table_ok_def sched_inv_defs)

lemma cache_log [simp]: "cache p (s\<lparr>lh_n := n\<rparr>) H C D X = cache p s H C D X"
  "cache p (s\<lparr>lh_block := bl\<rparr>) H C D X = cache p s H C D X"
  "cache p (s\<lparr>lg_outstanding := k\<rparr>) H C D X = cache p s H C D X"
  "cache p (s\<lparr>lg_committing := c\<rparr>) H C D X = cache p s H C D X"
  by (rule cache_cong; simp)+

lemma write_head_run:
  assumes c: "cache p s Map.empty C D X" and l: "lg_dev s = 1" "lg_start s < disksize s" "card X < NBUF"
    and n: "lh_n s = int n" "n \<le> LOGSIZE" "\<And>i. i < n \<Longrightarrow> lh_block s ! i < 2 ^ 32"
  shows "\<exists>t d. write_head s = Ok () t \<and> untouched s t \<and> is_head d n (lh_block s) \<and>
    cache p t Map.empty (C(lg_start s := d)) (D(lg_start s := d)) (X - {lg_start s})"
proof -
  let ?b = "lg_start s"
  obtain i t where t: "bread 1 ?b s = Ok i t" "cache p t (Map.empty(i \<mapsto> ?b)) C D X" "untouched s t"
    using cache_bread [OF c, of ?b] l by auto
  define H where "H = (Map.empty(i \<mapsto> ?b))"
  have m: "H i = Some ?b" "H(i := None) = Map.empty" "cache p t H C D X" using t(2) by (auto simp: H_def)
  let ?d = "put_blocks n (lh_block s) (wr32 (b_data (bufs t ! i)) 0 (u32_of (int n)))"
  let ?u = "t\<lparr>bufs := (bufs t)[i := (bufs t ! i)\<lparr>b_data := ?d\<rparr>]\<rparr>"
  obtain v where v: "bwrite i ?u = Ok () v" "untouched ?u v"
    "cache p v H (C(?b := blk ?d)) (D(?b := blk ?d)) (X - {?b})"
    using cache_bwrite [OF cache_upd_data [OF m(3,1), of ?d] m(1)] by auto
  obtain w where w: "brelse i v = Ok () w" "untouched v w"
    "cache p w Map.empty (C(?b := blk ?d)) (D(?b := blk ?d)) (X - {?b})"
    using cache_brelse [OF v(3) m(1)] unfolding m(2) by auto
  have len: "i < length (bufs t)" using cache_held [OF m(3,1)] bc_ok_ring [of t] t(2)
    by (auto simp: cache_def ring_def)
  have "lh_n t = int n" "lh_block t = lh_block s" using untouched_log [OF t(3)] n by simp_all
  then have "write_head s = Ok () w" using t(1) l n v(1) w(1) len
    by (simp add: write_head_def exec_simps upd_buf_def)
  moreover have "untouched s w" using t(3) v(2) w(2) untouched_trans [OF untouched_trans [OF t(3), of v] w(2)]
    by (simp add: untouched_def)
  moreover have "n < 4294967296" using n(2) by (simp add: LOGSIZE_def MAXOPBLOCKS_def)
  then have "is_head (blk ?d) n (lh_block s)"
    using n by (simp add: is_head_def rd32_blk put_blocks_head put_blocks_nth u32_def u32_of_def LOGSIZE_def
      MAXOPBLOCKS_def BSIZE_def)
  ultimately show ?thesis using w(3) by auto
qed


text \<open>The log apart from its header.\<close>

definition logframe :: "'z log_st_scheme \<Rightarrow> 'z log_st_scheme \<Rightarrow> bool" where
  "logframe s t \<longleftrightarrow> lg_start t = lg_start s \<and> lg_size t = lg_size s \<and> lg_dev t = lg_dev s \<and>
     lg_outstanding t = lg_outstanding s \<and> lg_committing t = lg_committing s \<and> disksize t = disksize s \<and>
     log_st.more t = log_st.more s \<and> stirred s t \<and> (\<forall>i. slocks t (SInode i) = slocks s (SInode i))"

lemma logframe_refl [simp]: "logframe s s"
  by (simp add: logframe_def)

lemma logframe_trans [trans]: "logframe s t \<Longrightarrow> logframe t u \<Longrightarrow> logframe s u"
  unfolding logframe_def using stirred_trans by metis

lemma untouched_logframe: "untouched s t \<Longrightarrow> logframe s t"
  using untouched_log [of s t] by (simp add: logframe_def untouched_def)

lemma stirred_lh [simp]: "stirred s (t\<lparr>lh_n := n\<rparr>) = stirred s t" "stirred s (t\<lparr>lh_block := bl\<rparr>) = stirred s t"
  by (simp_all add: stirred_def)

lemma logframe_lh [simp]: "logframe s (t\<lparr>lh_n := n\<rparr>) = logframe s t" "logframe s (t\<lparr>lh_block := bl\<rparr>) = logframe s t"
  by (simp_all add: logframe_def)

lemma read_head_loop:
  assumes t: "cache p t H C D X" "H i = Some b" "is_head (C b) n bl" "n \<le> LOGSIZE" "length (lh_block t) = LOGSIZE"
  shows "\<exists>u. forM [0..<n] (read_head_body i) t = Ok () u \<and> cache p u H C D X \<and> lh_n u = lh_n t \<and>
    length (lh_block u) = LOGSIZE \<and> (\<forall>k<n. lh_block u ! k = bl ! k) \<and> logframe t u"
proof -
  let ?J = "\<lambda>k u. \<exists>l. u = t\<lparr>lh_block := l\<rparr> \<and> length l = LOGSIZE \<and> (\<forall>j<k. l ! j = bl ! j)"
  have d: "rd32 (b_data (bufs t ! i)) (4 + 4 * k) = bl ! k" if "k < n" for k
  proof -
    have "4 + 4 * k + 4 \<le> BSIZE" using that t(4) by (simp add: BSIZE_def LOGSIZE_def MAXOPBLOCKS_def)
    then show ?thesis using t(3) that cache_data [OF t(1,2)] rd32_blk [of "4 + 4 * k" "b_data (bufs t ! i)"]
      by (simp add: is_head_def)
  qed
  have "\<exists>u. forM [0..<n] (read_head_body i) t = Ok () u \<and> ?J n u"
  proof (rule forM_upt_Ok [where J = ?J])
    fix k u assume k: "k < n" and "?J k u"
    then obtain l where l: "u = t\<lparr>lh_block := l\<rparr>" "length l = LOGSIZE" "\<forall>j<k. l ! j = bl ! j" by blast
    have "read_head_body i k u = Ok () (t\<lparr>lh_block := l[k := bl ! k]\<rparr>)"
      using k t(4) l d [OF k] by (simp add: read_head_body_def exec_simps)
    moreover have "\<forall>j<Suc k. l[k := bl ! k] ! j = bl ! j" using l k t(4) by (auto simp: less_Suc_eq)
    ultimately show "\<exists>v. read_head_body i k u = Ok () v \<and> ?J (Suc k) v" using l by auto
  next
    show "?J 0 t" using t(5) by (intro exI [of _ "lh_block t"]) simp
  qed
  then obtain l where "forM [0..<n] (read_head_body i) t = Ok () (t\<lparr>lh_block := l\<rparr>)" "length l = LOGSIZE"
    "\<forall>j<n. l ! j = bl ! j" by blast
  then show ?thesis using t(1) by simp
qed

lemma read_head_run:
  assumes c: "cache p s Map.empty C D X" and l: "lg_dev s = 1" "lg_start s < disksize s" "card X < NBUF"
    and h: "is_head (C (lg_start s)) n bl" "n \<le> LOGSIZE" "length (lh_block s) = LOGSIZE"
  shows "\<exists>t. read_head s = Ok () t \<and> cache p t Map.empty C D X \<and> lh_n t = int n \<and>
    length (lh_block t) = LOGSIZE \<and> (\<forall>k<n. lh_block t ! k = bl ! k) \<and> logframe s t"
proof -
  let ?b = "lg_start s"
  obtain i t where t: "bread 1 ?b s = Ok i t" "cache p t (Map.empty(i \<mapsto> ?b)) C D X" "untouched s t"
    using cache_bread [OF c, of ?b] l by auto
  define H where "H = (Map.empty(i \<mapsto> ?b))"
  have m: "H i = Some ?b" "H(i := None) = Map.empty" "cache p t H C D X" using t(2) by (auto simp: H_def)
  have n: "int n < 2147483648" using h(2) by (simp add: LOGSIZE_def MAXOPBLOCKS_def)
  have "rd32 (b_data (bufs t ! i)) 0 = n"
    using h(1) cache_data [OF m(3,1)] rd32_blk [of 0 "b_data (bufs t ! i)"] by (simp add: is_head_def BSIZE_def)
  then have hn: "s32 (rd32 (b_data (bufs t ! i)) 0) = int n" using n by (simp add: s32_def)
  let ?t = "t\<lparr>lh_n := int n\<rparr>"
  have ct: "cache p ?t H C D X" "length (lh_block ?t) = LOGSIZE" using m(3) h(3) untouched_log(7) [OF t(3)] by simp_all
  obtain u where u: "forM [0..<n] (read_head_body i) ?t = Ok () u" "cache p u H C D X" "lh_n u = int n"
    "length (lh_block u) = LOGSIZE" "\<forall>k<n. lh_block u ! k = bl ! k" "logframe ?t u"
    using read_head_loop [OF ct(1) m(1) h(1,2) ct(2)] by auto
  have cb: "?b \<in> X \<or> C ?b = D ?b" using cache_clean [OF c, of ?b] by auto
  obtain w where w: "brelse i u = Ok () w" "untouched u w" "cache p w Map.empty C D X"
    using cache_brelse [OF u(2) m(1) cb] unfolding m(2) by auto
  have "read_head s = Ok () w" using t(1) l hn u(1) w(1) by (simp add: read_head_def exec_simps)
  moreover have "logframe t u" using u(6) by (simp add: logframe_def stirred_def)
  then have "logframe s w"
    using logframe_trans [OF logframe_trans [OF untouched_logframe [OF t(3)]] untouched_logframe [OF w(2)]] by blast
  ultimately show ?thesis using u w(3) untouched_log [OF w(2)] by auto
qed


section \<open>The copying loops\<close>

text \<open>
  \<open>log_wf st n bl N\<close>: the \<open>n\<close> blocks of a transaction are distinct, on the disk of \<open>N\<close> blocks, and
  outside the log, which starts at \<open>st\<close>. \<open>logcopy\<close> is the effect of copying the first \<open>k\<close> of them
  into the log, \<open>installed\<close> that of copying them from the log to their places.
\<close>

definition log_wf :: "nat \<Rightarrow> nat \<Rightarrow> nat list \<Rightarrow> nat \<Rightarrow> bool" where
  "log_wf st n bl N \<longleftrightarrow> n < LOGSIZE \<and> length bl = LOGSIZE \<and> st + LOGSIZE \<le> N \<and> distinct (take n bl) \<and>
     (\<forall>i<n. bl ! i < N \<and> bl ! i < 2 ^ 32 \<and> (bl ! i < st \<or> st + LOGSIZE \<le> bl ! i))"

definition logcopy :: "nat \<Rightarrow> nat list \<Rightarrow> nat \<Rightarrow> (nat \<Rightarrow> memory) \<Rightarrow> (nat \<Rightarrow> memory) \<Rightarrow> nat \<Rightarrow> memory" where
  "logcopy st bl k C D b = (if st < b \<and> b \<le> st + k then C (bl ! (b - st - 1)) else D b)"

definition installed :: "nat \<Rightarrow> nat list \<Rightarrow> nat \<Rightarrow> (nat \<Rightarrow> memory) \<Rightarrow> (nat \<Rightarrow> memory) \<Rightarrow> nat \<Rightarrow> memory" where
  "installed st bl k C D b = (case first_idx (\<lambda>x. x = b) (take k bl) of Some i \<Rightarrow> C (st + i + 1) | None \<Rightarrow> D b)"

lemma logcopy_0: "logcopy st bl 0 C D = D"
  by (auto simp: logcopy_def fun_eq_iff)

lemma logcopy_Suc: "logcopy st bl (Suc k) C D = (logcopy st bl k C D)(st + k + 1 := C (bl ! k))"
  by (auto simp: logcopy_def fun_eq_iff)

lemma installed_0: "installed st bl 0 C D = D"
  by (simp add: installed_def fun_eq_iff)

lemma installed_other: "b \<notin> set (take k bl) \<Longrightarrow> installed st bl k C D b = D b"
  using first_idx_from_None [of 0 "\<lambda>x. x = b" "take k bl"] by (auto simp: installed_def)

lemma installed_nth:
  assumes "distinct (take k bl)" "i < k" "k \<le> length bl"
  shows "installed st bl k C D (bl ! i) = C (st + i + 1)"
proof -
  have n: "take k bl ! i = bl ! i" "i < length (take k bl)" using assms by auto
  have "first_idx (\<lambda>x. x = bl ! i) (take k bl) = Some i"
    using first_idx_distinct [of id "take k bl" i] assms(1) n by (simp add: map_idI)
  then show ?thesis by (simp add: installed_def)
qed

lemma installed_Suc:
  assumes "distinct (take (Suc k) bl)" "Suc k \<le> length bl"
  shows "installed st bl (Suc k) C D = (installed st bl k C D)(bl ! k := C (st + k + 1))"
proof
  fix b
  have t: "take (Suc k) bl = take k bl @ [bl ! k]" using assms(2) by (simp add: take_Suc_conv_app_nth)
  show "installed st bl (Suc k) C D b = ((installed st bl k C D)(bl ! k := C (st + k + 1))) b"
  proof (cases "b \<in> set (take (Suc k) bl)")
    case False
    then show ?thesis by (simp add: t installed_other)
  next
    case True
    then obtain i where i: "i < Suc k" "b = bl ! i" using assms(2) by (auto simp: in_set_conv_nth)
    show ?thesis
    proof (cases "i = k")
      case True
      then show ?thesis using installed_nth [OF assms(1) i(1) assms(2)] i by simp
    next
      case False
      then have "i < k" "bl ! i \<in> set (take k bl)" using i assms(2) by (auto simp: in_set_conv_nth intro!: exI [of _ i])
      moreover then have "bl ! i \<noteq> bl ! k" using assms(1) t by auto
      ultimately show ?thesis using installed_nth [OF assms(1) i(1) assms(2)] installed_nth [of k bl i] assms t i by simp
    qed
  qed
qed

lemma write_log_loop:
  assumes c: "cache p s Map.empty C D X" and dev: "lg_dev s = 1"
    and wf: "log_wf (lg_start s) n (lh_block s) (disksize s)"
    and X: "X \<inter> {lg_start s..<lg_start s + LOGSIZE} = {}" "set (take n (lh_block s)) \<subseteq> X" "card X < NBUF" and m: "m \<le> n"
  shows "\<exists>t. forM [0..<m] write_log_body s = Ok () t \<and> untouched s t \<and>
    cache p t Map.empty (logcopy (lg_start s) (lh_block s) m C C) (logcopy (lg_start s) (lh_block s) m C D) X"
proof -
  let ?st = "lg_start s" let ?bl = "lh_block s"
  let ?J = "\<lambda>k t. untouched s t \<and> cache p t Map.empty (logcopy ?st ?bl k C C) (logcopy ?st ?bl k C D) X"
  have "\<exists>t. forM [0..<m] write_log_body s = Ok () t \<and> ?J m t"
  proof (rule forM_upt_Ok [where J = ?J])
    fix k t assume k: "k < m" and J: "?J k t"
    note u = untouched_log [OF conjunct1 [OF J]]
    have b: "Suc k < LOGSIZE" "?bl ! k < disksize s" "?bl ! k < ?st \<or> ?st + LOGSIZE \<le> ?bl ! k" "?st + k + 1 < disksize s"
      "length ?bl = LOGSIZE"
      using wf k m by (auto simp: log_wf_def)
    have "?bl ! k \<in> set (take n ?bl)" using k m b by (auto simp: in_set_conv_nth intro!: exI [of _ k])
    then have bX: "?bl ! k \<in> X" using X(2) by blast
    have "logcopy ?st ?bl k C C (?bl ! k) = C (?bl ! k)" using b by (auto simp: logcopy_def)
    moreover have "X - {?st + k + 1} = X" using X(1) b(1) by auto
    ultimately show "\<exists>v. write_log_body k t = Ok () v \<and> ?J (Suc k) v"
      using write_log_body_run [of p t "logcopy ?st ?bl k C C" "logcopy ?st ?bl k C D" X k] J u b bX X(3) dev
        untouched_trans [of s t] by (auto simp: logcopy_Suc)
  qed (use c in \<open>simp add: logcopy_0\<close>)
  then show ?thesis by blast
qed

lemma install_loop:
  assumes c: "cache p s Map.empty C D X" and dev: "lg_dev s = 1"
    and wf: "log_wf (lg_start s) n (lh_block s) (disksize s)"
    and X: "card X < NBUF" "set (take n (lh_block s)) \<subseteq> X \<or> Suc (card X) < NBUF" and m: "m \<le> n"
  shows "\<exists>t. forM [0..<m] install_trans_body s = Ok () t \<and> untouched s t \<and>
    cache p t Map.empty (installed (lg_start s) (lh_block s) m C C) (installed (lg_start s) (lh_block s) m C D)
      (X - set (take m (lh_block s)))"
proof -
  let ?st = "lg_start s" let ?bl = "lh_block s"
  let ?J = "\<lambda>k t. untouched s t \<and>
    cache p t Map.empty (installed ?st ?bl k C C) (installed ?st ?bl k C D) (X - set (take k ?bl))"
  have fin: "finite X" using c finite_dirtyb by (auto simp: cache_def)
  have "\<exists>t. forM [0..<m] install_trans_body s = Ok () t \<and> ?J m t"
  proof (rule forM_upt_Ok [where J = ?J])
    fix k t assume k: "k < m" and J: "?J k t"
    note u = untouched_log [OF conjunct1 [OF J]]
    let ?X = "X - set (take k ?bl)"
    have b: "Suc k < LOGSIZE" "?bl ! k < disksize s" "?bl ! k < ?st \<or> ?st + LOGSIZE \<le> ?bl ! k" "?st + k + 1 < disksize s"
      "length ?bl = LOGSIZE"
      using wf k m by (auto simp: log_wf_def)
    have d: "distinct (take (Suc k) ?bl)" using wf k m distinct_take [of "take n ?bl" "Suc k"] by (simp add: log_wf_def min_def)
    have tk: "take (Suc k) ?bl = take k ?bl @ [?bl ! k]" using b by (simp add: take_Suc_conv_app_nth)
    have "?bl ! k \<in> set (take n ?bl)" using k m b by (auto simp: in_set_conv_nth intro!: exI [of _ k])
    then have bX: "?bl ! k \<in> ?X \<or> Suc (card ?X) < NBUF"
      using X(2) d tk card_mono [OF fin, of ?X] by auto
    have cX: "card ?X < NBUF" using X(1) card_mono [OF fin, of ?X] by auto
    have "?bl ! i \<noteq> ?st + k + 1" if "i < k" for i
    proof -
      have "?bl ! i < ?st \<or> ?st + LOGSIZE \<le> ?bl ! i" using wf that k m by (simp add: log_wf_def)
      then show ?thesis using b(1) by auto
    qed
    then have "?st + k + 1 \<notin> set (take k ?bl)" by (auto simp: in_set_conv_nth)
    then have "installed ?st ?bl k C C (?st + k + 1) = C (?st + k + 1)" by (rule installed_other)
    moreover have "?X - {?bl ! k} = X - set (take (Suc k) ?bl)" using tk by auto
    moreover have "?bl ! k \<noteq> ?st + k + 1" using b by auto
    ultimately show "\<exists>v. install_trans_body k t = Ok () v \<and> ?J (Suc k) v"
      using install_trans_body_run [of p t "installed ?st ?bl k C C" "installed ?st ?bl k C D" ?X k] J u b bX cX dev
        untouched_trans [of s t] installed_Suc [OF d] by auto
  qed (use c in \<open>simp add: installed_0\<close>)
  then show ?thesis by blast
qed


section \<open>Recovery and commit\<close>

lemma log_wf_cong:
  assumes "take n bl = take n bl'" "length bl = length bl'"
  shows "log_wf st n bl N = log_wf st n bl' N"
proof (cases "n \<le> length bl'")
  case True
  then have "bl ! i = bl' ! i" if "i < n" for i using that assms by (metis nth_take)
  then show ?thesis using assms by (auto simp: log_wf_def)
next
  case False
  then show ?thesis using assms by (auto simp: log_wf_def)
qed

lemma installed_cong: "take n bl = take n bl' \<Longrightarrow> installed st bl n C D = installed st bl' n C D"
  by (simp add: installed_def fun_eq_iff)

lemma recover_run:
  assumes c: "cache p s Map.empty C C {}" and dev: "lg_dev s = 1" "length (lh_block s) = LOGSIZE"
    and h: "is_head (C (lg_start s)) n bl" and wf: "log_wf (lg_start s) n bl (disksize s)"
  shows "\<exists>t d. recover_from_log s = Ok () t \<and> is_head d 0 [] \<and> lh_n t = 0 \<and> logframe s t \<and>
    cache p t Map.empty ((installed (lg_start s) bl n C C)(lg_start s := d))
      ((installed (lg_start s) bl n C C)(lg_start s := d)) {}"
proof -
  have b: "lg_start s < disksize s" "n \<le> LOGSIZE" "card ({} :: nat set) < NBUF" "Suc (card ({} :: nat set)) < NBUF"
    using wf by (simp_all add: log_wf_def NBUF_def)
  obtain t where t: "read_head s = Ok () t" "cache p t Map.empty C C {}" "lh_n t = int n"
    "length (lh_block t) = LOGSIZE" "\<forall>k<n. lh_block t ! k = bl ! k" "logframe s t"
    using read_head_run [OF c dev(1) b(1,3) h b(2) dev(2)] by blast
  have f: "lg_start t = lg_start s" "lg_dev t = 1" "disksize t = disksize s" using t(6) dev by (simp_all add: logframe_def)
  have tk: "take n (lh_block t) = take n bl"
    using t(4,5) wf by (intro nth_equalityI) (auto simp: log_wf_def)
  moreover have "length (lh_block t) = length bl" using t(4) wf by (simp add: log_wf_def)
  ultimately have wf': "log_wf (lg_start t) n (lh_block t) (disksize t)" using log_wf_cong wf f by metis
  obtain u where u: "forM [0..<n] install_trans_body t = Ok () u" "untouched t u"
    "cache p u Map.empty (installed (lg_start s) bl n C C) (installed (lg_start s) bl n C C) {}"
    using install_loop [OF t(2) f(2) wf' b(3) disjI2 [OF b(4)] order_refl] f installed_cong [OF tk] by auto
  note g = untouched_log [OF u(2)]
  let ?u = "u\<lparr>lh_n := 0\<rparr>"
  obtain w d where w: "write_head ?u = Ok () w" "untouched ?u w" "is_head d 0 (lh_block ?u)"
    "cache p w Map.empty ((installed (lg_start s) bl n C C)(lg_start s := d))
      ((installed (lg_start s) bl n C C)(lg_start s := d)) {}"
    using write_head_run [of p ?u "installed (lg_start s) bl n C C" "installed (lg_start s) bl n C C" "{}" 0] u(3) f g b by auto
  have "recover_from_log s = Ok () w" using t(1,3) u(1) w(1)
    by (simp add: recover_from_log_def install_trans_def exec_simps)
  moreover have "logframe s ?u" using logframe_trans [OF t(6) untouched_logframe [OF u(2)]] by simp
  then have "logframe s w" using logframe_trans untouched_logframe [OF w(2)] by blast
  moreover have "lh_n w = 0" using untouched_log(6) [OF w(2)] by simp
  ultimately show ?thesis using w(3,4) by (auto simp: is_head_def)
qed

text \<open>
  A commit cut off after its first \<open>j\<close> disk writes: the \<open>n\<close> log blocks, the header, the \<open>n\<close> home
  blocks, and the header again. Each of the loop bodies writes one block.
\<close>

definition commit_upto :: "nat \<Rightarrow> ('z log_st_scheme, unit) cmd" where
  "commit_upto j = withS (\<lambda>s. let n = nat (lh_n s) in run
     [forM [0..<min j n] write_log_body,
      if n < j then write_head else skip,
      forM [0..<min (j - n - 1) n] install_trans_body,
      if 2 * n + 1 < j then run [modify (\<lambda>s. s\<lparr>lh_n := 0\<rparr>), write_head] else skip])"

text \<open>The state in which a transaction is committed: its blocks are the dirty ones.\<close>

definition committable :: "nat \<Rightarrow> 'z log_st_scheme \<Rightarrow> nat \<Rightarrow> (nat \<Rightarrow> memory) \<Rightarrow> (nat \<Rightarrow> memory) \<Rightarrow> bool" where
  "committable p s n C D \<longleftrightarrow> cache p s Map.empty C D (set (take n (lh_block s))) \<and> lg_dev s = 1 \<and> lh_n s = int n \<and>
     n < NBUF \<and> log_wf (lg_start s) n (lh_block s) (disksize s)"

definition log_region :: "'z log_st_scheme \<Rightarrow> nat set" where
  "log_region s = {lg_start s..<lg_start s + LOGSIZE}"

lemma committable_log:
  assumes c: "committable p s n C D" and m: "m \<le> n"
  shows "\<exists>t. forM [0..<m] write_log_body s = Ok () t \<and> untouched s t \<and>
    cache p t Map.empty (logcopy (lg_start s) (lh_block s) m C C) (logcopy (lg_start s) (lh_block s) m C D)
      (set (take n (lh_block s)))"
proof -
  have wf: "log_wf (lg_start s) n (lh_block s) (disksize s)" and cc: "cache p s Map.empty C D (set (take n (lh_block s)))"
    and dev: "lg_dev s = 1" and n: "n < NBUF" using c by (simp_all add: committable_def)
  have "lh_block s ! i \<notin> {lg_start s..<lg_start s + LOGSIZE}" if "i < n" for i using wf that by (auto simp: log_wf_def)
  then have X: "set (take n (lh_block s)) \<inter> {lg_start s..<lg_start s + LOGSIZE} = {}"
    by (force simp: in_set_conv_nth)
  have card: "card (set (take n (lh_block s))) < NBUF" using n card_length [of "take n (lh_block s)"] by simp
  show ?thesis using write_log_loop [OF cc dev wf X order_refl card m] .
qed


lemma committableD:
  assumes "committable p s n C D"
  shows "n < LOGSIZE" "length (lh_block s) = LOGSIZE" "lg_start s + LOGSIZE \<le> disksize s" "lg_dev s = 1" "lh_n s = int n"
    "distinct (take n (lh_block s))" "card (set (take n (lh_block s))) < NBUF"
    "\<And>i. i < n \<Longrightarrow> lh_block s ! i < 2 ^ 32 \<and> lh_block s ! i \<notin> log_region s"
    "lg_start s \<in> log_region s" "\<And>b. b \<in> set (take n (lh_block s)) \<Longrightarrow> b \<notin> log_region s"
    "lg_start s < disksize s"
proof -
  show "n < LOGSIZE" "length (lh_block s) = LOGSIZE" "lg_start s + LOGSIZE \<le> disksize s" "lg_dev s = 1" "lh_n s = int n"
    "distinct (take n (lh_block s))" "lg_start s \<in> log_region s" "lg_start s < disksize s"
    using assms by (simp_all add: committable_def log_wf_def log_region_def)
  show "card (set (take n (lh_block s))) < NBUF"
    using assms card_length [of "take n (lh_block s)"] by (simp add: committable_def)
  show r: "lh_block s ! i < 2 ^ 32 \<and> lh_block s ! i \<notin> log_region s" if "i < n" for i
    using assms that by (auto simp: committable_def log_wf_def log_region_def)
  show "b \<notin> log_region s" if "b \<in> set (take n (lh_block s))" for b
    using that r by (auto simp: in_set_conv_nth)
qed

text \<open>The header is written: from here on the transaction counts as committed.\<close>

lemma committable_head:
  assumes c: "committable p s n C D"
  shows "\<exists>t u d. forM [0..<n] write_log_body s = Ok () t \<and> write_head t = Ok () u \<and> untouched s t \<and> untouched s u \<and>
    is_head d n (lh_block s) \<and> cache p u Map.empty ((logcopy (lg_start s) (lh_block s) n C C)(lg_start s := d))
      ((logcopy (lg_start s) (lh_block s) n C D)(lg_start s := d)) (set (take n (lh_block s)))"
proof -
  let ?X = "set (take n (lh_block s))"
  note cd = committableD [OF c]
  obtain t where t: "forM [0..<n] write_log_body s = Ok () t" "untouched s t" "cache p t Map.empty
    (logcopy (lg_start s) (lh_block s) n C C) (logcopy (lg_start s) (lh_block s) n C D) ?X"
    using committable_log [OF c order_refl] by blast
  note f = untouched_log [OF t(2)]
  have "lg_start t < disksize t" "lg_dev t = 1" "lh_n t = int n" using f cd(4,5,11) by simp_all
  moreover have "\<And>i. i < n \<Longrightarrow> lh_block t ! i < 2 ^ 32" using f cd(8) by simp
  ultimately obtain u d where u: "write_head t = Ok () u" "untouched t u" "is_head d n (lh_block t)"
    "cache p u Map.empty ((logcopy (lg_start s) (lh_block s) n C C)(lg_start t := d))
      ((logcopy (lg_start s) (lh_block s) n C D)(lg_start t := d)) (?X - {lg_start t})"
    using write_head_run [OF t(3) _ _ cd(7) _ less_imp_le [OF cd(1)]] by blast
  moreover have "?X - {lg_start t} = ?X" using cd(9,10) f by auto
  ultimately show ?thesis using t f untouched_trans [OF t(2) u(2)] by auto
qed

lemma committable_install:
  assumes c: "committable p s n C D" and k: "k \<le> n"
  shows "\<exists>t u v d. forM [0..<n] write_log_body s = Ok () t \<and> write_head t = Ok () u \<and>
    forM [0..<k] install_trans_body u = Ok () v \<and> untouched s u \<and> untouched s v \<and> is_head d n (lh_block s) \<and>
    on_disk v (lg_start s) = d \<and> (\<forall>i<n. on_disk v (lg_start s + i + 1) = C (lh_block s ! i)) \<and>
    (\<forall>b. b \<notin> log_region s \<longrightarrow> on_disk v b = (if b \<in> set (take k (lh_block s)) then C b else D b)) \<and>
    cache p v Map.empty (content v) (on_disk v) (set (take n (lh_block s)) - set (take k (lh_block s)))"
proof -
  let ?st = "lg_start s" let ?bl = "lh_block s" let ?X = "set (take n ?bl)"
  note cd = committableD [OF c]
  obtain t u d where t: "forM [0..<n] write_log_body s = Ok () t" "write_head t = Ok () u" "untouched s t" "untouched s u"
    "is_head d n ?bl" and u: "cache p u Map.empty ((logcopy ?st ?bl n C C)(?st := d)) ((logcopy ?st ?bl n C D)(?st := d)) ?X"
    using committable_head [OF c] by blast
  note f = untouched_log [OF t(4)]
  let ?C = "(logcopy ?st ?bl n C C)(?st := d)" let ?D = "(logcopy ?st ?bl n C D)(?st := d)"
  have wf: "log_wf (lg_start u) n (lh_block u) (disksize u)" "lg_dev u = 1" using c f by (simp_all add: committable_def)
  have "set (take n (lh_block u)) \<subseteq> ?X \<or> Suc (card ?X) < NBUF" using f by simp
  then obtain v where v: "forM [0..<k] install_trans_body u = Ok () v" "untouched u v"
    "cache p v Map.empty (installed ?st ?bl k ?C ?C) (installed ?st ?bl k ?C ?D) (?X - set (take k ?bl))"
    using install_loop [OF u wf(2,1) cd(7) _ k] f by auto
  have D': "on_disk v = installed ?st ?bl k ?C ?D" and C': "content v = installed ?st ?bl k ?C ?C"
    using v(3) by (simp_all add: cache_def)
  have sub: "set (take k ?bl) \<subseteq> ?X" using k by (meson set_take_subset_set_take)
  have nt: "b \<notin> set (take k ?bl)" if "b \<in> log_region s" for b using that cd(10) sub by blast
  have lc: "logcopy ?st ?bl n C D (?st + i + 1) = C (?bl ! i)" if "i < n" for i D using that by (simp add: logcopy_def)
  have dk: "distinct (take k ?bl)" using cd(6) k distinct_take [of "take n ?bl" k] by (simp add: min_def)
  have "on_disk v ?st = d" using nt [OF cd(9)] by (simp add: D' installed_other)
  moreover have "on_disk v (?st + i + 1) = C (?bl ! i)" if "i < n" for i
    using that nt [of "?st + i + 1"] lc cd(1) by (simp add: D' installed_other log_region_def)
  moreover have "on_disk v b = (if b \<in> set (take k ?bl) then C b else D b)" if b: "b \<notin> log_region s" for b
  proof (cases "b \<in> set (take k ?bl)")
    case True
    then obtain i where i: "i < k" "b = ?bl ! i" using k cd(1,2) by (auto simp: in_set_conv_nth)
    have "on_disk v b = ?C (?st + i + 1)" using installed_nth [OF dk i(1)] i k cd(1,2) by (simp add: D')
    then show ?thesis using True i k lc [of i C] by simp
  next
    case False
    then show ?thesis using b cd(1) by (auto simp: D' installed_other logcopy_def log_region_def)
  qed
  moreover have "cache p v Map.empty (content v) (on_disk v) (?X - set (take k ?bl))" using v(3) C' D' by simp
  ultimately show ?thesis using t(1,2,4,5) v(1) untouched_trans [OF t(4) v(2)] by blast
qed


text \<open>
  What the disk can look like when the machine stops: \<open>pending\<close>, the header and the log hold the
  transaction; or the header is empty, and the other blocks are all old or all new.
\<close>

definition pending :: "'z log_st_scheme \<Rightarrow> nat \<Rightarrow> (nat \<Rightarrow> memory) \<Rightarrow> (nat \<Rightarrow> memory) \<Rightarrow> bool" where
  "pending s n C E \<longleftrightarrow> is_head (E (lg_start s)) n (lh_block s) \<and> (\<forall>i<n. E (lg_start s + i + 1) = C (lh_block s ! i)) \<and>
     (\<forall>b. b \<notin> log_region s \<longrightarrow> b \<notin> set (take n (lh_block s)) \<longrightarrow> E b = C b)"

definition settled :: "'z log_st_scheme \<Rightarrow> (nat \<Rightarrow> memory) \<Rightarrow> (nat \<Rightarrow> memory) \<Rightarrow> bool" where
  "settled s C E \<longleftrightarrow> rd32 (E (lg_start s)) 0 = 0 \<and> (\<forall>b. b \<notin> log_region s \<longrightarrow> E b = C b)"

lemma committable_clean:
  assumes "committable p s n C D" "b \<notin> set (take n (lh_block s))"
  shows "C b = D b"
  using assms cache_clean [of p s Map.empty C D "set (take n (lh_block s))" b] by (simp add: committable_def)

lemma commit_upto_run:
  assumes c: "committable p s n C D" and old: "rd32 (D (lg_start s)) 0 = 0"
  shows "\<exists>u. commit_upto j s = Ok () u \<and>
    (if j \<le> n then settled s D (on_disk u) else pending s n C (on_disk u) \<or> settled s C (on_disk u))"
proof -
  let ?st = "lg_start s" let ?bl = "lh_block s"
  note cd = committableD [OF c]
  show ?thesis
  proof (cases "j \<le> n")
    case True
    then obtain t where t: "forM [0..<j] write_log_body s = Ok () t" "untouched s t"
      "cache p t Map.empty (logcopy ?st ?bl j C C) (logcopy ?st ?bl j C D) (set (take n ?bl))"
      using committable_log [OF c True] by blast
    have "on_disk t = logcopy ?st ?bl j C D" using t(3) by (simp add: cache_def)
    then have "settled s D (on_disk t)" using old True cd(1) by (auto simp: settled_def logcopy_def log_region_def)
    moreover have "commit_upto j s = Ok () t" using True t(1) cd(5)
      by (simp add: commit_upto_def exec_simps Let_def min_def)
    ultimately show ?thesis using True by auto
  next
    case False
    define k where "k = min (j - n - 1) n"
    have k: "k \<le> n" by (simp add: k_def)
    obtain t u v d where t: "forM [0..<n] write_log_body s = Ok () t" "write_head t = Ok () u"
      "forM [0..<k] install_trans_body u = Ok () v" "untouched s v" "is_head d n ?bl" "on_disk v ?st = d"
      "\<forall>i<n. on_disk v (?st + i + 1) = C (?bl ! i)"
      "\<forall>b. b \<notin> log_region s \<longrightarrow> on_disk v b = (if b \<in> set (take k ?bl) then C b else D b)"
      "cache p v Map.empty (content v) (on_disk v) (set (take n ?bl) - set (take k ?bl))"
      using committable_install [OF c k] by blast
    have cb: "on_disk v b = C b" if "b \<notin> log_region s" "b \<notin> set (take n ?bl) \<or> k = n" for b
      using that t(8) committable_clean [OF c, of b] by auto
    have run: "commit_upto j s = (if 2 * n + 1 < j then run [modify (\<lambda>s. s\<lparr>lh_n := 0\<rparr>), write_head] else skip) v"
      using False t(1-3) cd(5) k_def [symmetric] by (simp add: commit_upto_def withS_def Let_def)
    show ?thesis
    proof (cases "2 * n + 1 < j")
      case no: False
      then have "pending s n C (on_disk v)" using t(5-7) cb by (auto simp: pending_def)
      then show ?thesis using run no False by (simp add: exec_simps)
    next
      case yes: True
      then have kn: "k = n" by (simp add: k_def)
      note f = untouched_log [OF t(4)]
      let ?v = "v\<lparr>lh_n := 0\<rparr>"
      obtain w e where w: "write_head ?v = Ok () w" "is_head e 0 (lh_block ?v)"
        "cache p w Map.empty ((content v)(?st := e)) ((on_disk v)(?st := e)) {}"
        using write_head_run [of p ?v "content v" "on_disk v" "{}" 0] t(9) f cd(4,11) kn by (auto simp: NBUF_def)
      then have "settled s C (on_disk w)" using cb kn cd(9) by (auto simp: settled_def cache_def is_head_def)
      then show ?thesis using run yes False w(1) by (simp add: exec_simps)
    qed
  qed
qed

text \<open>A machine that was started with disk contents \<open>E\<close>, before recovery.\<close>

definition booted :: "nat \<Rightarrow> 'z log_st_scheme \<Rightarrow> 'y log_st_scheme \<Rightarrow> (nat \<Rightarrow> memory) \<Rightarrow> bool" where
  "booted q s r E \<longleftrightarrow> cache q r Map.empty E E {} \<and> lg_dev r = 1 \<and> lg_start r = lg_start s \<and>
     length (lh_block r) = LOGSIZE \<and> disksize r = disksize s"

lemma recover_settled:
  assumes c: "committable p s n C D" and b: "booted q s r E" and se: "settled s F E"
  shows "\<exists>t. recover_from_log r = Ok () t \<and> settled s F (on_disk t)"
proof -
  note cd = committableD [OF c]
  have bd: "cache q r Map.empty E E {}" "lg_dev r = 1" "length (lh_block r) = LOGSIZE"
    using b by (simp_all add: booted_def)
  have h: "is_head (E (lg_start r)) 0 (lh_block s)" using se b by (simp add: settled_def is_head_def booted_def)
  have wf: "log_wf (lg_start r) 0 (lh_block s) (disksize r)" using cd(1-3) b by (simp add: log_wf_def booted_def)
  obtain t d where t: "recover_from_log r = Ok () t" "is_head d 0 []" "cache q t Map.empty
      ((installed (lg_start r) (lh_block s) 0 E E)(lg_start r := d)) ((installed (lg_start r) (lh_block s) 0 E E)(lg_start r := d)) {}"
    using recover_run [OF bd h wf] by blast
  then have "on_disk t = E(lg_start s := d)" using b by (simp add: cache_def installed_0 booted_def)
  then show ?thesis using t(1,2) se cd(9) by (auto simp: settled_def is_head_def)
qed

lemma recover_pending:
  assumes c: "committable p s n C D" and b: "booted q s r E" and pe: "pending s n C E"
  shows "\<exists>t. recover_from_log r = Ok () t \<and> settled s C (on_disk t)"
proof -
  note cd = committableD [OF c]
  have bd: "cache q r Map.empty E E {}" "lg_dev r = 1" "length (lh_block r) = LOGSIZE"
    using b by (simp_all add: booted_def)
  have h: "is_head (E (lg_start r)) n (lh_block s)" using pe b by (simp add: pending_def booted_def)
  have wf: "log_wf (lg_start r) n (lh_block s) (disksize r)" using c b by (simp add: committable_def booted_def)
  obtain t d where t: "recover_from_log r = Ok () t" "is_head d 0 []" "cache q t Map.empty
      ((installed (lg_start r) (lh_block s) n E E)(lg_start r := d)) ((installed (lg_start r) (lh_block s) n E E)(lg_start r := d)) {}"
    using recover_run [OF bd h wf] by blast
  have "installed (lg_start s) (lh_block s) n E E b = C b" if "b \<notin> log_region s" for b
  proof (cases "b \<in> set (take n (lh_block s))")
    case True
    then obtain i where i: "i < n" "b = lh_block s ! i" using cd(1,2) by (auto simp: in_set_conv_nth)
    then show ?thesis using installed_nth [OF cd(6) i(1)] pe cd(1,2) by (simp add: pending_def)
  next
    case False
    then show ?thesis using pe that by (simp add: installed_other pending_def)
  qed
  then have "settled s C (on_disk t)" using t b cd(9) by (auto simp: cache_def booted_def settled_def is_head_def)
  then show ?thesis using t(1) by blast
qed


lemma commit_run:
  assumes c: "committable p s n C D" and n: "0 < n"
  shows "\<exists>t. commit s = Ok () t \<and> lh_n t = 0 \<and> logframe s t \<and>
    cache p t Map.empty (on_disk t) (on_disk t) {} \<and> settled s C (on_disk t) \<and> length (lh_block t) = LOGSIZE"
proof -
  let ?st = "lg_start s" let ?bl = "lh_block s"
  note cd = committableD [OF c]
  obtain t u v d where t: "forM [0..<n] write_log_body s = Ok () t" "write_head t = Ok () u"
    "forM [0..<n] install_trans_body u = Ok () v" "untouched s u" "untouched s v"
    "\<forall>b. b \<notin> log_region s \<longrightarrow> on_disk v b = (if b \<in> set (take n ?bl) then C b else D b)"
    "cache p v Map.empty (content v) (on_disk v) (set (take n ?bl) - set (take n ?bl))"
    using committable_install [OF c order_refl] by blast
  note f = untouched_log [OF t(5)]
  let ?v = "v\<lparr>lh_n := 0\<rparr>"
  obtain w e where w: "write_head ?v = Ok () w" "untouched ?v w" "is_head e 0 (lh_block ?v)"
    "cache p w Map.empty ((content v)(?st := e)) ((on_disk v)(?st := e)) {}"
    using write_head_run [of p ?v "content v" "on_disk v" "{}" 0] t(7) f cd(4,11) by (auto simp: NBUF_def)
  have "on_disk v b = C b" if "b \<notin> log_region s" for b using that t(6) committable_clean [OF c, of b] by auto
  then have "settled s C (on_disk w)" using w(3,4) cd(9) by (auto simp: settled_def cache_def is_head_def)
  moreover have "content w = on_disk w"
    using cache_clean [OF w(4)] w(4) by (auto simp: cache_def)
  moreover have "lh_n u = int n" using untouched_log(6) [OF t(4)] cd(5) by simp
  then have "commit s = Ok () w" using t(1-3) w(1) n cd(5)
    by (simp add: commit_def write_log_def install_trans_def exec_simps)
  moreover have "logframe s ?v" using untouched_logframe [OF t(5)] by simp
  then have "logframe s w" using logframe_trans untouched_logframe [OF w(2)] by blast
  moreover have "lh_n w = 0" "length (lh_block w) = LOGSIZE" using untouched_log [OF w(2)] f cd(2) by simp_all
  ultimately show ?thesis using w(4) by (auto simp: cache_def)
qed

lemma commit_upto_all:
  assumes c: "committable p s n C D" and n: "0 < n"
  shows "commit_upto (2 * n + 2) s = commit s"
proof -
  note cd = committableD [OF c]
  obtain t u v where t: "forM [0..<n] write_log_body s = Ok () t" "write_head t = Ok () u"
    "forM [0..<n] install_trans_body u = Ok () v" "untouched s u"
    using committable_install [OF c order_refl] by blast
  have "lh_n u = int n" using untouched_log(6) [OF t(4)] cd(5) by simp
  then show ?thesis using t(1-3) n cd(5)
    by (simp add: commit_def write_log_def install_trans_def commit_upto_def exec_simps Let_def min_def)
qed

section \<open>Transactions\<close>

text \<open>
  The client's view between \<open>begin_op()\<close> and \<open>end_op()\<close>: the process holds the buffers \<open>H\<close>, the
  blocks have the content \<open>C\<close>, the disk the content \<open>D\<close>, the blocks \<open>X\<close> are in the log, and \<open>k\<close> more
  blocks fit. Two buffers are kept in reserve for the blocks that are only read.
\<close>

definition txn :: "nat \<Rightarrow> 'z log_st_scheme \<Rightarrow> (nat \<rightharpoonup> nat) \<Rightarrow> (nat \<Rightarrow> memory) \<Rightarrow> (nat \<Rightarrow> memory) \<Rightarrow> nat set \<Rightarrow> nat \<Rightarrow> bool" where
  "txn p s H C D X k \<longleftrightarrow> (\<exists>n. cache p s H C D X \<and> X = set (take n (lh_block s)) \<and> lh_n s = int n \<and> lg_dev s = 1 \<and>
     1 \<le> lg_outstanding s \<and> log_wf (lg_start s) n (lh_block s) (disksize s) \<and> n + k + 2 \<le> lg_size s \<and>
     n + k + 2 \<le> NBUF \<and> disksize s \<le> 2 ^ 32)"

lemma txn_cache: "txn p s H C D X k \<Longrightarrow> cache p s H C D X"
  by (auto simp: txn_def)

lemma txn_weaken: "txn p s H C D X k \<Longrightarrow> j \<le> k \<Longrightarrow> txn p s H C D X j"
  unfolding txn_def by (elim exE conjE, intro exI conjI) (assumption | simp)+

lemma txn_untouched:
  assumes "txn p s H C D X k" "cache p t H' C' D X" "untouched s t"
  shows "txn p t H' C' D X k"
  using assms untouched_log [OF assms(3)] by (auto simp: txn_def)

lemma txn_card: "txn p s H C D X k \<Longrightarrow> card X + k + 2 \<le> NBUF"
proof -
  assume "txn p s H C D X k"
  then obtain n where "X = set (take n (lh_block s))" "n + k + 2 \<le> NBUF" by (auto simp: txn_def)
  then show ?thesis using card_length [of "take n (lh_block s)"] by simp
qed

lemma txn_bread:
  assumes t: "txn p s H C D X k" and b: "b < disksize s" "b \<notin> ran H" "card (dom H) \<le> 1"
  shows "\<exists>i t. bread 1 b s = Ok i t \<and> H i = None \<and> txn p t (H(i \<mapsto> b)) C D X k \<and> untouched s t"
proof -
  have "card (dom H) + card X < NBUF" using txn_card [OF t] b(3) by simp
  with cache_bread [OF txn_cache [OF t] b(1,2)] show ?thesis using txn_untouched [OF t] by blast
qed

lemma txn_brelse:
  assumes t: "txn p s H C D X k" and i: "H i = Some b" and w: "b \<in> X \<or> C b = D b"
  shows "\<exists>t. brelse i s = Ok () t \<and> txn p t (H(i := None)) C D X k \<and> untouched s t"
  using cache_brelse [OF txn_cache [OF t] i w] txn_untouched [OF t] by blast

lemma txn_upd_data:
  assumes t: "txn p s H C D X k" and i: "H i = Some b"
  shows "txn p (s\<lparr>bufs := (bufs s)[i := (bufs s ! i)\<lparr>b_data := d\<rparr>]\<rparr>) H (C(b := blk d)) D X k"
  using t cache_upd_data [OF txn_cache [OF t] i, of d] by (auto simp: txn_def)

lemma log_wf_snoc:
  assumes wf: "log_wf st n bl N" and n: "Suc n < LOGSIZE" and b: "b < N" "b < 2 ^ 32" "b < st \<or> st + LOGSIZE \<le> b"
    "b \<notin> set (take n bl)"
  shows "log_wf st (Suc n) (bl[n := b]) N" "take (Suc n) (bl[n := b]) = take n bl @ [b]"
proof -
  have l: "n < length bl" using wf n by (simp add: log_wf_def)
  then show t: "take (Suc n) (bl[n := b]) = take n bl @ [b]"
    by (simp add: take_Suc_conv_app_nth)
  show "log_wf st (Suc n) (bl[n := b]) N"
    using wf n b l unfolding log_wf_def t by (auto simp: less_Suc_eq)
qed

text \<open>Writing through the log: a block already there is absorbed, a new one takes a slot.\<close>

definition logged :: "nat \<Rightarrow> 'z log_st_scheme \<Rightarrow> 'z log_st_scheme" where
  "logged b s = (if b \<in> set (take (nat (lh_n s)) (lh_block s)) then s
     else s\<lparr>lh_block := (lh_block s)[nat (lh_n s) := b], lh_n := lh_n s + 1\<rparr>)"

lemma logged_more: "bio_st.more x = bio_st.more y \<Longrightarrow> bio_st.more (logged b x) = bio_st.more (logged b y)"
  by (cases x; cases y) (simp add: logged_def)

lemma outstanding_more: "bio_st.more x = bio_st.more y \<Longrightarrow>
    bio_st.more (x\<lparr>lg_outstanding := k\<rparr>) = bio_st.more (y\<lparr>lg_outstanding := k\<rparr>)"
  by (cases x; cases y) simp

lemma log_add_run:
  assumes n: "lh_n s = int n" "n < LOGSIZE" "length (lh_block s) = LOGSIZE" and b: "b_blockno (bufs s ! c) = b"
  shows "log_add c s = Ok () (logged b s)"
proof (cases "first_idx (\<lambda>x. x = b) (take n (lh_block s))")
  case None
  then have "b \<notin> set (take n (lh_block s))" by (auto simp: first_idx_from_None)
  then show ?thesis using None n b by (simp add: log_add_def exec_simps logged_def Let_def)
next
  case (Some j)
  note f = first_idx_Some [OF Some]
  have "j < n" "(lh_block s)[j := b] = lh_block s" using f(1,2) by (simp_all add: list_update_same_conv)
  moreover have "b \<in> set (take n (lh_block s))" using f(1,2) nth_mem by blast
  ultimately show ?thesis using Some n b by (simp add: log_add_def exec_simps logged_def Let_def)
qed

lemma log_write_run:
  assumes t: "txn p s H C D X k" and i: "H i = Some b"
  shows "\<exists>t. log_write i s = Ok () t \<and> quiet t p \<and> stirred s t \<and> slocks t = slocks s \<and> memdisk t = memdisk s \<and>
    disksize t = disksize s \<and> bufs t = (bufs s)[i := (bufs s ! i)\<lparr>b_dirty := True\<rparr>] \<and>
    bio_st.more t = bio_st.more (logged b s)"
proof -
  from t obtain n where n: "cache p s H C D X" "lh_n s = int n" "1 \<le> lg_outstanding s"
    "n + 2 \<le> lg_size s" "n < LOGSIZE" "length (lh_block s) = LOGSIZE"
    by (auto simp: txn_def log_wf_def NBUF_def LOGSIZE_def MAXOPBLOCKS_def)
  have q: "quiet s p" using n(1) by (rule cache_quiet)
  have bn: "b_blockno (bufs s ! i) = b" "i < length (bufs s)"
    using cache_held [OF n(1) i] n(1) bc_ok_ring [of s] by (auto simp: cached_def cache_def ring_def)
  let ?l = "logged b (acquired LLog s)"
  let ?u = "?l\<lparr>bufs := (bufs s)[i := (bufs s ! i)\<lparr>b_dirty := True\<rparr>]\<rparr>"
  have "bio_st.more (acquired LLog s) = bio_st.more s" by simp
  note m = log_of_more [OF this]
  have l: "cpus ?l = cpus (acquired LLog s)" "locks ?l = locks (acquired LLog s)" "cur ?l = cur s" "table_ok ?l = table_ok s"
    "mem ?l = mem s" "km_freelist ?l = km_freelist s" "procs ?l = procs s" "bufs ?l = bufs s" "slocks ?l = slocks s"
    "memdisk ?l = memdisk s" "disksize ?l = disksize s"
    by (simp_all add: logged_def)
  have sec: "acquire LLog s = Ok () (acquired LLog s)" "release LLog ?u = Ok () (released LLog ?u)"
    "quiet (released LLog ?u) p" "stirred s (released LLog ?u)"
    using quiet_section [OF q, of ?u LLog] quiet_RUNNING [OF q] quiet_table [OF q] l by simp_all
  have "log_write i s = Ok () (released LLog ?u)"
    using sec(1,2) n bn log_add_run [of "acquired LLog s" n i b] l m
    by (simp add: log_write_def exec_simps upd_buf_def)
  then show ?thesis using sec(3,4) l logged_more [of "acquired LLog s" s b] by simp
qed

lemma txn_log_write:
  assumes t: "txn p s H C D X k" and i: "H i = Some b" and k: "b \<in> X \<or> 0 < k" and b: "b \<notin> log_region s"
  shows "\<exists>t. log_write i s = Ok () t \<and> txn p t H C D (insert b X) (if b \<in> X then k else k - 1) \<and> logframe s t"
proof -
  from t obtain n where n: "cache p s H C D X" "X = set (take n (lh_block s))" "lh_n s = int n" "lg_dev s = 1"
    "1 \<le> lg_outstanding s" "log_wf (lg_start s) n (lh_block s) (disksize s)" "n + k + 2 \<le> lg_size s"
    "n + k + 2 \<le> NBUF" "disksize s \<le> 2 ^ 32" by (auto simp: txn_def)
  obtain t where t': "log_write i s = Ok () t" "quiet t p" "stirred s t" "slocks t = slocks s" "memdisk t = memdisk s"
    "disksize t = disksize s" "bufs t = (bufs s)[i := (bufs s ! i)\<lparr>b_dirty := True\<rparr>]"
    "bio_st.more t = bio_st.more (logged b s)" using log_write_run [OF t i] by blast
  note m = log_of_more [OF t'(8)]
  have bd: "b < disksize s"
    using cache_held [OF n(1) i] n(1) bc_okD [of s i] by (auto simp: cache_def buf_ok_def Let_def cached_def)
  have c: "cache p t H C D (insert b X)"
    using cache_mark_dirty [OF n(1) i] t' cache_quiet [OF n(1)]
      cache_cong [of t "s\<lparr>bufs := (bufs s)[i := (bufs s ! i)\<lparr>b_dirty := True\<rparr>]\<rparr>" p H C D] by simp
  have lf: "logframe s t" using t' m by (simp add: logframe_def) (simp add: logged_def)
  have "txn p t H C D (insert b X) (if b \<in> X then k else k - 1)"
  proof (cases "b \<in> X")
    case True
    then have "logged b s = s" using n(2,3) by (simp add: logged_def)
    then show ?thesis using True n c m t'(6) unfolding txn_def by (intro exI [of _ n]) (simp add: insert_absorb)
  next
    case False
    then have l: "logged b s = s\<lparr>lh_block := (lh_block s)[n := b], lh_n := int n + 1\<rparr>" using n(2,3) by (simp add: logged_def)
    have "Suc n < LOGSIZE" using n(8) by (simp add: NBUF_def LOGSIZE_def MAXOPBLOCKS_def)
    from log_wf_snoc [OF n(6) this, of b] False n(2,9) b bd
    have w: "log_wf (lg_start s) (Suc n) ((lh_block s)[n := b]) (disksize s)"
      "take (Suc n) ((lh_block s)[n := b]) = take n (lh_block s) @ [b]" by (auto simp: log_region_def)
    show ?thesis using False n c m t'(6) w k unfolding txn_def l by (intro exI [of _ "Suc n"]) auto
  qed
  then show ?thesis using t'(1) lf by blast
qed

text \<open>Changing a block one holds, logging it and giving it back.\<close>

lemma txn_write_release:
  assumes t: "txn p s H C D X k" and i: "H i = Some b" and k: "b \<in> X \<or> 0 < k" and b: "b \<notin> log_region s"
  shows "\<exists>t. run [upd_buf i (\<lambda>x. x\<lparr>b_data := f (b_data x)\<rparr>), log_write i, brelse i] s = Ok () t \<and>
    txn p t (H(i := None)) (C(b := blk (f (b_data (bufs s ! i))))) D (insert b X) (k - 1) \<and> logframe s t"
proof -
  let ?d = "f (b_data (bufs s ! i))" let ?s = "s\<lparr>bufs := (bufs s)[i := (bufs s ! i)\<lparr>b_data := ?d\<rparr>]\<rparr>"
  let ?C = "C(b := blk ?d)"
  have "txn p ?s H ?C D X k" using txn_upd_data [OF t i] .
  moreover have "b \<notin> log_region ?s" using b by (simp add: log_region_def)
  ultimately obtain u where u: "log_write i ?s = Ok () u" "txn p u H ?C D (insert b X) (if b \<in> X then k else k - 1)"
    "logframe ?s u" using txn_log_write [of p ?s H ?C D X k i b] i k by blast
  have "txn p u H ?C D (insert b X) (k - 1)" using u(2) by (rule txn_weaken) simp
  from txn_brelse [OF this i] obtain v where v: "brelse i u = Ok () v"
    "txn p v (H(i := None)) ?C D (insert b X) (k - 1)" "untouched u v" by auto
  have "logframe s ?s" by (simp add: logframe_def)
  then have "logframe s v" using logframe_trans u(3) untouched_logframe [OF v(3)] by blast
  then show ?thesis using u(1) v(1,2) by (auto simp: exec_simps upd_buf_def)
qed

text \<open>Reading a block and giving it back at once.\<close>

lemma txn_bread_release:
  assumes t: "txn p s H C D X k" and b: "b < disksize s" "b \<notin> ran H" "card (dom H) \<le> 1"
  shows "\<exists>i u. bread 1 b s = Ok i u \<and> H i = None \<and> txn p u (H(i \<mapsto> b)) C D X k \<and> untouched s u \<and>
    C b = blk (b_data (bufs u ! i)) \<and> (\<exists>v. brelse i u = Ok () v \<and> txn p v H C D X k \<and> untouched s v)"
proof -
  obtain i u where u: "bread 1 b s = Ok i u" "H i = None" "txn p u (H(i \<mapsto> b)) C D X k" "untouched s u"
    using txn_bread [OF t b] by blast
  have clean: "b \<in> X \<or> C b = D b" using cache_clean [OF txn_cache [OF t], of b] b(2) by blast
  have "C b = blk (b_data (bufs u ! i))" using cache_data [OF txn_cache [OF u(3)], of i b] by simp
  moreover have "(H(i \<mapsto> b))(i := None) = H" using u(2) by auto
  then obtain v where "brelse i u = Ok () v" "txn p v H C D X k" "untouched u v"
    using txn_brelse [OF u(3), of i b] clean by auto
  ultimately show ?thesis using u untouched_trans by blast
qed


text \<open>The log between transactions, and what \<open>begin_op()\<close> and \<open>end_op()\<close> make of it.\<close>

definition log_idle :: "nat \<Rightarrow> 'z log_st_scheme \<Rightarrow> (nat \<Rightarrow> memory) \<Rightarrow> bool" where
  "log_idle p s C \<longleftrightarrow> cache p s Map.empty C C {} \<and> lh_n s = 0 \<and> lg_dev s = 1 \<and> lg_outstanding s = 0 \<and>
     \<not> lg_committing s \<and> length (lh_block s) = LOGSIZE \<and> lg_start s + LOGSIZE \<le> disksize s \<and> lg_size s = LOGSIZE \<and>
     disksize s \<le> 2 ^ 32"

lemma begin_op_run:
  assumes q: "quiet s p" and a: "\<not> lg_committing s" "lh_n s + (lg_outstanding s + 1) * int MAXOPBLOCKS \<le> int LOGSIZE"
  shows "\<exists>t. begin_op s = Ok () t \<and> quiet t p \<and> stirred s t \<and> slocks t = slocks s \<and> bufs t = bufs s \<and> memdisk t = memdisk s \<and>
    disksize t = disksize s \<and> bio_st.more t = bio_st.more (s\<lparr>lg_outstanding := lg_outstanding s + 1\<rparr>)"
proof -
  let ?u = "(acquired LLog s)\<lparr>lg_outstanding := lg_outstanding s + 1\<rparr>"
  have sec: "acquire LLog s = Ok () (acquired LLog s)" "release LLog ?u = Ok () (released LLog ?u)"
    "quiet (released LLog ?u) p" "stirred s (released LLog ?u)"
    using quiet_section [OF q, of ?u LLog] quiet_RUNNING [OF q] quiet_table [OF q] by simp_all
  have m: "bio_st.more (acquired LLog s) = bio_st.more s" by simp
  have "begin_op s = Ok () (released LLog ?u)"
    using sec(1,2) a log_of_more [OF m] by (simp add: begin_op_def begin_op_loop_def exec_simps)
  then show ?thesis using sec(3,4) outstanding_more [OF m] by simp
qed

lemma begin_op_txn:
  assumes i: "log_idle p s C"
  shows "\<exists>t. begin_op s = Ok () t \<and> txn p t Map.empty C C {} MAXOPBLOCKS \<and> lg_outstanding t = 1 \<and> \<not> lg_committing t \<and>
    lg_start t = lg_start s \<and> lg_size t = LOGSIZE \<and> disksize t = disksize s \<and> log_st.more t = log_st.more s \<and> stirred s t \<and>
    slocks t = slocks s"
proof -
  have c: "cache p s Map.empty C C {}" using i by (simp add: log_idle_def)
  obtain t where t: "begin_op s = Ok () t" "quiet t p" "stirred s t" "slocks t = slocks s" "bufs t = bufs s"
    "memdisk t = memdisk s" "disksize t = disksize s" "bio_st.more t = bio_st.more (s\<lparr>lg_outstanding := lg_outstanding s + 1\<rparr>)"
    using begin_op_run [OF cache_quiet [OF c]] i by (auto simp: log_idle_def LOGSIZE_def)
  note m = log_of_more [OF t(8)]
  have "cache p t Map.empty C C {}" using c cache_cong [OF t(5,4,6,7)] t(2) cache_quiet [OF c] by simp
  then have "txn p t Map.empty C C {} MAXOPBLOCKS"
    using i m t(7) unfolding txn_def
    by (intro exI [of _ 0]) (simp add: log_idle_def log_wf_def NBUF_def LOGSIZE_def MAXOPBLOCKS_def)
  then show ?thesis using t m i by (simp add: log_idle_def)
qed

lemma quiet_release_section:
  assumes q: "quiet s p" and u: "u = f (acquired LLog s)"
    and f: "\<And>x. cpus (f x) = cpus x" "\<And>x. locks (f x) = locks x" "\<And>x. cur (f x) = cur x" "\<And>x. table_ok (f x) = table_ok x"
      "\<And>x. mem (f x) = mem x" "\<And>x. km_freelist (f x) = km_freelist x" "\<And>x. procs (f x) = procs x"
  shows "release LLog u = Ok () (released LLog u)" "quiet (released LLog u) p" "stirred s (released LLog u)"
  using quiet_section [OF q, of u LLog] quiet_RUNNING [OF q] quiet_table [OF q] f by (simp_all add: u)

lemma commit_any:
  assumes c: "committable p s n C D"
  shows "\<exists>v. commit s = Ok () v \<and> lh_n v = 0 \<and> logframe s v \<and> cache p v Map.empty (on_disk v) (on_disk v) {} \<and>
    (\<forall>b. b \<notin> log_region s \<longrightarrow> on_disk v b = C b) \<and> length (lh_block v) = LOGSIZE"
proof (cases "n = 0")
  case True
  note cd = committableD [OF c]
  have ch: "cache p s Map.empty C D {}" using c True by (simp add: committable_def)
  then have "C = D" "on_disk s = D" using cache_clean [OF ch] by (auto simp: fun_eq_iff cache_def)
  then show ?thesis using True cd(2,5) ch by (simp add: commit_def exec_simps)
next
  case False
  then show ?thesis using commit_run [OF c] by (auto simp: settled_def)
qed

text \<open>The last \<open>end_op()\<close> commits: the disk outside the log is then the content of the blocks.\<close>

lemma end_op_run:
  assumes t: "txn p s Map.empty C D X k" and o: "lg_outstanding s = 1" "\<not> lg_committing s" and sz: "lg_size s = LOGSIZE"
  shows "\<exists>t. end_op s = Ok () t \<and> log_idle p t (on_disk t) \<and> (\<forall>b. b \<notin> log_region s \<longrightarrow> on_disk t b = C b) \<and>
    lg_start t = lg_start s \<and> disksize t = disksize s \<and> log_st.more t = log_st.more s \<and> stirred s t \<and>
    (\<forall>i. slocks t (SInode i) = slocks s (SInode i))"
proof -
  from t obtain n where n: "cache p s Map.empty C D X" "X = set (take n (lh_block s))" "lh_n s = int n" "lg_dev s = 1"
    "log_wf (lg_start s) n (lh_block s) (disksize s)" "n + 2 \<le> NBUF" "disksize s \<le> 2 ^ 32" by (auto simp: txn_def)
  note q = cache_quiet [OF n(1)]
  let ?u = "(acquired LLog s)\<lparr>lg_outstanding := 0, lg_committing := True\<rparr>" let ?r = "released LLog ?u"
  have r: "release LLog ?u = Ok () ?r" "quiet ?r p" "stirred s ?r"
    using quiet_release_section [OF q, of ?u "\<lambda>x. x\<lparr>lg_outstanding := 0, lg_committing := True\<rparr>"] by simp_all
  have "bio_st.more (acquired LLog s) = bio_st.more s" by simp
  note ma = log_of_more [OF this]
  have "bio_st.more ?r = bio_st.more ?u" by simp
  note mr = log_of_more [OF this]
  have "cache p ?r Map.empty C D X" using n(1) cache_cong [of ?r s p] r(2) q by simp
  then have c: "committable p ?r n C D" using n mr ma by (simp add: committable_def)
  have ri: "slocks ?r = slocks s" "disksize ?r = disksize s" by simp_all
  have lr: "log_region ?r = log_region s" using mr ma by (simp add: log_region_def)
  obtain v where v: "commit ?r = Ok () v" "lh_n v = 0" "logframe ?r v" "cache p v Map.empty (on_disk v) (on_disk v) {}"
    "\<forall>b. b \<notin> log_region s \<longrightarrow> on_disk v b = C b" "length (lh_block v) = LOGSIZE"
    using commit_any [OF c] lr by auto
  let ?x = "(acquired LLog v)\<lparr>lg_committing := False\<rparr>"
  note qv = cache_quiet [OF v(4)]
  obtain w where w: "wakeup (Some ChLog) ?x = Ok () w" "release LLog w = Ok () (released LLog w)" "quiet (released LLog w) p"
    "stirred v (released LLog w)" "sched_st.more w = sched_st.more ?x"
    using quiet_wakeup_section [OF qv, of LLog ?x "Some ChLog"] quiet_table [OF qv] by auto
  let ?t = "released LLog w"
  have "end_op s = Ok () ?t"
    using r(1) v(1) w(1,2) acquire_ready [OF quiet_ready [OF q]] acquire_ready [OF quiet_ready [OF qv]] o ma
    by (simp add: end_op_def exec_simps)
  moreover have "sched_st.more ?t = sched_st.more ?x" using w(5) by simp
  note m1 = slp_of_more [OF this] and m2 = bio_of_more [OF slp_of_more(2) [OF this]]
  note m3 = log_of_more [OF m2(4)]
  have "bio_st.more (acquired LLog v) = bio_st.more v" by simp
  note mv = log_of_more [OF this]
  have c: "cache p ?t Map.empty (on_disk v) (on_disk v) {}" using v(4) cache_cong [of ?t v p] m1 m2 w(3) qv by simp
  then have d: "on_disk ?t = on_disk v" by (simp add: cache_def)
  have lf: "lg_start v = lg_start s" "lg_size v = lg_size s" "lg_dev v = lg_dev s" "lg_outstanding v = 0"
    "disksize v = disksize s" "log_st.more v = log_st.more s" "stirred ?r v" "\<forall>i. slocks v (SInode i) = slocks s (SInode i)"
    using v(3) mr ma ri by (simp_all add: logframe_def)
  have "log_idle p ?t (on_disk ?t)" unfolding d log_idle_def
    using c v(2,6) m2 m3 mv lf n sz by (simp add: log_wf_def)
  moreover have "stirred s ?t" using stirred_trans [OF stirred_trans [OF r(3) lf(7)] w(4)] .
  ultimately show ?thesis using v(5) d m1 m2 m3 mv lf by simp
qed


section \<open>Properties\<close>

text \<open>
  C1. Commits are atomic. Let a transaction of \<open>n\<close> blocks be ready to commit: \<open>C\<close> is the content of
  the blocks as the transaction left them, \<open>D\<close> that of the disk. If the machine stops after any
  number \<open>j\<close> of the \<open>2 * n + 2\<close> disk writes of \<open>commit()\<close> and is started again with an empty cache,
  \<open>recover_from_log()\<close> returns and leaves every block outside the log as it was before the
  transaction if \<open>j \<le> n\<close>, that is if the header had not been written, and as the transaction left it
  otherwise.
\<close>

theorem commit_crash_atomic:
  assumes "committable p s n C D" "rd32 (D (lg_start s)) 0 = 0"
  shows "\<exists>u. commit_upto j s = Ok () u \<and> (\<forall>q r. booted q s (r :: 'y log_st_scheme) (on_disk u) \<longrightarrow>
    (\<exists>t. recover_from_log r = Ok () t \<and> rd32 (on_disk t (lg_start s)) 0 = 0 \<and>
      (\<forall>b. b \<notin> log_region s \<longrightarrow> on_disk t b = (if j \<le> n then D b else C b)))) \<and>
    (0 < n \<longrightarrow> commit_upto (2 * n + 2) s = commit s)"
proof -
  obtain u where u: "commit_upto j s = Ok () u"
    "if j \<le> n then settled s D (on_disk u) else pending s n C (on_disk u) \<or> settled s C (on_disk u)"
    using commit_upto_run [OF assms] by blast
  have "\<exists>t. recover_from_log r = Ok () t \<and> settled s (if j \<le> n then D else C) (on_disk t)"
    if "booted q s r (on_disk u)" for q and r :: "'y log_st_scheme"
    using recover_settled [OF assms(1) that, of D] recover_settled [OF assms(1) that, of C]
      recover_pending [OF assms(1) that] u(2) by (auto split: if_splits)
  then show ?thesis using u(1) commit_upto_all [OF assms(1)] by (cases "j \<le> n") (simp_all add: settled_def)
qed

text \<open>
  The machine of the witness: block 100 has been overwritten with sevens in the cache and is the
  only block of the transaction; the disk is all zeros and the log starts at block 2.
\<close>

definition log_boot :: "'z \<Rightarrow> 'z log_st_scheme" where
  "log_boot m = \<lparr>mem = mem bio0, cpus = cpus bio0, cur = 0, locks = \<lambda>_. lock0, cons_out = [],
     km_use_lock = 1, km_freelist = 0, km_end = KERNBASE + 1048576, procs = procs bio0,
     priority_q = priority_q bio0, marker = marker bio0, initproc = Some 0, nextpid = 5, cfg_custom = True,
     kpgdir = 0, sym_data = 0, ticks = 0, sym_forkret = 0, sym_trapret = 0,
     slocks = slocks bio0, bufs = bufs0, memdisk = (\<lambda>_. 0), disksize = 1000,
     lg_start = 2, lg_size = LOGSIZE, lg_outstanding = 0, lg_committing = False, lg_dev = 1,
     lh_n = 0, lh_block = replicate LOGSIZE 0, \<dots> = m\<rparr>"

definition log1 :: log_st where
  "log1 = log_boot ()"

definition log0 :: log_st where
  "log0 = log1\<lparr>bufs := bufs0[0 := (bufs0 ! 0)\<lparr>b_valid := True, b_dirty := True, b_dev := 1, b_blockno := 100,
     b_data := \<lambda>_. 7\<rparr>], lh_n := 1, lh_block := 100 # replicate (LOGSIZE - 1) 0\<rparr>"

lemma quiet_boot: "quiet (log_boot m) 1"
  using quiet_bio0
  by (simp add: quiet_def table_ok_def on_cpu_def the_cpu_def log_boot_def) (simp add: bio0_def lock0_def)

lemma quiet_log0: "quiet log0 1"
  using quiet_boot [of "()"] by (simp add: log0_def log1_def)

lemma bufs0_clear: "i < NBUF \<Longrightarrow> b_dev (bufs0 ! i) = 0 \<and> \<not> b_valid (bufs0 ! i) \<and> \<not> b_dirty (bufs0 ! i) \<and> b_refcnt (bufs0 ! i) = 0"
  by (simp add: bufs0_nth) (simp add: buf0_def)

text \<open>An empty cache shows the disk as it is.\<close>

lemma cache_empty:
  fixes s :: "'z bio_st_scheme"
  assumes s: "bufs s = bufs0" "slocks s = slocks bio0" and q: "quiet s p"
  shows "cache p s Map.empty (on_disk s) (on_disk s) {}"
proof -
  have l: "\<And>i. \<not> locked s i" using s(2) by (simp add: locked_def bio0_def)
  have c: "\<not> cached s b i" for b i using bufs0_clear [of i] s by (auto simp: cached_def)
  have "bc_ok s" using ring_bufs0 bufs0_clear s l c by (auto simp: bc_ok_def buf_ok_def Let_def)
  moreover have "holds s Map.empty" using bufs0_clear s l by (simp add: holds_def)
  moreover have "content s = on_disk s" using content_uncached c by blast
  moreover have "dirtyb s = {}" using c by (simp add: dirtyb_def)
  ultimately show ?thesis using q by (simp add: cache_def)
qed

lemma cache_log1: "cache 1 (log1\<lparr>memdisk := m\<rparr>) Map.empty (on_disk (log1\<lparr>memdisk := m\<rparr>)) (on_disk (log1\<lparr>memdisk := m\<rparr>)) {}"
  using cache_empty [of "log1\<lparr>memdisk := m\<rparr>" 1] quiet_boot [of "()"] by (simp add: log1_def) (simp add: log_boot_def)

lemma ring_bufs_log0: "ring (bufs log0) [0..<NBUF]"
proof -
  have "nxt (bufs log0) = nxt bufs0" "prv (bufs log0) = prv bufs0"
    by (auto simp: log0_def nxt_def prv_def nth_list_update' fun_eq_iff)
  then show ?thesis using ring_bufs0 by (simp add: ring_def log0_def)
qed

lemma cached_log0: "cached log0 b i \<longleftrightarrow> i = 0 \<and> b = 100"
  using bufs0_clear [of i] by (cases "i = 0") (auto simp: cached_def log0_def length_bufs0 NBUF_def)

lemma committable_log0: "committable 1 log0 1 (content log0) (on_disk log0)"
proof -
  have l: "\<not> locked log0 i" for i by (simp add: log0_def log1_def log_boot_def locked_def bio0_def)
  have z: "bufs log0 ! 0 = (bufs0 ! 0)\<lparr>b_valid := True, b_dirty := True, b_dev := 1, b_blockno := 100, b_data := \<lambda>_. 7\<rparr>"
    by (simp add: log0_def length_bufs0)
  have nz: "i \<noteq> 0 \<Longrightarrow> bufs log0 ! i = bufs0 ! i" for i by (simp add: log0_def)
  have "buf_ok log0 i" if "i < NBUF" for i
    using that bufs0_clear [OF that] l z nz by (cases "i = 0") (auto simp: buf_ok_def Let_def log0_def log1_def log_boot_def)
  then have "bc_ok log0" using ring_bufs_log0 by (auto simp: bc_ok_def cached_log0)
  moreover have "holds log0 Map.empty"
    unfolding holds_def
  proof (intro conjI allI impI)
    fix i assume "i < NBUF"
    then show "locked log0 i \<longleftrightarrow> Map.empty i \<noteq> None"
      "b_refcnt (bufs log0 ! i) = (if Map.empty i = None then 0 else 1)"
      using bufs0_clear [of i] l z nz [of i] by (cases "i = 0"; simp)+
  qed simp_all
  moreover have "dirtyb log0 = {100}" using z by (auto simp: dirtyb_def cached_log0)
  moreover have "lh_block log0 = 100 # replicate (LOGSIZE - 1) 0" "lh_n log0 = 1" "lg_dev log0 = 1" "lg_start log0 = 2" "disksize log0 = 1000"
    by (simp_all add: log0_def log1_def log_boot_def)
  ultimately show ?thesis using quiet_log0
    by (simp add: committable_def cache_def log_wf_def NBUF_def LOGSIZE_def MAXOPBLOCKS_def)
qed

theorem commit_crash_atomic_witness:
  "\<exists>u v. commit_upto 1 log0 = Ok () u \<and> commit_upto 2 log0 = Ok () v \<and>
     (\<exists>t. recover_from_log (log1\<lparr>memdisk := memdisk u\<rparr>) = Ok () t \<and> on_disk t 100 7 = 0) \<and>
     (\<exists>t. recover_from_log (log1\<lparr>memdisk := memdisk v\<rparr>) = Ok () t \<and> on_disk t 100 7 = 7)"
proof -
  have d: "rd32 (on_disk log0 (lg_start log0)) 0 = 0"
    by (simp add: rd32_def rd16_def on_disk_def log0_def log1_def log_boot_def)
  have b: "booted 1 log0 (log1\<lparr>memdisk := memdisk w\<rparr>) (on_disk w)" for w :: log_st
  proof -
    have "on_disk (log1\<lparr>memdisk := memdisk w\<rparr>) = on_disk w" by (simp add: on_disk_def fun_eq_iff)
    then have "cache 1 (log1\<lparr>memdisk := memdisk w\<rparr>) Map.empty (on_disk w) (on_disk w) {}"
      using cache_log1 [of "memdisk w"] by (simp only:)
    then show ?thesis unfolding booted_def by (simp add: log0_def log1_def log_boot_def)
  qed
  have c: "content log0 100 7 = 7" "on_disk log0 100 7 = 0" "100 \<notin> log_region log0"
    using content_cached [of log0 100 0] committable_log0
    by (simp_all add: cached_log0 committable_def cache_def)
      (simp_all add: log0_def log1_def log_boot_def length_bufs0 blk_def on_disk_def BSIZE_def log_region_def LOGSIZE_def MAXOPBLOCKS_def)
  note ca = commit_crash_atomic [OF committable_log0 d, where ?'y = unit]
  obtain u where u: "commit_upto 1 log0 = Ok () u" "\<exists>t. recover_from_log (log1\<lparr>memdisk := memdisk u\<rparr>) = Ok () t \<and>
      (\<forall>b. b \<notin> log_region log0 \<longrightarrow> on_disk t b = on_disk log0 b)"
    using ca [of 1] b by auto blast
  obtain v where v: "commit_upto 2 log0 = Ok () v" "\<exists>t. recover_from_log (log1\<lparr>memdisk := memdisk v\<rparr>) = Ok () t \<and>
      (\<forall>b. b \<notin> log_region log0 \<longrightarrow> on_disk t b = content log0 b)"
    using ca [of 2] b by auto blast
  show ?thesis using u v c by metis
qed

text \<open>
  C2. Durability. When the only open transaction ends, \<open>end_op()\<close> returns, every block outside the log
  has on disk the content the transaction gave it, no buffer is dirty any more, and the log is
  empty and open again.
\<close>

theorem end_op_durable:
  assumes "txn p s Map.empty C D X k" "lg_outstanding s = 1" "\<not> lg_committing s" "lg_size s = LOGSIZE"
  shows "\<exists>t. end_op s = Ok () t \<and> (\<forall>b. b \<notin> log_region s \<longrightarrow> on_disk t b = C b) \<and> log_idle p t (on_disk t)"
  using end_op_run [OF assms] by blast

lemma txn_log0: "txn 1 (log0\<lparr>lg_outstanding := 1\<rparr>) Map.empty (content log0) (on_disk log0) {100} 5"
  using committable_log0 unfolding txn_def
  by (intro exI [of _ 1])
    (simp add: committable_def, simp add: log0_def log1_def log_boot_def NBUF_def LOGSIZE_def MAXOPBLOCKS_def)

theorem end_op_durable_witness:
  "\<exists>t. end_op (log0\<lparr>lg_outstanding := 1\<rparr>) = Ok () t \<and> on_disk t 100 = content log0 100"
proof -
  have "lg_size log0 = LOGSIZE" "\<not> lg_committing log0" "100 \<notin> log_region (log0\<lparr>lg_outstanding := 1\<rparr>)"
    by (simp_all add: log0_def log1_def log_boot_def log_region_def LOGSIZE_def MAXOPBLOCKS_def)
  then show ?thesis using end_op_durable [OF txn_log0] by auto
qed

lemma sleep_never_Ok: "sleep ch lk s \<noteq> Ok () t"
  by (auto simp: sleep_def sleep_steps_def sched_def bnd_def stop_with_def split: outcome.splits option.splits)

definition log_room :: "'z log_st_scheme \<Rightarrow> bool" where
  "log_room s \<longleftrightarrow> \<not> lg_committing s \<and> lh_n s + (lg_outstanding s + 1) * int MAXOPBLOCKS \<le> int LOGSIZE"

text \<open>
  C33. Log space is reserved. A call of \<open>begin_op()\<close> returns exactly when no commit is running and the
  log has room for \<open>MAXOPBLOCKS\<close> blocks of every open transaction, the new one included; in every
  other case the caller gives up the processor.
\<close>

theorem begin_op_reserves:
  assumes q: "quiet s p"
  shows "if log_room s
    then \<exists>t. begin_op s = Ok () t \<and> lg_outstanding t = lg_outstanding s + 1 \<and> lh_n t = lh_n s \<and>
      lh_n t + lg_outstanding t * int MAXOPBLOCKS \<le> int LOGSIZE
    else \<exists>r t. begin_op s = Stop r t"
proof (cases "log_room s")
  case True
  then obtain t where t: "begin_op s = Ok () t" "bio_st.more t = bio_st.more (s\<lparr>lg_outstanding := lg_outstanding s + 1\<rparr>)"
    using begin_op_run [OF q] by (auto simp: log_room_def)
  then show ?thesis using True log_of_more [OF t(2)] by (simp add: log_room_def)
next
  case False
  have "bio_st.more (acquired LLog s) = bio_st.more s" by simp
  note m = log_of_more [OF this]
  have "begin_op s \<noteq> Ok () t" for t
    using False m acquire_ready [OF quiet_ready [OF q]]
    by (auto simp: begin_op_def begin_op_loop_def exec_simps log_room_def sleep_never_Ok)
  then show ?thesis using False by (cases "begin_op s") auto
qed

theorem begin_op_reserves_witness:
  "(\<exists>t. begin_op log0 = Ok () t \<and> lg_outstanding t = 1) \<and> (\<exists>r t. begin_op (log0\<lparr>lg_outstanding := 2\<rparr>) = Stop r t)"
proof -
  have "log_room log0" "\<not> log_room (log0\<lparr>lg_outstanding := 2\<rparr>)" "lg_outstanding log0 = 0"
    by (simp_all add: log_room_def log0_def log1_def log_boot_def MAXOPBLOCKS_def LOGSIZE_def)
  then show ?thesis
    using begin_op_reserves [OF quiet_log0] begin_op_reserves [of "log0\<lparr>lg_outstanding := 2\<rparr>" 1] quiet_log0 by auto
qed

end
