(* ===== verification/Balloc.thy ===== *)
theory Balloc
  imports Cstring Log
begin

text \<open>
  The block allocator of \<open>fs.c\<close>: \<open>bzero\<close>, \<open>balloc\<close> and \<open>bfree\<close> on the free map of the disk. Bit
  \<open>b mod BPB\<close> of the map block \<open>BBLOCK(b)\<close> is set when block \<open>b\<close> is in use.
\<close>

section \<open>Operations\<close>

definition BPB :: nat where "BPB = BSIZE * 8"

definition BBLOCK :: "nat \<Rightarrow> superblock \<Rightarrow> nat" where
  "BBLOCK b sb = b div BPB + sb_bmapstart sb"

record balloc_st = log_st +
  sb :: superblock

definition bzero :: "nat \<Rightarrow> nat \<Rightarrow> ('z balloc_st_scheme, unit) cmd" where
  "bzero dev bno = bnd (bread dev bno) (\<lambda>bp. run
     [upd_buf bp (\<lambda>x. x\<lparr>b_data := memset (b_data x) 0 0 BSIZE\<rparr>),
      log_write bp,
      brelse bp])"

definition bit_free :: "memory \<Rightarrow> nat \<Rightarrow> bool" where
  "bit_free d bi \<longleftrightarrow> \<not> bit (d (bi div 8)) (bi mod 8)"

function balloc_loop :: "nat \<Rightarrow> nat \<Rightarrow> nat \<Rightarrow> ('z balloc_st_scheme, nat) cmd" where
  "balloc_loop dev sz b =
     (if b < sz then
        bnd (withS (\<lambda>s. bread dev (BBLOCK b (sb s)))) (\<lambda>bp. withS (\<lambda>s.
          case first_idx (bit_free (b_data (bufs s ! bp))) [0..<min BPB (sz - b)] of
            Some bi \<Rightarrow> andthen
              [upd_buf bp (\<lambda>x. x\<lparr>b_data := (b_data x)(bi div 8 := set_bit (bi mod 8) (b_data x (bi div 8)))\<rparr>),
               log_write bp,
               brelse bp,
               bzero dev (b + bi)]
              (ret (b + bi))
          | None \<Rightarrow> andthen [brelse bp] (balloc_loop dev sz (b + BPB))))
      else panic ''balloc: out of blocks'')"
  by pat_completeness auto
termination by (relation "measure (\<lambda>(dev, sz, b). sz - b)") (auto simp: BPB_def BSIZE_def)

declare balloc_loop.simps [simp del]

definition balloc :: "nat \<Rightarrow> ('z balloc_st_scheme, nat) cmd" where
  "balloc dev = withS (\<lambda>s. balloc_loop dev (sb_size (sb s)) 0)"

definition bfree :: "nat \<Rightarrow> nat \<Rightarrow> ('z balloc_st_scheme, unit) cmd" where
  "bfree dev b = bnd (readsb dev) (\<lambda>x. bnd (modify (\<lambda>s. s\<lparr>sb := x\<rparr>)) (\<lambda>_.
     bnd (withS (\<lambda>s. bread dev (BBLOCK b (sb s)))) (\<lambda>bp. let bi = b mod BPB in run
       [panic_if (\<lambda>s. bit_free (b_data (bufs s ! bp)) bi) ''freeing free block'',
        upd_buf bp (\<lambda>x. x\<lparr>b_data := (b_data x)(bi div 8 := unset_bit (bi mod 8) (b_data x (bi div 8)))\<rparr>),
        log_write bp,
        brelse bp])))"

section \<open>The free map\<close>

text \<open>
  \<open>used C b\<close>: block \<open>b\<close> is marked in use when the blocks have content \<open>C\<close>. The layout the
  allocator relies on is the one \<open>mkfs\<close> writes: the map blocks and everything in front of the
  data blocks are marked in use, the map lies behind the log, and no block is outside the disk.
\<close>

definition used :: "(nat \<Rightarrow> memory) \<Rightarrow> superblock \<Rightarrow> nat \<Rightarrow> bool" where
  "used C x b \<longleftrightarrow> \<not> bit_free (C (BBLOCK b x)) (b mod BPB)"

definition data_start :: "superblock \<Rightarrow> nat" where
  "data_start x = sb_bmapstart x + (sb_size x - 1) div BPB + 1"

definition mapped :: "'z balloc_st_scheme \<Rightarrow> (nat \<Rightarrow> memory) \<Rightarrow> bool" where
  "mapped s C \<longleftrightarrow> lg_start s + LOGSIZE \<le> sb_bmapstart (sb s) \<and> data_start (sb s) \<le> sb_size (sb s) \<and>
     sb_size (sb s) \<le> disksize s \<and> (\<forall>b < data_start (sb s). used C (sb s) b)"

definition set_used :: "bool \<Rightarrow> nat \<Rightarrow> superblock \<Rightarrow> (nat \<Rightarrow> memory) \<Rightarrow> nat \<Rightarrow> memory" where
  "set_used v b x C = C(BBLOCK b x := (C (BBLOCK b x))(b mod BPB div 8 :=
     (if v then set_bit else unset_bit) (b mod 8) (C (BBLOCK b x) (b mod BPB div 8))))"

lemma bit_free_blk [simp]: "bi < BPB \<Longrightarrow> bit_free (blk d) bi = bit_free d bi"
  by (simp add: bit_free_def blk_def BPB_def BSIZE_def less_mult_imp_div_less)

lemma BPB_pos [simp]: "0 < BPB" by (simp add: BPB_def BSIZE_def)

lemma mod_BPB_8: "b mod BPB mod 8 = b mod 8"
  by (simp add: BPB_def mod_mod_cancel)

lemma byte_of: "b mod BPB div 8 < BSIZE"
proof -
  have "b mod BPB < BSIZE * 8" by (metis BPB_def BPB_pos mod_less_divisor)
  then show ?thesis by (simp add: less_mult_imp_div_less)
qed

lemma used_set_used [simp]: "used (set_used v b x C) x b' = (if b' = b then v else used C x b')"
proof (cases "BBLOCK b x = BBLOCK b' x \<and> b mod BPB div 8 = b' mod BPB div 8")
  case True
  have eq: "b' = b" if "b' mod 8 = b mod 8"
  proof -
    have "b' mod BPB mod 8 = b mod BPB mod 8" using that unfolding mod_BPB_8 .
    then have m: "b' mod BPB = b mod BPB"
      using True div_mult_mod_eq [of "b' mod BPB" 8] div_mult_mod_eq [of "b mod BPB" 8] by linarith
    have d: "b' div BPB = b div BPB" using True by (simp add: BBLOCK_def)
    have "b' = b' div BPB * BPB + b' mod BPB" by (simp only: div_mult_mod_eq)
    also have "\<dots> = b" unfolding m d by (simp only: div_mult_mod_eq)
    finally show ?thesis .
  qed
  let ?y = "C (BBLOCK b x) (b mod BPB div 8)"
  have "used (set_used v b x C) x b' = bit ((if v then set_bit else unset_bit) (b mod 8) ?y) (b' mod 8)"
    unfolding used_def set_used_def bit_free_def mod_BPB_8 using True by simp
  moreover have "used C x b' = bit ?y (b' mod 8)" unfolding used_def bit_free_def mod_BPB_8 using True by simp
  moreover have "bit (set_bit j ?y) k = (j = k \<or> bit ?y k)" "bit (unset_bit j ?y) k = (bit ?y k \<and> j \<noteq> k)"
    if "j < 8" for j k using that by (auto simp: bit_set_bit_iff bit_unset_bit_iff possible_bit_word)
  from this [of "b mod 8" "b' mod 8"]
  have "bit ((if v then set_bit else unset_bit) (b mod 8) ?y) (b' mod 8) = (if b' = b then v else bit ?y (b' mod 8))"
    using eq by (cases v) auto
  ultimately show ?thesis by simp
next
  case False
  then show ?thesis by (auto simp: used_def set_used_def bit_free_def)
qed

lemma used_cong: "C (BBLOCK b x) = C' (BBLOCK b x) \<Longrightarrow> used C x b = used C' x b"
  by (simp add: used_def)

lemma BBLOCK_map: "b < sb_size x \<Longrightarrow> sb_bmapstart x \<le> BBLOCK b x \<and> BBLOCK b x < data_start x"
  by (simp add: BBLOCK_def data_start_def less_Suc_eq_le div_le_mono)

lemma mappedD:
  assumes "mapped s C" "b < sb_size (sb s)"
  shows "BBLOCK b (sb s) < disksize s" "BBLOCK b (sb s) \<notin> log_region s" "b < disksize s"
  using assms BBLOCK_map [of b "sb s"] by (auto simp: mapped_def log_region_def)

lemma mapped_free:
  assumes m: "mapped s C" and b: "b < sb_size (sb s)" "\<not> used C (sb s) b" and x: "x < sb_size (sb s)"
  shows "b \<notin> log_region s" "b \<noteq> BBLOCK x (sb s)"
  using m b BBLOCK_map [OF x] by (auto simp: mapped_def log_region_def data_start_def)

section \<open>Properties of the operations\<close>

lemma mem_fill_blk: "blk (memset d 0 0 BSIZE) = (\<lambda>_. 0)"
  by (auto simp: memset_fill mem_fill_def blk_def fun_eq_iff)

lemma bzero_run:
  assumes t: "txn p s H C D X k" and b: "b < disksize s" "b \<notin> ran H" "card (dom H) \<le> 1" "b \<notin> log_region s" "0 < k"
  shows "\<exists>t. bzero 1 b s = Ok () t \<and> txn p t H (C(b := \<lambda>_. 0)) D (insert b X) (k - 1) \<and> logframe s t"
proof -
  obtain i u where u: "bread 1 b s = Ok i u" "H i = None" "txn p u (H(i \<mapsto> b)) C D X k" "untouched s u"
    using txn_bread [OF t b(1-3)] by blast
  have "b \<notin> log_region u" using b(4) untouched_log [OF u(4)] by (simp add: log_region_def)
  then obtain v where v: "run [upd_buf i (\<lambda>x. x\<lparr>b_data := memset (b_data x) 0 0 BSIZE\<rparr>), log_write i, brelse i] u = Ok () v"
    "txn p v ((H(i \<mapsto> b))(i := None)) (C(b := \<lambda>_. 0)) D (insert b X) (k - 1)" "logframe u v"
    using txn_write_release [OF u(3), of i b "\<lambda>d. memset d 0 0 BSIZE"] b(5) mem_fill_blk by auto
  moreover have "(H(i \<mapsto> b))(i := None) = H" using u(2) by auto
  moreover have "logframe s v" using logframe_trans [OF untouched_logframe [OF u(4)] v(3)] .
  ultimately show ?thesis using u(1) by (auto simp: bzero_def exec_simps)
qed

lemma sb_of_more:
  assumes "log_st.more x = log_st.more y"
  shows "sb x = sb y" "balloc_st.more x = balloc_st.more y"
  using assms by (cases x, cases y, simp)+

lemma untouched_sb: "untouched s t \<Longrightarrow> sb t = sb s"
  using untouched_log(8) sb_of_more(1) by blast

lemma mapped_cong:
  "sb t = sb s \<Longrightarrow> lg_start t = lg_start s \<Longrightarrow> disksize t = disksize s \<Longrightarrow> mapped t C = mapped s C"
  by (simp add: mapped_def)

lemma at_block:
  assumes "B mod BPB = 0" "bi < BPB"
  shows "BBLOCK (B + bi) x = BBLOCK B x" "(B + bi) mod BPB = bi"
proof -
  obtain k where B: "B = BPB * k" using assms(1) by (auto simp: mod_eq_0_iff_dvd)
  show "BBLOCK (B + bi) x = BBLOCK B x" "(B + bi) mod BPB = bi" using assms(2) by (simp_all add: B BBLOCK_def)
qed

lemma blk_set_bit:
  assumes "C bb = blk d" "bi < BPB" "bb = BBLOCK b x" "b mod BPB = bi"
  shows "C(bb := blk (d(bi div 8 := set_bit (bi mod 8) (d (bi div 8))))) = set_used True b x C"
    "C(bb := blk (d(bi div 8 := unset_bit (bi mod 8) (d (bi div 8))))) = set_used False b x C"
proof -
  have "bi div 8 < BSIZE" "bi mod 8 = b mod 8" using byte_of [of b] mod_BPB_8 [of b] assms by simp_all
  then show "C(bb := blk (d(bi div 8 := set_bit (bi mod 8) (d (bi div 8))))) = set_used True b x C"
    "C(bb := blk (d(bi div 8 := unset_bit (bi mod 8) (d (bi div 8))))) = set_used False b x C"
    using assms by (auto simp: set_used_def blk_def fun_eq_iff)
qed

text \<open>What a caller of \<open>balloc()\<close> may hold: one buffer at most, and neither a map block nor a free block.\<close>

definition may_alloc :: "(nat \<rightharpoonup> nat) \<Rightarrow> (nat \<Rightarrow> memory) \<Rightarrow> superblock \<Rightarrow> bool" where
  "may_alloc H C x \<longleftrightarrow> card (dom H) \<le> 1 \<and> (\<forall>b < sb_size x. BBLOCK b x \<notin> ran H) \<and>
     (\<forall>b < sb_size x. b \<in> ran H \<longrightarrow> used C x b)"

lemma may_alloc_empty [simp]: "may_alloc Map.empty C x"
  by (simp add: may_alloc_def)

definition allocated :: "nat \<Rightarrow> 'z balloc_st_scheme \<Rightarrow> (nat \<rightharpoonup> nat) \<Rightarrow> (nat \<Rightarrow> memory) \<Rightarrow> (nat \<Rightarrow> memory) \<Rightarrow> nat set \<Rightarrow> nat \<Rightarrow> nat \<Rightarrow>
    'z balloc_st_scheme \<Rightarrow> bool" where
  "allocated p s H C D X k b t \<longleftrightarrow> b < sb_size (sb s) \<and> \<not> used C (sb s) b \<and> (\<forall>b'<b. used C (sb s) b') \<and>
     txn p t H ((set_used True b (sb s) C)(b := \<lambda>_. 0)) D (insert b (insert (BBLOCK b (sb s)) X)) (k - 2) \<and> logframe s t"

lemma balloc_take:
  assumes t: "txn p s H C D X k" and h: "H i = Some (BBLOCK b (sb s))" and m: "mapped s C" and k: "2 \<le> k"
    and b: "b < sb_size (sb s)" "\<not> used C (sb s) b" "b mod BPB = bi" and a: "may_alloc (H(i := None)) C (sb s)"
  shows "\<exists>t. run [upd_buf i (\<lambda>x. x\<lparr>b_data := (b_data x)(bi div 8 := set_bit (bi mod 8) (b_data x (bi div 8)))\<rparr>),
      log_write i, brelse i, bzero 1 b] s = Ok () t \<and>
    txn p t (H(i := None)) ((set_used True b (sb s) C)(b := \<lambda>_. 0)) D (insert b (insert (BBLOCK b (sb s)) X)) (k - 2) \<and> logframe s t"
proof -
  let ?f = "\<lambda>d :: memory. d(bi div 8 := set_bit (bi mod 8) (d (bi div 8)))"
  note md = mappedD [OF m b(1)]
  obtain u where u: "run [upd_buf i (\<lambda>x. x\<lparr>b_data := ?f (b_data x)\<rparr>), log_write i, brelse i] s = Ok () u"
    "txn p u (H(i := None)) (C(BBLOCK b (sb s) := blk (?f (b_data (bufs s ! i))))) D (insert (BBLOCK b (sb s)) X) (k - 1)"
    "logframe s u" using txn_write_release [OF t h _ md(2), of ?f] k by auto
  have bi: "bi < BPB" using b(3) by auto
  have C: "C (BBLOCK b (sb s)) = blk (b_data (bufs s ! i))" using cache_data [OF txn_cache [OF t] h] .
  have "C(BBLOCK b (sb s) := blk (?f (b_data (bufs s ! i)))) = set_used True b (sb s) C"
    by (rule blk_set_bit(1)) (use C bi b(3) in auto)
  note u2 = u(2) [unfolded this]
  have "b \<notin> ran (H(i := None))" using a b by (auto simp: may_alloc_def)
  moreover have "b < disksize u" "b \<notin> log_region u"
    using md u(3) mapped_free [OF m b(1,2,1)] by (auto simp: logframe_def log_region_def)
  ultimately obtain v where v: "bzero 1 b u = Ok () v"
    "txn p v (H(i := None)) ((set_used True b (sb s) C)(b := \<lambda>_. 0)) D (insert b (insert (BBLOCK b (sb s)) X)) (k - 1 - 1)"
    "logframe u v" using bzero_run [OF u2, of b] a k by (auto simp: may_alloc_def)
  have "k - 1 - 1 = k - 2" by simp
  then show ?thesis using u(1) v logframe_trans [OF u(3) v(3)] by (auto simp: exec_simps split: outcome.splits)
qed

lemma balloc_loop_run:
  assumes "txn p s H C D X k" "mapped s C" "2 \<le> k" "may_alloc H C (sb s)" "B mod BPB = 0" "\<forall>b<B. b < sb_size (sb s) \<longrightarrow> used C (sb s) b"
  shows "if (\<exists>b < sb_size (sb s). \<not> used C (sb s) b) then \<exists>b t. balloc_loop 1 (sb_size (sb s)) B s = Ok b t \<and> allocated p s H C D X k b t
    else \<exists>t. balloc_loop 1 (sb_size (sb s)) B s = Stop (Panic ''balloc: out of blocks'') t"
  using assms
proof (induction "sb_size (sb s) - B" arbitrary: B s rule: less_induct)
  case less
  let ?sb = "sb s" let ?sz = "sb_size (sb s)"
  note t = less.prems(1) and m = less.prems(2) and k = less.prems(3) and a = less.prems(4) and B = less.prems(5,6)
  show ?case
  proof (cases "B < ?sz")
    case False
    then have "\<not> (\<exists>b<?sz. \<not> used C ?sb b)" using B(2) by auto
    then show ?thesis using False by (simp add: balloc_loop.simps exec_simps)
  next
    case True
    note md = mappedD [OF m True]
    have "BBLOCK B ?sb \<notin> ran H" "card (dom H) \<le> 1" using a True by (auto simp: may_alloc_def)
    from txn_bread_release [OF t md(1) this]
    obtain i u v where u: "bread 1 (BBLOCK B ?sb) s = Ok i u" "H i = None" "txn p u (H(i \<mapsto> BBLOCK B ?sb)) C D X k" "untouched s u"
      "C (BBLOCK B ?sb) = blk (b_data (bufs u ! i))" and v: "brelse i u = Ok () v" "txn p v H C D X k" "untouched s v"
      by blast
    have Hi: "(H(i \<mapsto> BBLOCK B ?sb))(i := None) = H" using u(2) by auto
    have bf: "bit_free (b_data (bufs u ! i)) bi \<longleftrightarrow> \<not> used C ?sb (B + bi)" if "bi < BPB" for bi
      using that u(5) at_block [OF B(1) that] by (simp add: used_def)
    show ?thesis
    proof (cases "first_idx (bit_free (b_data (bufs u ! i))) [0..<min BPB (?sz - B)]")
      case None
      have all: "used C ?sb (B + bi)" if "bi < BPB" "B + bi < ?sz" for bi
        using None that bf [of bi] by (auto simp: first_idx_from_None)
      have "used C ?sb b" if "b < B + BPB" "b < ?sz" for b
        using B(2) all [of "b - B"] that by (cases "b < B") auto
      then have "\<forall>b<B + BPB. b < ?sz \<longrightarrow> used C ?sb b" by blast
      moreover have "mapped v C" "sb v = ?sb" using m mapped_cong [of v s C] untouched_sb [OF v(3)] untouched_log [OF v(3)] by simp_all
      moreover have "(B + BPB) mod BPB = 0" using B(1) by simp
      moreover have "?sz - (B + BPB) < ?sz - B" using True BPB_pos by linarith
      ultimately have IH: "if (\<exists>b<?sz. \<not> used C ?sb b) then \<exists>b t. balloc_loop 1 ?sz (B + BPB) v = Ok b t \<and> allocated p v H C D X k b t
        else \<exists>t. balloc_loop 1 ?sz (B + BPB) v = Stop (Panic ''balloc: out of blocks'') t"
        using less.hyps [of v "B + BPB"] v(2) k a by (simp cong: if_cong)
      have "balloc_loop 1 ?sz B s = balloc_loop 1 ?sz (B + BPB) v"
        using True u(1) v(1) None by (subst balloc_loop.simps) (simp add: exec_simps)
      moreover have "allocated p v H C D X k b t \<Longrightarrow> allocated p s H C D X k b t" for b t
        using \<open>sb v = ?sb\<close> logframe_trans [OF untouched_logframe [OF v(3)]] by (auto simp: allocated_def)
      ultimately show ?thesis using IH by (auto split: if_splits)
    next
      case (Some bi)
      have bi: "bi < BPB" "B + bi < ?sz" "bit_free (b_data (bufs u ! i)) bi"
        "\<And>j. j < bi \<Longrightarrow> \<not> bit_free (b_data (bufs u ! i)) j"
        using first_idx_Some [OF Some] by auto
      have nu: "\<not> used C ?sb (B + bi)" using bf bi by blast
      have su: "sb u = ?sb" and mu: "mapped u C" using m mapped_cong [of u s C] untouched_sb [OF u(4)] untouched_log [OF u(4)] by simp_all
      have below: "used C ?sb b" if "b < B + bi" for b
      proof (cases "b < B")
        case True
        then show ?thesis using B(2) that bi(2) by auto
      next
        case False
        then show ?thesis using bf [of "b - B"] bi(1) bi(4) [of "b - B"] that by auto
      qed
      obtain w where w: "run [upd_buf i (\<lambda>x. x\<lparr>b_data := (b_data x)(bi div 8 := set_bit (bi mod 8) (b_data x (bi div 8)))\<rparr>),
          log_write i, brelse i, bzero 1 (B + bi)] u = Ok () w"
        "txn p w H ((set_used True (B + bi) ?sb C)(B + bi := \<lambda>_. 0)) D (insert (B + bi) (insert (BBLOCK (B + bi) ?sb) X)) (k - 2)"
        "logframe u w"
        using balloc_take [OF u(3), of i "B + bi" bi] mu k bi(2) nu at_block [OF B(1) bi(1)] a Hi su by auto
      have "balloc_loop 1 ?sz B s = Ok (B + bi) w"
        using True u(1) Some w(1) by (subst balloc_loop.simps) (simp add: exec_simps split: outcome.splits)
      moreover have "allocated p s H C D X k (B + bi) w"
        using w bi nu below logframe_trans [OF untouched_logframe [OF u(4)] w(3)] by (simp add: allocated_def)
      ultimately show ?thesis using nu bi(2) by auto
    qed
  qed
qed

text \<open>\<open>readsb\<close> returns the superblock that block 1 holds.\<close>

lemma sb_of_blk [simp]: "sb_of (blk d) = sb_of d"
  by (simp add: sb_of_def rd32_blk BSIZE_def)

lemma readsb_run:
  assumes t: "txn p s H C D X k" and b: "1 < disksize s" "1 \<notin> ran H" "card (dom H) \<le> 1"
  shows "\<exists>t. readsb 1 s = Ok (sb_of (C 1)) t \<and> txn p t H C D X k \<and> untouched s t"
proof -
  obtain i u v where "bread 1 1 s = Ok i u" "C 1 = blk (b_data (bufs u ! i))" "brelse i u = Ok () v" "txn p v H C D X k" "untouched s v"
    using txn_bread_release [OF t b] by blast
  then show ?thesis by (simp add: readsb_def exec_simps)
qed

definition sb_stored :: "'z balloc_st_scheme \<Rightarrow> (nat \<Rightarrow> memory) \<Rightarrow> bool" where
  "sb_stored s C \<longleftrightarrow> sb_of (C 1) = sb s \<and> 1 < disksize s"

lemma bfree_run:
  fixes s :: "'z balloc_st_scheme"
  assumes t: "txn p s H C D X k" and m: "mapped s C" "sb_stored s C" and k: "0 < k"
    and h: "card (dom H) \<le> 1" "1 \<notin> ran H" "BBLOCK b (sb s) \<notin> ran H" and b: "b < sb_size (sb s)"
  shows "if used C (sb s) b
    then \<exists>t. bfree 1 b s = Ok () t \<and> txn p t H (set_used False b (sb s) C) D (insert (BBLOCK b (sb s)) X) (k - 1) \<and> logframe s t
    else \<exists>t. bfree 1 b s = Stop (Panic ''freeing free block'') t"
proof -
  let ?bb = "BBLOCK b (sb s)" let ?bi = "b mod BPB"
  let ?f = "\<lambda>d :: memory. d(?bi div 8 := unset_bit (?bi mod 8) (d (?bi div 8)))"
  obtain r where r: "readsb 1 s = Ok (sb s) r" "txn p r H C D X k" "untouched s r"
    using readsb_run [OF t _ h(2,1)] m by (auto simp: sb_stored_def)
  have same: "r\<lparr>sb := sb s\<rparr> = r" using untouched_sb [OF r(3)] by (cases r) simp
  have md: "?bb < disksize r" "?bb \<notin> log_region r"
    using mappedD [OF m(1) b] untouched_log [OF r(3)] by (simp_all add: log_region_def)
  obtain i u where u: "bread 1 ?bb r = Ok i u" "H i = None" "txn p u (H(i \<mapsto> ?bb)) C D X k" "untouched r u"
    using txn_bread [OF r(2) md(1) h(3,1)] by blast
  have C: "C ?bb = blk (b_data (bufs u ! i))" using cache_data [OF txn_cache [OF u(3)], of i ?bb] by simp
  have bf: "bit_free (b_data (bufs u ! i)) ?bi \<longleftrightarrow> \<not> used C (sb s) b" using C by (simp add: used_def)
  show ?thesis
  proof (cases "used C (sb s) b")
    case False
    then show ?thesis using bf u(1) r(1) untouched_sb [OF r(3)] by (simp add: bfree_def exec_simps Let_def same)
  next
    case True
    have "?bb \<notin> log_region u" using md(2) untouched_log [OF u(4)] by (simp add: log_region_def)
    from txn_write_release [OF u(3) _ _ this, of i ?f] k
    obtain w where w: "run [upd_buf i (\<lambda>x. x\<lparr>b_data := ?f (b_data x)\<rparr>), log_write i, brelse i] u = Ok () w"
      "txn p w ((H(i \<mapsto> ?bb))(i := None)) (C(?bb := blk (?f (b_data (bufs u ! i))))) D (insert ?bb X) (k - 1)" "logframe u w"
      by auto
    have "C(?bb := blk (?f (b_data (bufs u ! i)))) = set_used False b (sb s) C"
      by (rule blk_set_bit(2)) (use C in auto)
    moreover have "(H(i \<mapsto> ?bb))(i := None) = H" using u(2) by auto
    moreover have "logframe s w"
      using logframe_trans [OF untouched_logframe [OF untouched_trans [OF r(3) u(4)]] w(3)] .
    ultimately show ?thesis using True bf u(1) w(1,2) r(1) untouched_sb [OF r(3)]
      by (simp add: bfree_def exec_simps Let_def same)
  qed
qed

section \<open>Properties\<close>

text \<open>
  C21. \<open>balloc()\<close> returns the lowest block that the free map shows as free, marks it in use, zeroes
  it, and changes the content of no other block: both blocks it writes are in the log. When no
  block is free it panics.
\<close>

theorem balloc_allocates:
  assumes "txn p s H C D X k" "mapped s C" "2 \<le> k" "may_alloc H C (sb s)"
  shows "if (\<exists>b < sb_size (sb s). \<not> used C (sb s) b)
    then \<exists>b t. balloc 1 s = Ok b t \<and> b < sb_size (sb s) \<and> \<not> used C (sb s) b \<and> (\<forall>b'<b. used C (sb s) b') \<and>
      txn p t H ((set_used True b (sb s) C)(b := \<lambda>_. 0)) D (insert b (insert (BBLOCK b (sb s)) X)) (k - 2)
    else \<exists>t. balloc 1 s = Stop (Panic ''balloc: out of blocks'') t"
  using balloc_loop_run [OF assms, of 0]
  by (auto simp: balloc_def exec_simps allocated_def split: if_splits)

text \<open>
  The witness: a disk of 200 blocks whose map at block 60 marks the blocks below 101 in use, and
  the log with an open transaction on it.
\<close>

definition map0 :: memory where
  "map0 = (\<lambda>i. if i < 12 then 255 else if i = 12 then 31 else 0)"

definition sb0 :: superblock where
  "sb0 = \<lparr>sb_size = 200, sb_nblocks = 99, sb_ninodes = 100, sb_nlog = 30, sb_logstart = 2, sb_inodestart = 34, sb_bmapstart = 60\<rparr>"

definition sbimg :: memory where
  "sbimg = wr32 (wr32 (wr32 (wr32 (wr32 (wr32 (wr32 (\<lambda>_. 0) 0 200) 4 99) 8 100) 12 30) 16 2) 20 34) 24 60"

definition balloc0 :: balloc_st where
  "balloc0 = (log_boot (balloc_st.fields sb0))\<lparr>memdisk :=
       copy_bytes (copy_bytes (\<lambda>_. 0) BSIZE sbimg 0 BSIZE) (60 * BSIZE) map0 0 BSIZE,
     lg_outstanding := 1\<rparr>"

lemma balloc0_fields: "sb balloc0 = sb0" "disksize balloc0 = 1000" "lg_start balloc0 = 2" "lh_n balloc0 = 0"
  "lg_dev balloc0 = 1" "lg_outstanding balloc0 = 1" "lg_size balloc0 = LOGSIZE" "lh_block balloc0 = replicate LOGSIZE 0"
  "bufs balloc0 = bufs0" "slocks balloc0 = slocks bio0"
  by (simp_all add: balloc0_def log_boot_def balloc_st.defs)

lemma txn_balloc0: "txn 1 balloc0 Map.empty (on_disk balloc0) (on_disk balloc0) {} 5"
proof -
  have "quiet balloc0 1" using quiet_boot [of "balloc_st.fields sb0"] by (simp add: balloc0_def)
  then have "cache 1 balloc0 Map.empty (on_disk balloc0) (on_disk balloc0) {}"
    using cache_empty balloc0_fields by blast
  then show ?thesis unfolding txn_def
    by (intro exI [of _ 0]) (simp add: balloc0_fields log_wf_def LOGSIZE_def MAXOPBLOCKS_def NBUF_def)
qed

lemma used_balloc0: "b < 200 \<Longrightarrow> used (on_disk balloc0) sb0 b \<longleftrightarrow> b < 101"
proof -
  assume b: "b < 200"
  have "on_disk balloc0 60 k = (if k < BSIZE then map0 k else 0)" for k
    by (auto simp: balloc0_def on_disk_def copy_bytes_def)
  moreover have "b div 8 < BSIZE" using b by (simp add: BSIZE_def)
  moreover have "BBLOCK b sb0 = 60" "b mod BPB = b" using b by (simp_all add: BBLOCK_def BPB_def BSIZE_def sb0_def)
  ultimately have "used (on_disk balloc0) sb0 b \<longleftrightarrow> bit (map0 (b div 8)) (b mod 8)" by (simp add: used_def bit_free_def)
  also have "\<dots> \<longleftrightarrow> b < 101"
  proof -
    have w: "(255 :: byte) = mask 8" "(31 :: byte) = mask 5" by (simp_all add: mask_eq_exp_minus_1)
    have "bit (255 :: byte) (b mod 8)" "bit (31 :: byte) (b mod 8) \<longleftrightarrow> b mod 8 < 5"
      unfolding w by (auto simp only: bit_mask_iff possible_bit_word) auto
    then have "bit (map0 (b div 8)) (b mod 8) \<longleftrightarrow> b div 8 < 12 \<or> b div 8 = 12 \<and> b mod 8 < 5" by (simp add: map0_def)
    then show ?thesis by presburger
  qed
  finally show ?thesis .
qed

lemma mapped_balloc0: "mapped balloc0 (on_disk balloc0)"
proof -
  have "data_start sb0 = 61" by (simp add: data_start_def sb0_def BPB_def BSIZE_def)
  then show ?thesis using used_balloc0
    by (simp add: mapped_def balloc0_fields) (simp add: sb0_def LOGSIZE_def MAXOPBLOCKS_def)
qed

theorem balloc_allocates_witness: "\<exists>t. balloc 1 balloc0 = Ok 101 t"
proof -
  have free: "\<exists>b < sb_size (sb balloc0). \<not> used (on_disk balloc0) (sb balloc0) b"
    using used_balloc0 [of 101] by (intro exI [of _ 101]) (simp add: balloc0_fields sb0_def)
  obtain b t where b: "balloc 1 balloc0 = Ok b t" "b < 200" "\<not> used (on_disk balloc0) sb0 b"
    "\<forall>b'<b. used (on_disk balloc0) sb0 b'"
    using balloc_allocates [OF txn_balloc0 mapped_balloc0] free by (auto simp: balloc0_fields sb0_def)
  have "\<not> b < 101" using b used_balloc0 [of b] by blast
  moreover have "\<not> 101 < b" using b(4) used_balloc0 [of 101] by auto
  ultimately have "b = 101" by simp
  then show ?thesis using b by simp
qed

text \<open>
  C22. \<open>bfree()\<close> clears the mark of a block that is in use, and with it undoes \<open>balloc()\<close>: the map is
  then as before. Freeing a block that is marked free panics.
\<close>

theorem bfree_frees:
  assumes "txn p s H C D X k" "mapped s C" "sb_stored s C" "0 < k" "card (dom H) \<le> 1" "1 \<notin> ran H"
    "BBLOCK b (sb s) \<notin> ran H" "b < sb_size (sb s)"
  shows "if used C (sb s) b
    then \<exists>t. bfree 1 b s = Ok () t \<and> (\<exists>C'. txn p t H C' D (insert (BBLOCK b (sb s)) X) (k - 1) \<and>
      (\<forall>b'. used C' (sb s) b' \<longleftrightarrow> b' \<noteq> b \<and> used C (sb s) b') \<and> (\<forall>n. n \<noteq> BBLOCK b (sb s) \<longrightarrow> C' n = C n))
    else \<exists>t. bfree 1 b s = Stop (Panic ''freeing free block'') t"
proof -
  have "used (set_used False b (sb s) C) (sb s) b' \<longleftrightarrow> b' \<noteq> b \<and> used C (sb s) b'" for b' by simp
  moreover have "set_used False b (sb s) C n = C n" if "n \<noteq> BBLOCK b (sb s)" for n using that by (simp add: set_used_def)
  ultimately show ?thesis using bfree_run [OF assms] by (metis (no_types, lifting))
qed

lemma sb_stored_balloc0: "sb_stored balloc0 (on_disk balloc0)"
proof -
  have "on_disk balloc0 1 = blk sbimg"
    by (rule ext) (simp add: balloc0_def on_disk_def copy_bytes_def blk_def BSIZE_def)
  moreover have "sb_of sbimg = sb0" by (simp add: sb_of_def sbimg_def sb0_def rd32_wr32_other u32_id)
  ultimately show ?thesis by (simp add: sb_stored_def balloc0_fields)
qed

theorem bfree_frees_witness:
  "(\<exists>t. bfree 1 100 balloc0 = Ok () t) \<and> (\<exists>t. bfree 1 150 balloc0 = Stop (Panic ''freeing free block'') t)"
  using bfree_frees [OF txn_balloc0 mapped_balloc0 sb_stored_balloc0, of 100] used_balloc0 [of 100]
    bfree_frees [OF txn_balloc0 mapped_balloc0 sb_stored_balloc0, of 150] used_balloc0 [of 150]
  by (auto simp: balloc0_fields sb0_def)

end
