(* ===== verification/Inode.thy ===== *)
theory Inode
  imports Balloc
begin

text \<open>
  The inode layer of \<open>fs.c\<close>: the inode cache with its reference counts and sleep locks, the inodes
  on disk, the mapping of file blocks to disk blocks, and truncation. A \<open>struct inode *\<close> is the
  index of its slot in \<open>icache.inode\<close>, so that the tests for a null pointer in \<open>ilock\<close> and
  \<open>iunlock\<close> are never true. The only flag, \<open>I_VALID\<close>, is the field \<open>i_valid\<close>.
\<close>

section \<open>Operations\<close>

definition NINODE :: nat where "NINODE = 50"
definition NDEV :: nat where "NDEV = 10"
definition NDIRECT :: nat where "NDIRECT = 12"
definition NINDIRECT :: nat where "NINDIRECT = BSIZE div 4"
definition MAXFILE :: nat where "MAXFILE = NDIRECT + NINDIRECT"
definition DINODE_SIZE :: nat where "DINODE_SIZE = 64"
definition IPB :: nat where "IPB = BSIZE div DINODE_SIZE"
definition T_DIR :: int where "T_DIR = 1"
definition T_FILE :: int where "T_FILE = 2"
definition T_DEV :: int where "T_DEV = 3"

definition IBLOCK :: "nat \<Rightarrow> superblock \<Rightarrow> nat" where
  "IBLOCK i x = i div IPB + sb_inodestart x"

record inode =
  i_dev :: nat
  i_inum :: nat
  i_ref :: int
  i_valid :: bool
  i_type :: int
  i_major :: int
  i_minor :: int
  i_nlink :: int
  i_size :: nat
  i_addrs :: "nat list"

record inode_st = balloc_st +
  inodes :: "inode list"

definition upd_inode :: "nat \<Rightarrow> (inode \<Rightarrow> inode) \<Rightarrow> ('z inode_st_scheme, unit) cmd" where
  "upd_inode i f = modify (\<lambda>s. s\<lparr>inodes := (inodes s)[i := f (inodes s ! i)]\<rparr>)"

definition iinit :: "nat \<Rightarrow> ('z inode_st_scheme, unit) cmd" where
  "iinit dev = run
     [initlock LIcache ''icache'',
      forM [0..<NINODE] (\<lambda>i. initsleeplock (SInode i) ''inode''),
      bnd (readsb dev) (\<lambda>x. modify (\<lambda>s. s\<lparr>sb := x\<rparr>)),
      withS (\<lambda>s. cprintf ''sb: size %d nblocks %d ninodes %d nlog %d logstart %d inodestart %d bmap start %d\<newline>''
        (map (\<lambda>n. PInt (s32 n)) [sb_size (sb s), sb_nblocks (sb s), sb_ninodes (sb s), sb_nlog (sb s),
           sb_logstart (sb s), sb_inodestart (sb s), sb_bmapstart (sb s)]))]"

text \<open>The fields of the on-disk inode at offset \<open>a\<close> of a block: the four shorts, the size, the addresses.\<close>

definition get_dinode :: "memory \<Rightarrow> nat \<Rightarrow> inode \<Rightarrow> inode" where
  "get_dinode d a x = x\<lparr>i_type := s16 (rd16 d a), i_major := s16 (rd16 d (a + 2)), i_minor := s16 (rd16 d (a + 4)),
     i_nlink := s16 (rd16 d (a + 6)), i_size := rd32 d (a + 8),
     i_addrs := map (\<lambda>j. rd32 d (a + 12 + 4 * j)) [0..<NDIRECT + 1]\<rparr>"

primrec put_addrs :: "memory \<Rightarrow> nat \<Rightarrow> nat list \<Rightarrow> memory" where
  "put_addrs d a [] = d"
| "put_addrs d a (x # xs) = put_addrs (wr32 d a x) (a + 4) xs"

definition put_dinode :: "memory \<Rightarrow> nat \<Rightarrow> inode \<Rightarrow> memory" where
  "put_dinode d a x = put_addrs (wr32 (wr16 (wr16 (wr16 (wr16 d a (u16_of (i_type x))) (a + 2) (u16_of (i_major x)))
     (a + 4) (u16_of (i_minor x))) (a + 6) (u16_of (i_nlink x))) (a + 8) (i_size x)) (a + 12) (i_addrs x)"

definition dinode_off :: "nat \<Rightarrow> nat" where
  "dinode_off inum = (inum mod IPB) * DINODE_SIZE"

definition iupdate :: "nat \<Rightarrow> ('z inode_st_scheme, unit) cmd" where
  "iupdate ip = bnd (withS (\<lambda>s. bread (i_dev (inodes s ! ip)) (IBLOCK (i_inum (inodes s ! ip)) (sb s)))) (\<lambda>bp. run
     [withS (\<lambda>s. upd_buf bp (\<lambda>x. x\<lparr>b_data := put_dinode (b_data x) (dinode_off (i_inum (inodes s ! ip))) (inodes s ! ip)\<rparr>)),
      log_write bp,
      brelse bp])"

definition iget :: "nat \<Rightarrow> nat \<Rightarrow> ('z inode_st_scheme, nat) cmd" where
  "iget dev inum = bnd (acquire LIcache) (\<lambda>_. withS (\<lambda>s.
     case first_idx (\<lambda>x. 0 < i_ref x \<and> i_dev x = dev \<and> i_inum x = inum) (inodes s) of
       Some ip \<Rightarrow> andthen [upd_inode ip (\<lambda>x. x\<lparr>i_ref := i_ref x + 1\<rparr>), release LIcache] (ret ip)
     | None \<Rightarrow>
       (case first_idx (\<lambda>x. i_ref x = 0) (inodes s) of
          None \<Rightarrow> panic ''iget: no inodes''
        | Some ip \<Rightarrow> andthen
            [upd_inode ip (\<lambda>x. x\<lparr>i_dev := dev\<rparr>), upd_inode ip (\<lambda>x. x\<lparr>i_inum := inum\<rparr>),
             upd_inode ip (\<lambda>x. x\<lparr>i_ref := 1\<rparr>), upd_inode ip (\<lambda>x. x\<lparr>i_valid := False\<rparr>),
             release LIcache]
            (ret ip))))"

text \<open>The search for a free inode on disk, from \<open>inum\<close> on.\<close>

function ialloc_loop :: "nat \<Rightarrow> int \<Rightarrow> nat \<Rightarrow> nat \<Rightarrow> ('z inode_st_scheme, nat) cmd" where
  "ialloc_loop dev type n inum =
     (if inum < n then
        bnd (withS (\<lambda>s. bread dev (IBLOCK inum (sb s)))) (\<lambda>bp. withS (\<lambda>s.
          let off = dinode_off inum in
          if rd16 (b_data (bufs s ! bp)) off = 0 then
            andthen
              [upd_buf bp (\<lambda>x. x\<lparr>b_data := wr16 (memset (b_data x) off 0 DINODE_SIZE) off (u16_of type)\<rparr>),
               log_write bp,
               brelse bp]
              (iget dev inum)
          else andthen [brelse bp] (ialloc_loop dev type n (inum + 1))))
      else panic ''ialloc: no inodes'')"
  by pat_completeness auto
termination by (relation "measure (\<lambda>(dev, type, n, inum). n - inum)") auto

declare ialloc_loop.simps [simp del]

definition ialloc :: "nat \<Rightarrow> int \<Rightarrow> ('z inode_st_scheme, nat) cmd" where
  "ialloc dev type = withS (\<lambda>s. ialloc_loop dev type (sb_ninodes (sb s)) 1)"

definition idup :: "nat \<Rightarrow> ('z inode_st_scheme, nat) cmd" where
  "idup ip = andthen
     [acquire LIcache,
      upd_inode ip (\<lambda>x. x\<lparr>i_ref := i_ref x + 1\<rparr>),
      release LIcache]
     (ret ip)"

text \<open>The part of \<open>ilock\<close> that fills an entry which is not valid.\<close>

definition iload :: "nat \<Rightarrow> ('z inode_st_scheme, unit) cmd" where
  "iload ip = bnd (withS (\<lambda>s. bread (i_dev (inodes s ! ip)) (IBLOCK (i_inum (inodes s ! ip)) (sb s)))) (\<lambda>bp. run
     [withS (\<lambda>s. upd_inode ip (get_dinode (b_data (bufs s ! bp)) (dinode_off (i_inum (inodes s ! ip))))),
      brelse bp,
      upd_inode ip (\<lambda>x. x\<lparr>i_valid := True\<rparr>),
      panic_if (\<lambda>s. i_type (inodes s ! ip) = 0) ''ilock: no type''])"

definition ilock :: "nat \<Rightarrow> ('z inode_st_scheme, unit) cmd" where
  "ilock ip = run
     [panic_if (\<lambda>s. i_ref (inodes s ! ip) < 1) ''ilock'',
      acquiresleep (SInode ip),
      whenM (\<lambda>s. \<not> i_valid (inodes s ! ip)) (iload ip)]"

definition iunlock :: "nat \<Rightarrow> ('z inode_st_scheme, unit) cmd" where
  "iunlock ip = bnd (holdingsleep (SInode ip)) (\<lambda>h. run
     [panic_if (\<lambda>s. h = 0 \<or> i_ref (inodes s ! ip) < 1) ''iunlock'',
      releasesleep (SInode ip)])"

text \<open>
  \<open>bmap\<close>: the disk block of block \<open>bn\<close> of the file, allocated if there is none. \<open>bmap_indirect\<close> is the
  part for the blocks listed in the indirect block.
\<close>

definition set_addr :: "nat \<Rightarrow> nat \<Rightarrow> nat \<Rightarrow> ('z inode_st_scheme, unit) cmd" where
  "set_addr ip j a = upd_inode ip (\<lambda>x. x\<lparr>i_addrs := (i_addrs x)[j := a]\<rparr>)"

definition bmap_slot :: "nat \<Rightarrow> nat \<Rightarrow> ('z inode_st_scheme, nat) cmd" where
  "bmap_slot ip j = withS (\<lambda>s. let addr = i_addrs (inodes s ! ip) ! j in
     if addr = 0 then bnd (balloc (i_dev (inodes s ! ip))) (\<lambda>addr. andthen [set_addr ip j addr] (ret addr))
     else ret addr)"

definition bmap_indirect :: "nat \<Rightarrow> nat \<Rightarrow> ('z inode_st_scheme, nat) cmd" where
  "bmap_indirect ip bn = bnd (bmap_slot ip NDIRECT) (\<lambda>iaddr.
     bnd (withS (\<lambda>s. bread (i_dev (inodes s ! ip)) iaddr)) (\<lambda>bp.
     bnd (gets (\<lambda>s. rd32 (b_data (bufs s ! bp)) (4 * bn))) (\<lambda>addr.
     if addr = 0 then
       bnd (withS (\<lambda>s. balloc (i_dev (inodes s ! ip)))) (\<lambda>addr. andthen
         [upd_buf bp (\<lambda>x. x\<lparr>b_data := wr32 (b_data x) (4 * bn) addr\<rparr>),
          log_write bp,
          brelse bp]
         (ret addr))
     else andthen [brelse bp] (ret addr))))"

definition bmap :: "nat \<Rightarrow> nat \<Rightarrow> ('z inode_st_scheme, nat) cmd" where
  "bmap ip bn =
     (if bn < NDIRECT then bmap_slot ip bn
      else if bn - NDIRECT < NINDIRECT then bmap_indirect ip (bn - NDIRECT)
      else panic ''bmap: out of range'')"

definition itrunc :: "nat \<Rightarrow> ('z inode_st_scheme, unit) cmd" where
  "itrunc ip = run
     [forM [0..<NDIRECT] (\<lambda>i.
        whenM (\<lambda>s. i_addrs (inodes s ! ip) ! i \<noteq> 0) (run
          [withS (\<lambda>s. bfree (i_dev (inodes s ! ip)) (i_addrs (inodes s ! ip) ! i)),
           set_addr ip i 0])),
      whenM (\<lambda>s. i_addrs (inodes s ! ip) ! NDIRECT \<noteq> 0) (
        bnd (withS (\<lambda>s. bread (i_dev (inodes s ! ip)) (i_addrs (inodes s ! ip) ! NDIRECT))) (\<lambda>bp. run
          [forM [0..<NINDIRECT] (\<lambda>j.
             whenM (\<lambda>s. rd32 (b_data (bufs s ! bp)) (4 * j) \<noteq> 0)
               (withS (\<lambda>s. bfree (i_dev (inodes s ! ip)) (rd32 (b_data (bufs s ! bp)) (4 * j))))),
           brelse bp,
           withS (\<lambda>s. bfree (i_dev (inodes s ! ip)) (i_addrs (inodes s ! ip) ! NDIRECT)),
           set_addr ip NDIRECT 0])),
      upd_inode ip (\<lambda>x. x\<lparr>i_size := 0\<rparr>),
      iupdate ip]"

definition iput :: "nat \<Rightarrow> ('z inode_st_scheme, unit) cmd" where
  "iput ip = run
     [acquire LIcache,
      whenM (\<lambda>s. let x = inodes s ! ip in i_ref x = 1 \<and> i_valid x \<and> i_nlink x = 0) (run
        [release LIcache,
         itrunc ip,
         upd_inode ip (\<lambda>x. x\<lparr>i_type := 0\<rparr>),
         iupdate ip,
         acquire LIcache,
         upd_inode ip (\<lambda>x. x\<lparr>i_valid := False\<rparr>)]),
      upd_inode ip (\<lambda>x. x\<lparr>i_ref := i_ref x - 1\<rparr>),
      release LIcache]"

definition iunlockput :: "nat \<Rightarrow> ('z inode_st_scheme, unit) cmd" where
  "iunlockput ip = run [iunlock ip, iput ip]"

record stat =
  st_type :: int
  st_dev :: int
  st_ino :: nat
  st_nlink :: int
  st_size :: nat

definition stati :: "nat \<Rightarrow> 'z inode_st_scheme \<Rightarrow> stat" where
  "stati ip s = (let x = inodes s ! ip in
     \<lparr>st_type = i_type x, st_dev = s32 (i_dev x), st_ino = i_inum x, st_nlink = i_nlink x, st_size = i_size x\<rparr>)"

end
