(* ===== verification/Ring.thy ===== *)
theory Ring
  imports Prelude
begin

text \<open>
  Circular buffers as the kernel writes them: an array of \<open>N\<close> bytes and free running 32-bit read
  and write counters, of which only the remainder modulo \<open>N\<close> is used as an index. The pipe and the console
  input are such buffers; the laws hold when \<open>N\<close> divides \<open>2 ^ 32\<close>, so that they survive the overflow of the counters.
\<close>

definition ring_count :: "nat \<Rightarrow> nat \<Rightarrow> nat" where
  "ring_count r w = u32_of (int w - int r)"

definition ring_content :: "nat \<Rightarrow> 'a list \<Rightarrow> nat \<Rightarrow> nat \<Rightarrow> 'a list" where
  "ring_content N buf r w = map (\<lambda>k. buf ! ((r + k) mod N)) [0..<ring_count r w]"

definition ring_ok :: "nat \<Rightarrow> 'a list \<Rightarrow> nat \<Rightarrow> nat \<Rightarrow> bool" where
  "ring_ok N buf r w \<longleftrightarrow> length buf = N \<and> r < 4294967296 \<and> w < 4294967296 \<and> ring_count r w \<le> N"

lemma length_ring_content [simp]: "length (ring_content N buf r w) = ring_count r w"
  by (simp add: ring_content_def)

lemma ring_count_int: "int (ring_count r w) = (int w - int r) mod 4294967296"
  by (simp add: ring_count_def u32_of_def)

lemma ring_count_less [simp]: "ring_count r w < 4294967296"
  by (simp add: ring_count_def)

lemma ring_count_eqI:
  assumes "n < 4294967296" "(int r + int n) mod 4294967296 = int w mod 4294967296"
  shows "ring_count r w = n"
proof -
  have "(int w - int r) mod 4294967296 = (int w mod 4294967296 - int r) mod 4294967296"
    by (rule mod_diff_left_eq [symmetric])
  also have "\<dots> = (int r + int n - int r) mod 4294967296"
    by (simp only: assms(2) [symmetric] mod_diff_left_eq)
  finally have "(int w - int r) mod 4294967296 = (int r + int n - int r) mod 4294967296" .
  then have "int (ring_count r w) = int n" using assms(1) by (simp add: ring_count_int)
  then show ?thesis by simp
qed

lemma ring_count_end: "(int r + int (ring_count r w)) mod 4294967296 = int w mod 4294967296"
  by (simp add: ring_count_int mod_add_right_eq)

lemma ring_count_same [simp]: "ring_count r r = 0"
  by (simp add: ring_count_def u32_of_def)

lemma ring_count_0: "r < 4294967296 \<Longrightarrow> w < 4294967296 \<Longrightarrow> ring_count r w = 0 \<longleftrightarrow> r = w"
  using ring_count_end [of r w] by auto

lemma ring_count_put: "Suc (ring_count r w) < 4294967296 \<Longrightarrow> ring_count r (u32 (w + 1)) = Suc (ring_count r w)"
proof (rule ring_count_eqI)
  have "(int r + int (Suc (ring_count r w))) mod 4294967296 = (int w mod 4294967296 + 1) mod 4294967296"
    using mod_add_left_eq [of "int r + int (ring_count r w)" 4294967296 1] ring_count_end [of r w] by (simp add: ac_simps)
  then show "(int r + int (Suc (ring_count r w))) mod 4294967296 = int (u32 (w + 1)) mod 4294967296"
    by (simp add: u32_def zmod_int mod_simps ac_simps)
qed simp

lemma ring_count_get:
  assumes "0 < ring_count r w"
  shows "ring_count (u32 (r + 1)) w = ring_count r w - 1"
proof (rule ring_count_eqI)
  have "(int (u32 (r + 1)) + int (ring_count r w - 1)) mod 4294967296 = (int r + 1 + int (ring_count r w - 1)) mod 4294967296"
    by (simp add: u32_def zmod_int mod_simps ac_simps)
  also have "int r + 1 + int (ring_count r w - 1) = int r + int (ring_count r w)" using assms by simp
  finally show "(int (u32 (r + 1)) + int (ring_count r w - 1)) mod 4294967296 = int w mod 4294967296"
    using ring_count_end [of r w] by simp
qed (use ring_count_less [of r w] in linarith)

lemma ring_count_unput:
  assumes "0 < ring_count r w"
  shows "ring_count r (u32_of (int w - 1)) = ring_count r w - 1"
proof (rule ring_count_eqI)
  have "int r + int (ring_count r w - 1) = int r + int (ring_count r w) - 1" using assms by simp
  also have "\<dots> mod 4294967296 = (int w mod 4294967296 - 1) mod 4294967296"
    using mod_diff_left_eq [of "int r + int (ring_count r w)" 4294967296 1] ring_count_end [of r w] by simp
  finally show "(int r + int (ring_count r w - 1)) mod 4294967296 = int (u32_of (int w - 1)) mod 4294967296"
    by (simp add: u32_of_def mod_diff_left_eq)
qed (use ring_count_less [of r w] in linarith)

lemma ring_count_add:
  assumes "ring_count r w + ring_count w e < 4294967296"
  shows "ring_count r e = ring_count r w + ring_count w e"
proof (rule ring_count_eqI [OF assms])
  have "(int r + int (ring_count r w) + int (ring_count w e)) mod 4294967296 = (int w + int (ring_count w e)) mod 4294967296"
    by (subst (1 2) mod_add_left_eq [symmetric]) (simp only: ring_count_end)
  then show "(int r + int (ring_count r w + ring_count w e)) mod 4294967296 = int e mod 4294967296"
    using ring_count_end [of w e] by (simp add: add.assoc)
qed

lemma ring_content_empty [simp]: "ring_content N buf r r = []"
  by (simp add: ring_content_def)

lemma u32_add_mod: "N dvd 4294967296 \<Longrightarrow> (u32 r + k) mod N = (r + k) mod N"
  by (subst (1 2) mod_add_left_eq [symmetric]) (simp add: u32_def mod_mod_cancel)

locale ring_buffer =
  fixes N :: nat
  assumes divides: "N dvd 4294967296" and proper: "N < 4294967296"
begin

lemma N_pos: "0 < N"
  using divides by (cases N) auto

lemma write_index: "(r + ring_count r w) mod N = w mod N"
proof -
  have "int ((r + ring_count r w) mod 4294967296) = int (w mod 4294967296)"
    using ring_count_end [of r w] by (simp add: zmod_int)
  then have "(r + ring_count r w) mod 4294967296 mod N = w mod 4294967296 mod N" by (simp only: of_nat_eq_iff)
  then show ?thesis by (simp only: mod_mod_cancel [OF divides])
qed

lemma split_content:
  assumes "ring_count r w + ring_count w e < 4294967296"
  shows "ring_content N buf r e = ring_content N buf r w @ ring_content N buf w e"
proof -
  have "(r + (ring_count r w + k)) mod N = (w + k) mod N" for k
    using mod_add_left_eq [of "r + ring_count r w" N k] write_index [of r w] mod_add_left_eq [of w N k]
    by (simp add: add.assoc)
  then have "map (\<lambda>k. buf ! ((r + k) mod N)) [ring_count r w..<ring_count r w + ring_count w e] = ring_content N buf w e"
    by (intro nth_equalityI) (simp_all add: ring_content_def)
  then show ?thesis
    using ring_count_add [OF assms] by (simp add: ring_content_def upt_add_eq_append [of 0])
qed

lemma distinct_index:
  assumes "k < ring_count r w" "ring_count r w < N"
  shows "(r + k) mod N \<noteq> w mod N"
proof
  assume "(r + k) mod N = w mod N"
  then have "(r + k) mod N = (r + ring_count r w) mod N" by (simp add: write_index)
  then have "N dvd (r + ring_count r w) - (r + k)" using assms by (intro mod_eq_dvd_iff_nat [THEN iffD1]) auto
  then have "N dvd ring_count r w - k" by simp
  then show False using assms by (auto dest!: dvd_imp_le)
qed

lemma put:
  assumes "ring_ok N buf r w" "ring_count r w < N"
  shows "ring_ok N (buf[w mod N := b]) r (u32 (w + 1))"
    and "ring_content N (buf[w mod N := b]) r (u32 (w + 1)) = ring_content N buf r w @ [b]"
proof -
  have c: "ring_count r (u32 (w + 1)) = Suc (ring_count r w)"
    using assms(2) proper by (intro ring_count_put) linarith
  then show "ring_ok N (buf[w mod N := b]) r (u32 (w + 1))" using assms by (simp add: ring_ok_def)
  have "w mod N < length buf" using assms N_pos by (simp add: ring_ok_def)
  then show "ring_content N (buf[w mod N := b]) r (u32 (w + 1)) = ring_content N buf r w @ [b]"
    using c assms write_index [of r w]
    by (auto simp: ring_content_def dest!: distinct_index)
qed

lemma get:
  assumes "ring_ok N buf r w" "0 < ring_count r w"
  shows "ring_ok N buf (u32 (r + 1)) w"
    and "ring_content N buf r w = buf ! (r mod N) # ring_content N buf (u32 (r + 1)) w"
proof -
  note c = ring_count_get [OF assms(2)]
  show "ring_ok N buf (u32 (r + 1)) w" using assms c by (auto simp: ring_ok_def)
  have "(u32 (r + 1) + k) mod N = (r + Suc k) mod N" for k using u32_add_mod [OF divides, of "r + 1" k] by simp
  moreover have "[0..<ring_count r w] = 0 # map Suc [0..<ring_count r w - 1]"
    using assms(2) by (simp add: map_Suc_upt upt_conv_Cons)
  ultimately show "ring_content N buf r w = buf ! (r mod N) # ring_content N buf (u32 (r + 1)) w"
    using c by (simp add: ring_content_def)
qed

lemma unput:
  assumes "ring_ok N buf r w" "0 < ring_count r w"
  shows "ring_ok N buf r (u32_of (int w - 1))"
    and "ring_content N buf r (u32_of (int w - 1)) = butlast (ring_content N buf r w)"
proof -
  note c = ring_count_unput [OF assms(2)]
  show "ring_ok N buf r (u32_of (int w - 1))" using assms c by (auto simp: ring_ok_def)
  have "[0..<ring_count r w] = [0..<ring_count r w - 1] @ [ring_count r w - 1]"
    using assms(2) by (cases "ring_count r w") simp_all
  then show "ring_content N buf r (u32_of (int w - 1)) = butlast (ring_content N buf r w)"
    using c by (simp add: ring_content_def butlast_append)
qed

lemma full:
  assumes "ring_ok N buf r w"
  shows "w = u32 (r + N) \<longleftrightarrow> ring_count r w = N"
proof
  assume "w = u32 (r + N)"
  then show "ring_count r w = N"
    using proper by (intro ring_count_eqI) (simp_all add: u32_def zmod_int)
next
  assume "ring_count r w = N"
  then have "(int r + int N) mod 4294967296 = int w"
    using ring_count_end [of r w] assms by (simp add: ring_ok_def)
  then have "int (u32 (r + N)) = int w" by (simp add: u32_def zmod_int)
  then show "w = u32 (r + N)" by simp
qed

lemma empty:
  assumes "ring_ok N buf r w"
  shows "r = w \<longleftrightarrow> ring_content N buf r w = []"
  using assms ring_count_0 [of r w] by (auto simp: ring_ok_def simp flip: length_0_conv)

end

end
