(* ===== verification/Console.thy ===== *)
theory Console
  imports Inode Ring
begin

text \<open>
  The console: keyboard decoding (\<open>kbd.c\<close>, \<open>kbd.h\<close>), line editing, reading and writing
  (\<open>console.c\<close>), the formatted output of \<open>cprintf\<close>, the screen, the serial port (\<open>uart.c\<close>) and the
  interrupt controllers (\<open>picirq.c\<close>, \<open>ioapic.c\<close>). The screen is the array \<open>crt\<close> of 16-bit cells with
  the cursor register; what the serial port transmits is the list \<open>uart_out\<close>; output to other ports
  is the list \<open>ports\<close>. The time the polling loops wait is not part of the model.
\<close>

section \<open>State\<close>

definition INPUT_BUF :: nat where "INPUT_BUF = 128"
definition BACKSPACE :: nat where "BACKSPACE = 256"
definition CONSOLE :: nat where "CONSOLE = 1"

datatype devops = ConsoleDev

record cons_st = inode_st +
  cons_locking :: bool
  panicked :: bool
  crt :: "nat \<Rightarrow> nat"
  crt_pos :: nat
  uart :: bool
  uart_out :: "nat list"
  in_buf :: "byte list"
  in_r :: nat
  in_w :: nat
  in_e :: nat
  devsw :: "devops option list"
  kbd_shift :: nat
  irqmask :: nat
  ports :: "(nat \<times> nat) list"
  ismp :: bool
  ioapicid :: nat
  ioapic_reg :: "nat \<Rightarrow> nat"

section \<open>Formatted output\<close>

text \<open>The digits of \<open>x\<close>, least significant first: the \<open>do\<close> loop of \<open>printint\<close>.\<close>

function digits_rev :: "nat \<Rightarrow> nat \<Rightarrow> char list" where
  "digits_rev x base = ''0123456789abcdef'' ! (x mod base) # (if x div base \<noteq> 0 \<and> 2 \<le> base then digits_rev (x div base) base else [])"
  by pat_completeness auto
termination by (relation "measure fst") (auto intro!: div_less_dividend, metis div_0 gr0I neq0_conv)

declare digits_rev.simps [simp del]

definition printint :: "int \<Rightarrow> nat \<Rightarrow> bool \<Rightarrow> char list" where
  "printint xx base sign = (let neg = sign \<and> xx < 0; x = (if neg then u32_of (- xx) else u32_of xx) in
     rev (digits_rev x base @ (if neg then ''-'' else [])))"

text \<open>
  The characters \<open>cprintf\<close> sends to the console for a format and its arguments; \<open>None\<close> when the
  format asks for an argument that is not there or of another type.
\<close>

fun cprintf_text :: "char list \<Rightarrow> parg list \<Rightarrow> char list option" where
  "cprintf_text [] args = Some []"
| "cprintf_text (c # cs) args =
     (if c \<noteq> CHR ''%'' then map_option ((#) c) (cprintf_text cs args)
      else case cs of
        [] \<Rightarrow> Some []
      | d # ds \<Rightarrow>
          if d = CHR ''d'' then
            (case args of PInt i # as \<Rightarrow> map_option ((@) (printint i 10 True)) (cprintf_text ds as) | _ \<Rightarrow> None)
          else if d = CHR ''x'' \<or> d = CHR ''p'' then
            (case args of
               PInt i # as \<Rightarrow> map_option ((@) (printint i 16 False)) (cprintf_text ds as)
             | PPtr n # as \<Rightarrow> map_option ((@) (printint (s32 n) 16 False)) (cprintf_text ds as)
             | _ \<Rightarrow> None)
          else if d = CHR ''s'' then
            (case args of
               PStr s # as \<Rightarrow> map_option ((@) s) (cprintf_text ds as)
             | PPtr n # as \<Rightarrow> if n = 0 then map_option ((@) ''(null)'') (cprintf_text ds as) else None
             | _ \<Rightarrow> None)
          else if d = CHR ''%'' then map_option ((#) CHR ''%'') (cprintf_text ds args)
          else map_option ((@) [CHR ''%'', d]) (cprintf_text ds args))"

section \<open>Interrupt controllers\<close>

definition outb :: "nat \<Rightarrow> nat \<Rightarrow> ('z cons_st_scheme, unit) cmd" where
  "outb port v = modify (\<lambda>s. s\<lparr>ports := ports s @ [(port, v mod 256)]\<rparr>)"

definition IO_PIC1 :: nat where "IO_PIC1 = 0x20"
definition IO_PIC2 :: nat where "IO_PIC2 = 0xA0"
definition IRQ_SLAVE :: nat where "IRQ_SLAVE = 2"
definition T_IRQ0 :: nat where "T_IRQ0 = 32"
definition IRQ_TIMER :: nat where "IRQ_TIMER = 0"
definition IRQ_KBD :: nat where "IRQ_KBD = 1"
definition IRQ_COM1 :: nat where "IRQ_COM1 = 4"
definition IRQ_IDE :: nat where "IRQ_IDE = 14"
definition IRQ_ERROR :: nat where "IRQ_ERROR = 19"
definition IRQ_SPURIOUS :: nat where "IRQ_SPURIOUS = 31"

definition picsetmask :: "nat \<Rightarrow> ('z cons_st_scheme, unit) cmd" where
  "picsetmask m = run
     [modify (\<lambda>s. s\<lparr>irqmask := m\<rparr>),
      outb (IO_PIC1 + 1) m,
      outb (IO_PIC2 + 1) (m div 256)]"

definition picenable :: "nat \<Rightarrow> ('z cons_st_scheme, unit) cmd" where
  "picenable irq = withS (\<lambda>s. picsetmask (unset_bit irq (irqmask s)))"

definition picinit :: "('z cons_st_scheme, unit) cmd" where
  "picinit = run
     [outb (IO_PIC1 + 1) 0xFF,
      outb (IO_PIC2 + 1) 0xFF,
      outb IO_PIC1 0x11,
      outb (IO_PIC1 + 1) T_IRQ0,
      outb (IO_PIC1 + 1) (2 ^ IRQ_SLAVE),
      outb (IO_PIC1 + 1) 0x3,
      outb IO_PIC2 0x11,
      outb (IO_PIC2 + 1) (T_IRQ0 + 8),
      outb (IO_PIC2 + 1) IRQ_SLAVE,
      outb (IO_PIC2 + 1) 0x3,
      outb IO_PIC1 0x68,
      outb IO_PIC1 0x0a,
      outb IO_PIC2 0x68,
      outb IO_PIC2 0x0a,
      withS (\<lambda>s. if irqmask s \<noteq> 0xFFFF then picsetmask (irqmask s) else skip)]"

definition REG_ID :: nat where "REG_ID = 0"
definition REG_VER :: nat where "REG_VER = 1"
definition REG_TABLE :: nat where "REG_TABLE = 0x10"
definition INT_DISABLED :: nat where "INT_DISABLED = 0x00010000"

definition ioapicread :: "nat \<Rightarrow> 'z cons_st_scheme \<Rightarrow> nat" where
  "ioapicread reg s = ioapic_reg s reg"

definition ioapicwrite :: "nat \<Rightarrow> nat \<Rightarrow> ('z cons_st_scheme, unit) cmd" where
  "ioapicwrite reg d = modify (\<lambda>s. s\<lparr>ioapic_reg := (ioapic_reg s)(reg := d)\<rparr>)"

definition ioapicinit :: "('z cons_st_scheme, unit) cmd" where
  "ioapicinit = whenM ismp (withS (\<lambda>s.
     let maxintr = ioapicread REG_VER s div 2 ^ 16 mod 256; ident = ioapicread REG_ID s div 2 ^ 24 in run
       [if ident \<noteq> ioapicid s then cprintf ''ioapicinit: id isn't equal to ioapicid; not a MP\<newline>'' [] else skip,
        forM [0..<maxintr + 1] (\<lambda>i. run
          [ioapicwrite (REG_TABLE + 2 * i) (or INT_DISABLED (T_IRQ0 + i)),
           ioapicwrite (REG_TABLE + 2 * i + 1) 0])]))"

definition ioapicenable :: "nat \<Rightarrow> nat \<Rightarrow> ('z cons_st_scheme, unit) cmd" where
  "ioapicenable irq cpunum = whenM ismp (run
     [ioapicwrite (REG_TABLE + 2 * irq) (T_IRQ0 + irq),
      ioapicwrite (REG_TABLE + 2 * irq + 1) (u32 (cpunum * 2 ^ 24))])"

section \<open>The serial port and the screen\<close>

definition COM1 :: nat where "COM1 = 0x3f8"

definition uartputc :: "nat \<Rightarrow> ('z cons_st_scheme, unit) cmd" where
  "uartputc c = whenM uart (modify (\<lambda>s. s\<lparr>uart_out := uart_out s @ [c mod 256]\<rparr>))"

text \<open>\<open>uartinit\<close>, for a machine that answers \<open>status\<close> on the line status port.\<close>

definition uartinit :: "nat \<Rightarrow> ('z cons_st_scheme, unit) cmd" where
  "uartinit status = run
     [outb (COM1 + 2) 0,
      outb (COM1 + 3) 0x80,
      outb (COM1 + 0) (115200 div 9600),
      outb (COM1 + 1) 0,
      outb (COM1 + 3) 0x03,
      outb (COM1 + 4) 0,
      outb (COM1 + 1) 0x01,
      if status = 0xFF then skip else run
        [modify (\<lambda>s. s\<lparr>uart := True\<rparr>),
         picenable IRQ_COM1,
         ioapicenable IRQ_COM1 0,
         forM (map of_char ''xv6...'' @ [10]) uartputc]]"

text \<open>One step of the screen: the cell written, the cursor, and the scrolling of the top 24 rows.\<close>

definition cga_advance :: "nat \<Rightarrow> (nat \<Rightarrow> nat) \<times> nat \<Rightarrow> (nat \<Rightarrow> nat) \<times> nat" where
  "cga_advance c = (\<lambda>(m, pos).
     if c = 10 then (m, pos + (80 - pos mod 80))
     else if c = BACKSPACE then (m, if pos > 0 then pos - 1 else pos)
     else (m(pos := or (c mod 256) 0x0700), pos + 1))"

definition cga_scroll :: "(nat \<Rightarrow> nat) \<times> nat \<Rightarrow> (nat \<Rightarrow> nat) \<times> nat" where
  "cga_scroll = (\<lambda>(m, pos).
     if pos div 80 \<ge> 24 then
       (let m1 = (\<lambda>i. if i < 23 * 80 then m (i + 80) else m i); pos1 = pos - 80;
            m2 = (\<lambda>i. if pos1 \<le> i \<and> i < 24 * 80 then 0 else m1 i)
        in (m2, pos1))
     else (m, pos))"

definition cgaputc :: "nat \<Rightarrow> ('z cons_st_scheme, unit) cmd" where
  "cgaputc c = bnd (gets (\<lambda>s. cga_advance c (crt s, crt_pos s))) (\<lambda>(m, pos).
     bnd (modify (\<lambda>s. s\<lparr>crt := m\<rparr>)) (\<lambda>_.
     if pos > 25 * 80 then panic ''pos under/overflow'' else
     (let (m', pos') = cga_scroll (m, pos) in
      modify (\<lambda>s. s\<lparr>crt_pos := pos', crt := m'(pos' := or 32 0x0700)\<rparr>))))"

definition consputc :: "nat \<Rightarrow> ('z cons_st_scheme, unit) cmd" where
  "consputc c = run
     [whenM panicked (run [cli, stop_with Spin]),
      if c = BACKSPACE then run [uartputc 8, uartputc 32, uartputc 8] else uartputc c,
      cgaputc c]"

section \<open>The keyboard\<close>

definition SHIFT :: nat where "SHIFT = 1"
definition CTL :: nat where "CTL = 2"
definition ALT :: nat where "ALT = 4"
definition CAPSLOCK :: nat where "CAPSLOCK = 8"
definition NUMLOCK :: nat where "NUMLOCK = 16"
definition SCROLLLOCK :: nat where "SCROLLLOCK = 32"
definition E0ESC :: nat where "E0ESC = 64"

definition shiftcode :: "nat \<Rightarrow> nat" where
  "shiftcode d = (if d = 0x1D \<or> d = 0x9D then CTL else if d = 0x2A \<or> d = 0x36 then SHIFT
     else if d = 0x38 \<or> d = 0xB8 then ALT else 0)"

definition togglecode :: "nat \<Rightarrow> nat" where
  "togglecode d = (if d = 0x3A then CAPSLOCK else if d = 0x45 then NUMLOCK else if d = 0x46 then SCROLLLOCK else 0)"

definition KEY_HOME :: nat where "KEY_HOME = 0xE0"
definition KEY_END :: nat where "KEY_END = 0xE1"
definition KEY_UP :: nat where "KEY_UP = 0xE2"
definition KEY_DN :: nat where "KEY_DN = 0xE3"
definition KEY_LF :: nat where "KEY_LF = 0xE4"
definition KEY_RT :: nat where "KEY_RT = 0xE5"
definition KEY_PGUP :: nat where "KEY_PGUP = 0xE6"
definition KEY_PGDN :: nat where "KEY_PGDN = 0xE7"
definition KEY_INS :: nat where "KEY_INS = 0xE8"
definition KEY_DEL :: nat where "KEY_DEL = 0xE9"

text \<open>The entries of the three maps from \<open>0x80\<close> on differ only for the keypad's Enter and Divide.\<close>

definition key_ext :: "nat \<Rightarrow> nat \<Rightarrow> nat \<Rightarrow> nat" where
  "key_ext enter slash d = (if d = 0x9C then enter else if d = 0xB5 then slash
     else if d = 0xC8 then KEY_UP else if d = 0xD0 then KEY_DN else if d = 0xC9 then KEY_PGUP else if d = 0xD1 then KEY_PGDN
     else if d = 0xCB then KEY_LF else if d = 0xCD then KEY_RT else if d = 0x97 then KEY_HOME else if d = 0xCF then KEY_END
     else if d = 0xD2 then KEY_INS else if d = 0xD3 then KEY_DEL else 0)"

definition normalmap :: "nat \<Rightarrow> nat" where
  "normalmap d = (let t = [0, 27, 49, 50, 51, 52, 53, 54,  55, 56, 57, 48, 45, 61, 8, 9,
       113, 119, 101, 114, 116, 121, 117, 105,  111, 112, 91, 93, 10, 0, 97, 115,
       100, 102, 103, 104, 106, 107, 108, 59,  39, 96, 0, 92, 122, 120, 99, 118,
       98, 110, 109, 44, 46, 47, 0, 42,  0, 32, 0, 0, 0, 0, 0, 0,
       0, 0, 0, 0, 0, 0, 0, 55,  56, 57, 45, 52, 53, 54, 43, 49,  50, 51, 48, 46, 0, 0, 0, 0]
     in if d < length t then t ! d else key_ext 10 47 d)"

definition shiftmap :: "nat \<Rightarrow> nat" where
  "shiftmap d = (let t = [0, 27, 33, 64, 35, 36, 37, 94,  38, 42, 40, 41, 95, 43, 8, 9,
       81, 87, 69, 82, 84, 89, 85, 73,  79, 80, 123, 125, 10, 0, 65, 83,
       68, 70, 71, 72, 74, 75, 76, 58,  34, 126, 0, 124, 90, 88, 67, 86,
       66, 78, 77, 60, 62, 63, 0, 42,  0, 32, 0, 0, 0, 0, 0, 0,
       0, 0, 0, 0, 0, 0, 0, 55,  56, 57, 45, 52, 53, 54, 43, 49,  50, 51, 48, 46, 0, 0, 0, 0]
     in if d < length t then t ! d else key_ext 10 47 d)"

definition ctlmap :: "nat \<Rightarrow> nat" where
  "ctlmap d = (let t = [0, 0, 0, 0, 0, 0, 0, 0,  0, 0, 0, 0, 0, 0, 0, 0,
       17, 23, 5, 18, 20, 25, 21, 9,  15, 16, 0, 0, 13, 0, 1, 19,
       4, 6, 7, 8, 10, 11, 12, 0,  0, 0, 0, 28, 26, 24, 3, 22,
       2, 14, 13, 0, 0, 239, 0, 0]
     in if d < length t then t ! d else key_ext 13 239 d)"

text \<open>
  \<open>kbdgetc\<close> on what the controller offers: \<open>None\<close> when no byte is waiting, and the scan code otherwise.
\<close>

definition kbdgetc :: "nat option \<Rightarrow> nat \<Rightarrow> int \<times> nat" where
  "kbdgetc st shift = (case st of None \<Rightarrow> (-1, shift) | Some data \<Rightarrow>
     if data = 0xE0 then (0, or shift E0ESC)
     else if data \<ge> 0x80 then
       (let data' = (if and shift E0ESC \<noteq> 0 then data else data - 0x80)
        in (0, and shift (255 - or (shiftcode data') E0ESC)))
     else
       (let esc = and shift E0ESC \<noteq> 0;
            data' = (if esc then data + 0x80 else data);
            shift1 = (if esc then shift - E0ESC else shift);
            shift2 = xor (or shift1 (shiftcode data')) (togglecode data');
            c = (if and shift2 (or CTL SHIFT) = 0 then normalmap data'
                 else if and shift2 (or CTL SHIFT) = SHIFT then shiftmap data' else ctlmap data');
            c' = (if and shift2 CAPSLOCK \<noteq> 0 then
                    (if 97 \<le> c \<and> c \<le> 122 then c - 32 else if 65 \<le> c \<and> c \<le> 90 then c + 32 else c)
                  else c)
        in (int c', shift2)))"

section \<open>Console input\<close>

definition idx :: "nat \<Rightarrow> nat" where
  "idx i = i mod INPUT_BUF"

text \<open>The loop of Control-U; the argument is the number of characters between \<open>input.w\<close> and \<open>input.e\<close>.\<close>

primrec kill_line :: "nat \<Rightarrow> ('z cons_st_scheme, unit) cmd" where
  "kill_line 0 = skip"
| "kill_line (Suc k) = whenM (\<lambda>s. in_buf s ! idx (u32_of (int (in_e s) - 1)) \<noteq> 10) (run
     [modify (\<lambda>s. s\<lparr>in_e := u32_of (int (in_e s) - 1)\<rparr>), consputc BACKSPACE, kill_line k])"

definition cons_default :: "int \<Rightarrow> ('z cons_st_scheme, unit) cmd" where
  "cons_default c0 = withS (\<lambda>s.
     if c0 \<noteq> 0 \<and> u32_of (int (in_e s) - int (in_r s)) < INPUT_BUF then
       (let c = (if c0 = 13 then 10 else c0) in run
         [modify (\<lambda>s. s\<lparr>in_buf := (in_buf s)[idx (in_e s) := word_of_int c], in_e := u32 (in_e s + 1)\<rparr>),
          consputc (nat c),
          withS (\<lambda>s. if c = 10 \<or> c = 4 \<or> in_e s = u32 (in_r s + INPUT_BUF) then run
            [modify (\<lambda>s. s\<lparr>in_w := in_e s\<rparr>), wakeup (Some ChInput)] else skip)])
     else skip)"

definition cons_char :: "int \<Rightarrow> ('z cons_st_scheme, unit) cmd" where
  "cons_char c =
     (if c = 16 then skip
      else if c = 21 then withS (\<lambda>s. kill_line (u32_of (int (in_e s) - int (in_w s))))
      else if c = 8 \<or> c = 127 then
        whenM (\<lambda>s. in_e s \<noteq> in_w s)
          (run [modify (\<lambda>s. s\<lparr>in_e := u32_of (int (in_e s) - 1)\<rparr>), consputc BACKSPACE])
      else cons_default c)"

text \<open>\<open>consoleintr\<close> on the characters \<open>getc\<close> returns before the first negative result.\<close>

definition consoleintr :: "int list \<Rightarrow> ('z cons_st_scheme, unit) cmd" where
  "consoleintr cs = run
     [acquire LCons,
      forM cs cons_char,
      release LCons,
      if 16 \<in> set cs then procdump else skip]"

text \<open>\<open>kbdintr\<close>: the controller offers the scan codes \<open>codes\<close> one after the other.\<close>

primrec kbd_chars :: "nat list \<Rightarrow> nat \<Rightarrow> int list \<times> nat" where
  "kbd_chars [] shift = ([], shift)"
| "kbd_chars (d # ds) shift = (let (c, shift') = kbdgetc (Some d) shift; (cs, shift'') = kbd_chars ds shift' in (c # cs, shift''))"

definition kbdintr :: "nat list \<Rightarrow> ('z cons_st_scheme, unit) cmd" where
  "kbdintr codes = withS (\<lambda>s. let (cs, sh) = kbd_chars codes (kbd_shift s) in run
     [modify (\<lambda>s. s\<lparr>kbd_shift := sh\<rparr>), consoleintr cs])"

definition uartintr :: "nat list \<Rightarrow> ('z cons_st_scheme, unit) cmd" where
  "uartintr bytes = withS (\<lambda>s. consoleintr (if uart s then map int bytes else []))"

text \<open>A \<open>sleep\<close> in the middle of a loop: when it returns, the loop goes on in the \<open>_return\<close> definition.\<close>

definition sleep_in_loop :: "chan \<Rightarrow> lockid \<Rightarrow> ('z ptable_st_scheme, 'a) cmd" where
  "sleep_in_loop ch lk = bnd (sleep (Some ch) (Some lk)) (\<lambda>_. stop_with Switch)"

text \<open>
  \<open>consoleread\<close> returns its result together with the bytes it stores at \<open>dst\<close>. \<open>got\<close> are the bytes
  stored so far, \<open>n\<close> the bytes still wanted.
\<close>

definition consoleread_done :: "nat \<Rightarrow> byte list \<Rightarrow> ('z cons_st_scheme, int \<times> byte list) cmd" where
  "consoleread_done ip bs = andthen [release LCons, ilock ip] (ret (int (length bs), bs))"

primrec consoleread_loop :: "nat \<Rightarrow> nat \<Rightarrow> byte list \<Rightarrow> ('z cons_st_scheme, int \<times> byte list) cmd" where
  "consoleread_loop ip 0 bs = consoleread_done ip bs"
| "consoleread_loop ip (Suc n) bs = withS (\<lambda>s.
     if in_r s = in_w s then
       with_proc (\<lambda>p. if p_killed (procs s ! p) then andthen [release LCons, ilock ip] (ret (-1, bs))
         else sleep_in_loop ChInput LCons)
     else (let c = in_buf s ! idx (in_r s) in
       bnd (modify (\<lambda>s. s\<lparr>in_r := u32 (in_r s + 1)\<rparr>)) (\<lambda>_.
       if c = 4 then
         bnd (if bs \<noteq> [] then modify (\<lambda>s. s\<lparr>in_r := u32_of (int (in_r s) - 1)\<rparr>) else skip)
           (\<lambda>_. consoleread_done ip bs)
       else if c = 10 then consoleread_done ip (bs @ [c])
       else consoleread_loop ip n (bs @ [c]))))"

definition consoleread :: "nat \<Rightarrow> int \<Rightarrow> ('z cons_st_scheme, int \<times> byte list) cmd" where
  "consoleread ip n = andthen [iunlock ip, acquire LCons] (consoleread_loop ip (nat n) [])"

definition consoleread_return :: "nat \<Rightarrow> nat \<Rightarrow> byte list \<Rightarrow> nat \<Rightarrow> ('z cons_st_scheme, int \<times> byte list) cmd" where
  "consoleread_return ip n bs intena = andthen [sleep_return LCons intena] (consoleread_loop ip n bs)"

definition consolewrite :: "nat \<Rightarrow> byte list \<Rightarrow> ('z cons_st_scheme, int) cmd" where
  "consolewrite ip bs = andthen
     [iunlock ip,
      acquire LCons,
      forM bs (\<lambda>b. consputc (unat b)),
      release LCons,
      ilock ip]
     (ret (int (length bs)))"

definition consoleinit :: "('z cons_st_scheme, unit) cmd" where
  "consoleinit = run
     [initlock LCons ''console'',
      modify (\<lambda>s. s\<lparr>devsw := (devsw s)[CONSOLE := Some ConsoleDev]\<rparr>),
      modify (\<lambda>s. s\<lparr>cons_locking := True\<rparr>),
      picenable IRQ_KBD,
      ioapicenable IRQ_KBD 0]"


section \<open>Numbers on the console\<close>

definition digit_val :: "char \<Rightarrow> nat" where
  "digit_val c = (case first_idx (\<lambda>d. d = c) ''0123456789abcdef'' of None \<Rightarrow> 0 | Some i \<Rightarrow> i)"

text \<open>What a reader makes of a printed number: an optional sign and digits, most significant first.\<close>

definition digits_val :: "nat \<Rightarrow> char list \<Rightarrow> nat" where
  "digits_val base cs = foldl (\<lambda>a c. a * base + digit_val c) 0 cs"

definition read_number :: "nat \<Rightarrow> char list \<Rightarrow> int" where
  "read_number base cs = (case cs of
     c # ds \<Rightarrow> if c = CHR ''-'' then - int (digits_val base ds) else int (digits_val base cs)
   | [] \<Rightarrow> 0)"

lemma digit_table:
  assumes "i < 16"
  shows "digit_val (''0123456789abcdef'' ! i) = i" "''0123456789abcdef'' ! i \<noteq> CHR ''-''"
proof -
  have "list_all (\<lambda>i. digit_val (''0123456789abcdef'' ! i) = i \<and> ''0123456789abcdef'' ! i \<noteq> CHR ''-'') [0..<16]"
    by code_simp
  then show "digit_val (''0123456789abcdef'' ! i) = i" "''0123456789abcdef'' ! i \<noteq> CHR ''-''"
    using assms by (simp_all add: list_all_iff)
qed

lemma digits_val_append [simp]: "digits_val base (cs @ [c]) = digits_val base cs * base + digit_val c"
  by (simp add: digits_val_def)

lemma digits_rev_val: "2 \<le> base \<Longrightarrow> base \<le> 16 \<Longrightarrow> digits_val base (rev (digits_rev x base)) = x"
proof (induction x base rule: digits_rev.induct)
  case (1 x base)
  have "digit_val (''0123456789abcdef'' ! (x mod base)) = x mod base"
    using "1.prems" by (intro digit_table(1)) (auto intro: less_le_trans [OF mod_less_divisor])
  then show ?case
    using "1.IH" "1.prems" by (subst digits_rev.simps) (auto simp: digits_val_def div_eq_0_iff)
qed

lemma digits_rev_no_sign: "2 \<le> base \<Longrightarrow> base \<le> 16 \<Longrightarrow> CHR ''-'' \<notin> set (digits_rev x base)"
proof (induction x base rule: digits_rev.induct)
  case (1 x base)
  have "''0123456789abcdef'' ! (x mod base) \<noteq> CHR ''-''"
    using "1.prems" by (intro digit_table(2)) (auto intro: less_le_trans [OF mod_less_divisor])
  then show ?case
    using "1.IH" "1.prems" by (subst digits_rev.simps) auto
qed

lemma digits_rev_length: "2 \<le> base \<Longrightarrow> x < base ^ Suc k \<Longrightarrow> length (digits_rev x base) \<le> Suc k"
proof (induction k arbitrary: x)
  case 0
  then show ?case by (subst digits_rev.simps) simp
next
  case (Suc k)
  have "x div base < base ^ Suc k" using Suc.prems by (simp add: less_mult_imp_div_less mult.commute)
  then show ?case using Suc by (subst digits_rev.simps) simp
qed

lemma digits_rev_ne: "digits_rev x base \<noteq> []"
  by (subst digits_rev.simps) simp

lemma read_digits:
  assumes "2 \<le> base" "base \<le> 16"
  shows "read_number base (rev (digits_rev x base)) = int x"
    and "read_number base (CHR ''-'' # rev (digits_rev x base)) = - int x"
proof -
  obtain c ds where c: "rev (digits_rev x base) = c # ds"
    using digits_rev_ne [of x base] by (metis neq_Nil_conv rev_is_Nil_conv)
  then have "c \<noteq> CHR ''-''" using digits_rev_no_sign [OF assms, of x] by (metis list.set_intros(1) set_rev)
  then show "read_number base (rev (digits_rev x base)) = int x"
    using digits_rev_val [OF assms, of x] c by (simp add: read_number_def)
  show "read_number base (CHR ''-'' # rev (digits_rev x base)) = - int x"
    using digits_rev_val [OF assms, of x] by (simp add: read_number_def)
qed

lemma printint_length:
  assumes "10 \<le> base"
  shows "length (printint xx base sign) \<le> 11"
proof -
  have "u32_of i < base ^ Suc 9" for i
  proof -
    have "u32_of i < 10 ^ 10" using u32_of_less [of i] by (rule less_le_trans) simp
    also have "\<dots> \<le> base ^ 10" using assms by (rule power_mono) simp
    finally show ?thesis by simp
  qed
  then have "length (digits_rev (u32_of i) base) \<le> 10" for i
    using digits_rev_length [of base "u32_of i" 9] assms by simp
  from this [of xx] this [of "- xx"] show ?thesis by (auto simp: printint_def Let_def)
qed

text \<open>C38. A number printed with \<open>%d\<close> reads back as the number, for every \<open>int\<close> including the smallest, whose negation wraps
  around; one printed with
  \<open>%x\<close> or \<open>%p\<close> reads back as the unsigned 32-bit value of the argument; and the digits and the sign fit
  the 16 bytes of the buffer of \<open>printint\<close>.\<close>

theorem printint_reads_back:
  assumes "- 2147483648 \<le> xx" "xx < 2147483648"
  shows "read_number 10 (printint xx 10 True) = xx \<and> read_number 16 (printint xx 16 False) = int (u32_of xx) \<and>
    length (printint xx 10 True) \<le> 11 \<and> length (printint xx 16 False) \<le> 11"
proof -
  have "int (u32_of (- xx)) = - xx" if "xx < 0" using that assms by (simp add: u32_of_def)
  moreover have "int (u32_of xx) = xx" if "\<not> xx < 0" using that assms by (simp add: u32_of_def)
  ultimately have "read_number 10 (printint xx 10 True) = xx"
    by (simp add: printint_def Let_def read_digits)
  moreover have "read_number 16 (printint xx 16 False) = int (u32_of xx)"
    by (simp add: printint_def Let_def read_digits)
  ultimately show ?thesis using printint_length [of 10 xx True] printint_length [of 16 xx False] by simp
qed

theorem printint_reads_back_witness:
  "printint (-2147483648) 10 True = ''-2147483648'' \<and> read_number 10 ''-2147483648'' = -2147483648"
proof -
  have "printint (-2147483648) 10 True = ''-2147483648''"
    by (simp add: printint_def u32_of_def digits_rev.simps)
  then show ?thesis using printint_reads_back [of "-2147483648"] by simp
qed

section \<open>The keyboard decoder\<close>


lemma e0_bit: "and x E0ESC \<noteq> 0 \<longleftrightarrow> bit x 6" "0 < and x E0ESC \<longleftrightarrow> bit x 6"
  using and_exp_eq_0_iff_not_bit [of x 6] by (auto simp: E0ESC_def)

lemma less_128: "x < 128 \<longleftrightarrow> take_bit 7 x = (x :: nat)"
  by (simp add: take_bit_nat_eq_self_iff)

lemma shiftcode_cases: "shiftcode d \<in> {0, 1, 2, 4}"
  by (simp add: shiftcode_def CTL_def SHIFT_def ALT_def)

lemma togglecode_cases: "togglecode d \<in> {0, 8, 16, 32}"
  by (simp add: togglecode_def CAPSLOCK_def NUMLOCK_def SCROLLLOCK_def)

lemma release_mask: "\<not> bit (255 - or (shiftcode d) E0ESC) 6"
  using shiftcode_cases [of d] by (auto simp: E0ESC_def)

lemma clear_e0:
  assumes "shift < 128" "bit shift 6"
  shows "shift - E0ESC < 64" "\<not> bit (shift - E0ESC) 6"
  using assms by (auto simp: E0ESC_def bit_iff_odd div_less)

lemma press_shift:
  assumes "sh < 128" "\<not> bit sh 6"
  shows "xor (or sh (shiftcode d)) (togglecode d) < 128" "\<not> bit (xor (or sh (shiftcode d)) (togglecode d)) 6"
proof -
  have c: "shiftcode d < 128" "togglecode d < 128" "\<not> bit (shiftcode d) 6" "\<not> bit (togglecode d) 6"
    using shiftcode_cases [of d] togglecode_cases [of d] by auto
  then show "xor (or sh (shiftcode d)) (togglecode d) < 128" using assms by (simp add: less_128)
  show "\<not> bit (xor (or sh (shiftcode d)) (togglecode d)) 6" using assms c by (simp add: bit_simps)
qed

section \<open>The screen\<close>

text \<open>Where the console output may go: the state but for the screen, the cursor and the serial port.\<close>

definition displayed :: "'z cons_st_scheme \<Rightarrow> 'z cons_st_scheme \<Rightarrow> bool" where
  "displayed s t \<longleftrightarrow> (\<exists>m pos out. t = s\<lparr>crt := m, crt_pos := pos, uart_out := out\<rparr> \<and> pos < 1920 \<and>
     (\<forall>i\<ge>1920. m i = crt s i))"

lemma displayed_refl: "crt_pos s < 1920 \<Longrightarrow> displayed s s"
  by (auto simp: displayed_def intro!: exI [of _ "crt s"] exI [of _ "crt_pos s"] exI [of _ "uart_out s"])

lemma displayed_trans: "displayed s t \<Longrightarrow> displayed t u \<Longrightarrow> displayed s u"
  by (clarsimp simp: displayed_def) (intro exI conjI, rule refl, auto)

lemma uartputc_run: "\<exists>out. uartputc c s = Ok () (s\<lparr>uart_out := out\<rparr>)"
  by (cases "uart s") (auto simp: uartputc_def exec_simps intro: exI [of _ "uart_out s"])

lemma cga_advance_pos:
  assumes "pos < 1920" "cga_advance c (m, pos) = (m', pos')"
  shows "pos' \<le> 1920" "\<forall>i\<ge>1920. m' i = m i"
proof -
  have "pos + (80 - pos mod 80) \<le> 1920"
  proof -
    have "pos div 80 < 24" using assms(1) by (simp add: div_less_iff_less_mult)
    moreover have "pos + (80 - pos mod 80) = 80 * (pos div 80) + 80"
      using div_mult_mod_eq [of pos 80] mod_less_divisor [of 80 pos] by linarith
    ultimately show ?thesis by linarith
  qed
  then show "pos' \<le> 1920" "\<forall>i\<ge>1920. m' i = m i"
    using assms by (auto simp: cga_advance_def split: if_splits)
qed

lemma cga_scroll_pos:
  assumes "pos \<le> 1920" "cga_scroll (m, pos) = (m', pos')"
  shows "pos' < 1920" "\<forall>i\<ge>1920. m' i = m i"
  using assms by (auto simp: cga_scroll_def Let_def split: if_splits)

lemma cgaputc_run:
  assumes "crt_pos s < 1920"
  shows "\<exists>m pos. cgaputc c s = Ok () (s\<lparr>crt := m, crt_pos := pos\<rparr>) \<and> pos < 1920 \<and> (\<forall>i\<ge>1920. m i = crt s i) \<and> m pos = 0x0720"
proof -
  obtain m1 p1 where a: "cga_advance c (crt s, crt_pos s) = (m1, p1)" by fastforce
  obtain m2 p2 where b: "cga_scroll (m1, p1) = (m2, p2)" by fastforce
  note pa = cga_advance_pos [OF assms a] and pb = cga_scroll_pos [OF _ b]
  have "(\<lambda>(m, pos). bnd (modify (\<lambda>s. s\<lparr>crt := m\<rparr>)) (\<lambda>_.
     if pos > 25 * 80 then panic ''pos under/overflow'' else
     (let (m', pos') = cga_scroll (m, pos) in
      modify (\<lambda>s. s\<lparr>crt_pos := pos', crt := m'(pos' := or 32 0x0700)\<rparr>)))) (m1, p1) s =
    Ok () (s\<lparr>crt := m2(p2 := 0x0720), crt_pos := p2\<rparr>)"
    using pa(1) by (simp add: exec_simps b)
  then have "cgaputc c s = Ok () (s\<lparr>crt := m2(p2 := 0x0720), crt_pos := p2\<rparr>)"
    by (simp add: cgaputc_def exec_simps a)
  then show ?thesis using pa pb by (auto intro!: exI [of _ "m2(p2 := 0x0720)"] exI [of _ p2])
qed

lemma consputc_run:
  assumes "\<not> panicked s" "crt_pos s < 1920"
  shows "\<exists>t. consputc c s = Ok () t \<and> displayed s t \<and> crt t (crt_pos t) = 0x0720"
proof -
  obtain out where o1: "(if c = BACKSPACE then run [uartputc 8, uartputc 32, uartputc 8] else uartputc c) s = Ok () (s\<lparr>uart_out := out\<rparr>)"
  proof (cases "c = BACKSPACE")
    case True
    obtain a where a: "uartputc 8 s = Ok () (s\<lparr>uart_out := a\<rparr>)" using uartputc_run by blast
    obtain b where b: "uartputc 32 (s\<lparr>uart_out := a\<rparr>) = Ok () (s\<lparr>uart_out := b\<rparr>)" using uartputc_run [of 32 "s\<lparr>uart_out := a\<rparr>"] by auto
    obtain d where d: "uartputc 8 (s\<lparr>uart_out := b\<rparr>) = Ok () (s\<lparr>uart_out := d\<rparr>)" using uartputc_run [of 8 "s\<lparr>uart_out := b\<rparr>"] by auto
    show ?thesis using that [of d] True by (simp add: exec_simps a b d)
  next
    case False
    then show ?thesis using that uartputc_run [of c s] by auto
  qed
  obtain m pos where m: "cgaputc c (s\<lparr>uart_out := out\<rparr>) = Ok () (s\<lparr>uart_out := out, crt := m, crt_pos := pos\<rparr>)"
    "pos < 1920" "\<forall>i\<ge>1920. m i = crt s i" "m pos = 0x0720"
    using cgaputc_run [of "s\<lparr>uart_out := out\<rparr>" c] assms(2) by auto
  have "consputc c s = Ok () (s\<lparr>crt := m, crt_pos := pos, uart_out := out\<rparr>)"
    using assms(1) o1 m(1) by (simp add: consputc_def exec_simps)
  then show ?thesis using m by (auto simp: displayed_def)
qed

lemma consputc_all:
  assumes "\<not> panicked s" "crt_pos s < 1920"
  shows "\<exists>t. forM cs consputc s = Ok () t \<and> displayed s t \<and> (cs \<noteq> [] \<longrightarrow> crt t (crt_pos t) = 0x0720)"
  using assms
proof (induction cs arbitrary: s)
  case Nil
  then show ?case by (simp add: exec_simps displayed_refl)
next
  case (Cons c cs)
  obtain t where t: "consputc c s = Ok () t" "displayed s t" "crt t (crt_pos t) = 0x0720"
    using consputc_run [OF Cons.prems] by blast
  then have "\<not> panicked t" "crt_pos t < 1920" using Cons.prems by (auto simp: displayed_def)
  from Cons.IH [OF this] obtain u where u: "forM cs consputc t = Ok () u" "displayed t u"
    "cs \<noteq> [] \<longrightarrow> crt u (crt_pos u) = 0x0720" by blast
  have "crt u (crt_pos u) = 0x0720" using u t(3) by (cases "cs = []") (auto simp: exec_simps)
  then show ?case using t u displayed_trans [OF t(2) u(2)] by (simp add: exec_simps)
qed

text \<open>C37. While the kernel has not panicked and the cursor is in the 24 rows of the screen, every sequence of characters
  is printed: no call panics, the cursor stays in these rows on a blank cell, and nothing outside the screen is written.\<close>

theorem screen_invariant:
  assumes "\<not> panicked s" "crt_pos s < 24 * 80"
  shows "\<exists>t. forM cs consputc s = Ok () t \<and> \<not> panicked t \<and> crt_pos t < 24 * 80 \<and>
    (cs \<noteq> [] \<longrightarrow> crt t (crt_pos t) = 0x0720) \<and> (\<forall>i\<ge>24 * 80. crt t i = crt s i) \<and>
    t = s\<lparr>crt := crt t, crt_pos := crt_pos t, uart_out := uart_out t\<rparr>"
  using consputc_all [of s cs] assms by (auto simp: displayed_def)

text \<open>The machine of the witnesses: freshly booted, with an empty screen and an empty input buffer.\<close>

definition cons0 :: cons_st where
  "cons0 = inode_st.extend
     (balloc_st.extend (log_boot (balloc_st.fields sb0)) (inode_st.fields []))
     (cons_st.fields True False (\<lambda>_. 0) 0 True [] (replicate INPUT_BUF 0) 0 0 0 (replicate NDEV None) 0 0xFFFF [] False 0 (\<lambda>_. 0))"

lemmas cons0_defs = cons0_def inode_st.defs balloc_st.defs cons_st.defs log_boot_def

lemma cons0_fields [simp]:
  "crt cons0 = (\<lambda>_. 0)" "crt_pos cons0 = 0" "\<not> panicked cons0" "uart cons0" "in_buf cons0 = replicate INPUT_BUF 0"
  "in_r cons0 = 0" "in_w cons0 = 0" "in_e cons0 = 0"
  by (simp_all add: cons0_defs)

lemma quiet_cons0: "quiet cons0 1"
  using quiet_boot [of "()"] by (simp add: quiet_def table_ok_def on_cpu_def the_cpu_def cons0_defs)

theorem screen_invariant_witness:
  "\<exists>t. forM [104, 10, BACKSPACE] consputc cons0 = Ok () t \<and> \<not> panicked t \<and> crt_pos t < 24 * 80 \<and>
    crt t (crt_pos t) = 0x0720"
  using screen_invariant [of cons0 "[104, 10, BACKSPACE]"] by auto

section \<open>The input line\<close>

interpretation input_ring: ring_buffer INPUT_BUF
  by unfold_locales (simp_all add: INPUT_BUF_def)

text \<open>
  What the ring holds: the characters that a reader may take, and the line being edited. \<open>in_ok\<close>
  is the invariant of the three indices; no newline waits in the line being edited.
\<close>

definition in_done :: "'z cons_st_scheme \<Rightarrow> byte list" where
  "in_done s = ring_content INPUT_BUF (in_buf s) (in_r s) (in_w s)"

definition in_line :: "'z cons_st_scheme \<Rightarrow> byte list" where
  "in_line s = ring_content INPUT_BUF (in_buf s) (in_w s) (in_e s)"

definition in_ok :: "'z cons_st_scheme \<Rightarrow> bool" where
  "in_ok s \<longleftrightarrow> ring_ok INPUT_BUF (in_buf s) (in_r s) (in_e s) \<and> in_w s < 4294967296 \<and>
     ring_count (in_r s) (in_w s) + ring_count (in_w s) (in_e s) = ring_count (in_r s) (in_e s) \<and> 10 \<notin> set (in_line s)"

text \<open>The line discipline: what one character does to the finished input and to the line.\<close>

definition edit_char :: "int \<Rightarrow> byte list \<times> byte list \<Rightarrow> byte list \<times> byte list" where
  "edit_char c = (\<lambda>(done, line).
     if c = 16 then (done, line)
     else if c = 21 then (done, [])
     else if c = 8 \<or> c = 127 then (done, butlast line)
     else if c \<noteq> 0 \<and> length done + length line < INPUT_BUF then
       (let line' = line @ [if c = 13 then 10 else word_of_int c] in
        if c = 13 \<or> c = 10 \<or> c = 4 \<or> length done + length line' = INPUT_BUF then (done @ line', []) else (done, line'))
     else (done, line))"

lemma in_parts:
  assumes "in_ok s"
  shows "ring_content INPUT_BUF (in_buf s) (in_r s) (in_e s) = in_done s @ in_line s"
    "length (in_done s) + length (in_line s) = ring_count (in_r s) (in_e s)"
    "ring_ok INPUT_BUF (in_buf s) (in_w s) (in_e s)" "ring_ok INPUT_BUF (in_buf s) (in_r s) (in_w s)"
proof -
  have c: "ring_count (in_r s) (in_w s) + ring_count (in_w s) (in_e s) = ring_count (in_r s) (in_e s)"
    and r: "ring_ok INPUT_BUF (in_buf s) (in_r s) (in_e s)" "in_w s < 4294967296"
    using assms by (simp_all add: in_ok_def)
  then show "ring_content INPUT_BUF (in_buf s) (in_r s) (in_e s) = in_done s @ in_line s"
    using input_ring.split_content [of "in_r s" "in_w s" "in_e s"] ring_count_less [of "in_r s" "in_e s"]
    by (simp add: in_done_def in_line_def)
  show "length (in_done s) + length (in_line s) = ring_count (in_r s) (in_e s)"
    using c by (simp add: in_done_def in_line_def)
  show "ring_ok INPUT_BUF (in_buf s) (in_w s) (in_e s)" "ring_ok INPUT_BUF (in_buf s) (in_r s) (in_w s)"
    using c r by (simp_all add: ring_ok_def)
qed

lemma in_frame: "in_ok (s\<lparr>crt := a, crt_pos := b, uart_out := d\<rparr>) = in_ok s"
  "in_done (s\<lparr>crt := a, crt_pos := b, uart_out := d\<rparr>) = in_done s" "in_line (s\<lparr>crt := a, crt_pos := b, uart_out := d\<rparr>) = in_line s"
  by (simp_all add: in_ok_def in_done_def in_line_def)

text \<open>The three changes of the ring: a character is added, taken back, and the line is finished.\<close>

definition in_add :: "byte \<Rightarrow> 'z cons_st_scheme \<Rightarrow> 'z cons_st_scheme" where
  "in_add b s = s\<lparr>in_buf := (in_buf s)[idx (in_e s) := b], in_e := u32 (in_e s + 1)\<rparr>"

definition in_erase :: "'z cons_st_scheme \<Rightarrow> 'z cons_st_scheme" where
  "in_erase s = s\<lparr>in_e := u32_of (int (in_e s) - 1)\<rparr>"

definition in_finish :: "'z cons_st_scheme \<Rightarrow> 'z cons_st_scheme" where
  "in_finish s = s\<lparr>in_w := in_e s\<rparr>"

lemma in_erase_ok:
  assumes "in_ok s" "in_line s \<noteq> []"
  shows "in_ok (in_erase s)" "in_done (in_erase s) = in_done s" "in_line (in_erase s) = butlast (in_line s)"
proof -
  note p = in_parts [OF assms(1)]
  have c: "0 < ring_count (in_w s) (in_e s)" using assms(2) by (auto simp: in_line_def simp flip: length_greater_0_conv)
  then have c': "0 < ring_count (in_r s) (in_e s)" using assms(1) by (simp add: in_ok_def)
  show d: "in_done (in_erase s) = in_done s" and l: "in_line (in_erase s) = butlast (in_line s)"
    using input_ring.unput(2) [OF p(3) c] by (simp_all add: in_erase_def in_done_def in_line_def)
  show "in_ok (in_erase s)"
    using assms(1) ring_count_unput [OF c] ring_count_unput [OF c'] input_ring.unput(1) [OF _ c'] l c
    by (auto simp: in_ok_def in_erase_def dest: in_set_butlastD)
qed

lemma in_finish_ok:
  assumes "ring_ok INPUT_BUF (in_buf s) (in_r s) (in_e s)"
  shows "in_ok (in_finish s)" "in_done (in_finish s) = ring_content INPUT_BUF (in_buf s) (in_r s) (in_e s)"
    "in_line (in_finish s) = []"
  using assms by (simp_all add: in_ok_def in_finish_def in_done_def in_line_def ring_ok_def)

lemma in_add_ok:
  assumes "in_ok s" "length (in_done s) + length (in_line s) < INPUT_BUF"
  shows "ring_ok INPUT_BUF (in_buf (in_add b s)) (in_r s) (in_e (in_add b s))"
    "ring_content INPUT_BUF (in_buf (in_add b s)) (in_r s) (in_e (in_add b s)) = in_done s @ in_line s @ [b]"
    "in_done (in_add b s) = in_done s" "in_line (in_add b s) = in_line s @ [b]"
    "b \<noteq> 10 \<Longrightarrow> in_ok (in_add b s)"
proof -
  note p = in_parts [OF assms(1)]
  have r: "ring_ok INPUT_BUF (in_buf s) (in_r s) (in_e s)" using assms(1) by (simp add: in_ok_def)
  have c: "ring_count (in_r s) (in_e s) < INPUT_BUF" "ring_count (in_w s) (in_e s) < INPUT_BUF"
    using assms p(2) by (simp_all add: in_ok_def)
  note a = input_ring.put [OF r c(1), of b] and b = input_ring.put [OF p(3) c(2), of b]
  show ok: "ring_ok INPUT_BUF (in_buf (in_add b s)) (in_r s) (in_e (in_add b s))"
    and all: "ring_content INPUT_BUF (in_buf (in_add b s)) (in_r s) (in_e (in_add b s)) = in_done s @ in_line s @ [b]"
    using a p(1) by (simp_all add: in_add_def idx_def)
  show l: "in_line (in_add b s) = in_line s @ [b]" using b by (simp add: in_add_def in_line_def idx_def)
  have n: "ring_count (in_r s) (in_w s) + ring_count (in_w s) (in_e (in_add b s)) = ring_count (in_r s) (in_e (in_add b s))"
    using ring_count_put [of "in_r s" "in_e s"] ring_count_put [of "in_w s" "in_e s"] c assms(1)
    by (simp add: in_ok_def in_add_def INPUT_BUF_def)
  then show d: "in_done (in_add b s) = in_done s"
    using input_ring.split_content [of "in_r s" "in_w s" "in_e (in_add b s)" "in_buf (in_add b s)"] all l
      ring_count_less [of "in_r s" "in_e (in_add b s)"]
    by (simp add: in_line_def in_done_def) (simp add: in_add_def)
  show "in_ok (in_add b s)" if "b \<noteq> 10"
    using ok n l that assms(1) by (simp add: in_ok_def) (simp add: in_add_def)
qed

lemma in_last:
  assumes "in_ok s" "in_line s \<noteq> []"
  shows "in_buf s ! idx (u32_of (int (in_e s) - 1)) = last (in_line s)"
proof -
  have c: "0 < ring_count (in_w s) (in_e s)" using assms(2) by (auto simp: in_line_def simp flip: length_greater_0_conv)
  have "(in_w s + (ring_count (in_w s) (in_e s) - 1)) mod INPUT_BUF = idx (u32_of (int (in_e s) - 1))"
    using input_ring.write_index [of "in_w s" "u32_of (int (in_e s) - 1)"] ring_count_unput [OF c] by (simp add: idx_def)
  then show ?thesis using c assms(2) by (simp add: in_line_def last_conv_nth) (simp add: ring_content_def)
qed

text \<open>Inside the critical section of the console.\<close>

definition cons_crit :: "'z cons_st_scheme \<Rightarrow> nat \<Rightarrow> 'z cons_st_scheme \<Rightarrow> bool" where
  "cons_crit s p u \<longleftrightarrow> crit s p LCons u \<and> \<not> panicked u \<and> crt_pos u < 1920 \<and> in_ok u"

lemma table_ok_cons [simp]: "table_ok (s\<lparr>crt := a\<rparr>) = table_ok s" "table_ok (s\<lparr>crt_pos := b\<rparr>) = table_ok s"
  "table_ok (s\<lparr>uart_out := c\<rparr>) = table_ok s" "table_ok (s\<lparr>in_buf := d\<rparr>) = table_ok s"
  "table_ok (s\<lparr>in_e := e\<rparr>) = table_ok s" "table_ok (s\<lparr>in_w := e\<rparr>) = table_ok s" "table_ok (s\<lparr>in_r := e\<rparr>) = table_ok s"
  by (simp_all add: table_ok_def sched_inv_defs)

lemma crit_in: "crit s p lk (in_add b u) = crit s p lk u" "crit s p lk (in_erase u) = crit s p lk u"
  "crit s p lk (in_finish u) = crit s p lk u"
  by (simp_all add: crit_def holding_def the_cpu_def in_add_def in_erase_def in_finish_def)

lemma in_misc [simp]: "panicked (in_add b u) = panicked u" "crt_pos (in_add b u) = crt_pos u"
  "panicked (in_erase u) = panicked u" "crt_pos (in_erase u) = crt_pos u" "in_r (in_add b u) = in_r u"
  "panicked (in_finish u) = panicked u" "crt_pos (in_finish u) = crt_pos u"
  by (simp_all add: in_add_def in_erase_def in_finish_def)

lemma cons_of_more:
  assumes "sched_st.more x = sched_st.more y"
  shows "in_buf x = in_buf y" "in_r x = in_r y" "in_w x = in_w y" "in_e x = in_e y" "panicked x = panicked y"
    "crt_pos x = crt_pos y" "in_ok x = in_ok y" "in_done x = in_done y" "in_line x = in_line y"
proof -
  show "in_buf x = in_buf y" "in_r x = in_r y" "in_w x = in_w y" "in_e x = in_e y" "panicked x = panicked y"
    "crt_pos x = crt_pos y"
    using assms by (cases x, cases y, simp)+
  then show "in_ok x = in_ok y" "in_done x = in_done y" "in_line x = in_line y"
    by (simp_all add: in_ok_def in_done_def in_line_def)
qed

lemma cons_echo:
  assumes "crit s p LCons u" "\<not> panicked u" "crt_pos u < 1920"
  shows "\<exists>v. consputc c u = Ok () v \<and> crit s p LCons v \<and> \<not> panicked v \<and> crt_pos v < 1920 \<and> in_ok v = in_ok u \<and>
    in_done v = in_done u \<and> in_line v = in_line u \<and> in_buf v = in_buf u \<and> in_r v = in_r u \<and> in_e v = in_e u \<and> in_w v = in_w u"
proof -
  obtain v where v: "consputc c u = Ok () v" "displayed u v" using consputc_run [OF assms(2,3)] by blast
  then have "crit s p LCons v" using assms(1) by (auto simp: displayed_def crit_def holding_def the_cpu_def)
  then show ?thesis using v assms(2) by (auto simp: displayed_def in_frame)
qed

lemma cons_erase:
  assumes "cons_crit s p u" "in_line u \<noteq> []"
  shows "\<exists>v. consputc BACKSPACE (in_erase u) = Ok () v \<and> cons_crit s p v \<and> in_done v = in_done u \<and>
    in_line v = butlast (in_line u)"
  using cons_echo [of s p "in_erase u" BACKSPACE] in_erase_ok [of u] assms by (auto simp: cons_crit_def crit_in)

lemma kill_line_run:
  assumes "cons_crit s p u" "length (in_line u) = k"
  shows "\<exists>v. kill_line k u = Ok () v \<and> cons_crit s p v \<and> in_done v = in_done u \<and> in_line v = []"
  using assms
proof (induction k arbitrary: u)
  case 0
  then show ?case by (simp add: exec_simps)
next
  case (Suc k)
  then have ne: "in_line u \<noteq> []" and ok: "in_ok u" by (auto simp: cons_crit_def)
  have "last (in_line u) \<noteq> 10" using last_in_set [OF ne] ok by (auto simp: in_ok_def)
  then have g: "in_buf u ! idx (u32_of (int (in_e u) - 1)) \<noteq> 10" using in_last [OF ok ne] by simp
  obtain v where v: "consputc BACKSPACE (in_erase u) = Ok () v" "cons_crit s p v" "in_done v = in_done u"
    "in_line v = butlast (in_line u)" using cons_erase [OF Suc.prems(1) ne] by blast
  then have "length (in_line v) = k" using Suc.prems(2) by simp
  from Suc.IH [OF v(2) this] show ?case using v g by (simp add: exec_simps) (simp add: in_erase_def)
qed

lemma cons_finish:
  assumes "crit s p LCons u" "\<not> panicked u" "crt_pos u < 1920" "ring_ok INPUT_BUF (in_buf u) (in_r u) (in_e u)"
  shows "\<exists>v. wakeup (Some ChInput) (in_finish u) = Ok () v \<and> cons_crit s p v \<and>
    in_done v = ring_content INPUT_BUF (in_buf u) (in_r u) (in_e u) \<and> in_line v = []"
proof -
  obtain w where w: "wakeup (Some ChInput) (in_finish u) = Ok () w" "crit s p LCons w"
    "sched_st.more w = sched_st.more (in_finish u)"
    using crit_wakeup [of s p LCons "in_finish u" "Some ChInput"] assms(1) by (auto simp: crit_in)
  show ?thesis using w cons_of_more [OF w(3)] in_finish_ok [OF assms(4)] assms(2,3) by (auto simp: cons_crit_def)
qed

lemma cons_default_run:
  assumes u: "cons_crit s p u" and c: "0 \<le> c" "c < 256" "c \<notin> {16, 21, 8, 127}"
  shows "\<exists>v. cons_default c u = Ok () v \<and> cons_crit s p v \<and> (in_done v, in_line v) = edit_char c (in_done u, in_line u)"
proof (cases "c \<noteq> 0 \<and> length (in_done u) + length (in_line u) < INPUT_BUF")
  case False
  moreover have "u32_of (int (in_e u) - int (in_r u)) = length (in_done u) + length (in_line u)"
    using in_parts(2) [of u] u by (simp add: cons_crit_def flip: ring_count_def)
  ultimately show ?thesis using u c by (auto simp: cons_default_def exec_simps edit_char_def)
next
  case True
  define d :: int where "d = (if c = 13 then 10 else c)"
  define b :: byte where "b = word_of_int d"
  have ok: "in_ok u" and cr: "crit s p LCons u" "\<not> panicked u" "crt_pos u < 1920" using u by (auto simp: cons_crit_def)
  note add = in_add_ok [OF ok conjunct2 [OF True], of b]
  have room: "u32_of (int (in_e u) - int (in_r u)) < INPUT_BUF"
    using True in_parts(2) [OF ok] by (simp flip: ring_count_def)
  obtain v where v: "consputc (nat d) (in_add b u) = Ok () v" "crit s p LCons v" "\<not> panicked v" "crt_pos v < 1920"
    "in_ok v = in_ok (in_add b u)" "in_done v = in_done u" "in_line v = in_line u @ [b]"
    "in_buf v = in_buf (in_add b u)" "in_r v = in_r u" "in_e v = in_e (in_add b u)"
    using cons_echo [of s p "in_add b u" "nat d"] cr add by (auto simp: crit_in)
  have start: "cons_default c u = (withS (\<lambda>s. if d = 10 \<or> d = 4 \<or> in_e s = u32 (in_r s + INPUT_BUF) then run
      [modify (\<lambda>s. s\<lparr>in_w := in_e s\<rparr>), wakeup (Some ChInput)] else skip)) v"
    using True room v(1) by (simp add: cons_default_def Let_def exec_simps in_add_def b_def d_def)
  have "length (in_done u @ in_line u @ [b]) = ring_count (in_r v) (in_e v)" using add(2) v by (metis length_ring_content)
  then have full: "in_e v = u32 (in_r v + INPUT_BUF) \<longleftrightarrow> length (in_done u) + length (in_line u @ [b]) = INPUT_BUF"
    using input_ring.full [of "in_buf v" "in_r v" "in_e v"] add(1) v by auto
  have "uint b = d" using c by (simp add: b_def d_def uint_word_of_int)
  then have b10: "b = 10 \<longleftrightarrow> d = 10" "(if c = 13 then 10 else word_of_int c) = b"
    by (auto simp: b_def d_def)
  show ?thesis
  proof (cases "d = 10 \<or> d = 4 \<or> in_e v = u32 (in_r v + INPUT_BUF)")
    case False
    then show ?thesis using start v add(5) b10 full True c
      by (auto simp: exec_simps cons_crit_def edit_char_def d_def split: if_splits)
  next
    case fin: True
    obtain w where w: "wakeup (Some ChInput) (in_finish v) = Ok () w" "cons_crit s p w"
      "in_done w = in_done u @ in_line u @ [b]" "in_line w = []"
      using cons_finish [OF v(2-4)] add(1,2) v by auto
    then show ?thesis using start fin b10 full True c
      by (auto simp: exec_simps in_finish_def edit_char_def d_def split: if_splits)
  qed
qed

lemma cons_char_run:
  assumes u: "cons_crit s p u" and c: "0 \<le> c" "c < 256"
  shows "\<exists>v. cons_char c u = Ok () v \<and> cons_crit s p v \<and> (in_done v, in_line v) = edit_char c (in_done u, in_line u)"
proof -
  have ok: "in_ok u" using u by (simp add: cons_crit_def)
  have count: "u32_of (int (in_e u) - int (in_w u)) = length (in_line u)" by (simp add: in_line_def flip: ring_count_def)
  have empty: "in_e u = in_w u \<longleftrightarrow> in_line u = []"
    using input_ring.empty [OF in_parts(3) [OF ok]] by (auto simp: in_line_def)
  consider "c = 16" | "c = 21" | "c = 8 \<or> c = 127" | "c \<notin> {16, 21, 8, 127}" by auto
  then show ?thesis
  proof cases
    case 2
    then show ?thesis using kill_line_run [OF u refl] count by (auto simp: cons_char_def exec_simps edit_char_def)
  next
    case 3
    then show ?thesis using cons_erase [OF u] empty u
      by (cases "in_line u = []") (auto simp: cons_char_def exec_simps edit_char_def in_erase_def)
  next
    case 4
    then show ?thesis using cons_default_run [OF u c 4] by (simp add: cons_char_def)
  qed (use u in \<open>auto simp: cons_char_def exec_simps edit_char_def\<close>)
qed

lemma cons_chars_run:
  "cons_crit s p u \<Longrightarrow> (\<forall>c\<in>set cs. 0 \<le> c \<and> c < 256) \<Longrightarrow>
    \<exists>v. forM cs cons_char u = Ok () v \<and> cons_crit s p v \<and> (in_done v, in_line v) = fold edit_char cs (in_done u, in_line u)"
proof (induction cs arbitrary: u)
  case Nil
  then show ?case by (simp add: exec_simps)
next
  case (Cons c cs)
  obtain v where v: "cons_char c u = Ok () v" "cons_crit s p v"
    "(in_done v, in_line v) = edit_char c (in_done u, in_line u)"
    using cons_char_run [OF Cons.prems(1), of c] Cons.prems(2) by auto
  obtain w where w: "forM cs cons_char v = Ok () w" "cons_crit s p w"
    "(in_done w, in_line w) = fold edit_char cs (in_done v, in_line v)"
    using Cons.IH [OF v(2)] Cons.prems(2) by auto
  have "forM (c # cs) cons_char u = Ok () w" using v(1) w(1) by (simp add: exec_simps)
  moreover have "(in_done w, in_line w) = fold edit_char (c # cs) (in_done u, in_line u)" using v(3) w(3) by simp
  ultimately show ?case using w(2) by blast
qed

lemma in_acquired: "in_ok (acquired lk s) = in_ok s" "in_done (acquired lk s) = in_done s" "in_line (acquired lk s) = in_line s"
  "in_ok (released lk s) = in_ok s" "in_done (released lk s) = in_done s" "in_line (released lk s) = in_line s"
  "panicked (acquired lk s) = panicked s" "crt_pos (acquired lk s) = crt_pos s"
  "panicked (released lk s) = panicked s" "crt_pos (released lk s) = crt_pos s"
  by (simp_all add: in_ok_def in_done_def in_line_def acquired_def released_def)

text \<open>What \<open>procdump\<close> prints for a process, and for the table.\<close>

definition proc_entry :: "memory \<Rightarrow> proc \<Rightarrow> (string \<times> parg list) list" where
  "proc_entry m x = (if p_state x = UNUSED then [] else
     [(''%d %s %s'', [PInt (p_pid x), PStr (state_name (p_state x)), PStr (p_name x)])] @
     (if p_state x = SLEEPING then map (\<lambda>pc. ('' %p'', [PPtr pc]))
        (takeWhile (\<lambda>pc. pc \<noteq> 0) (getcallerpcs m (rd32 m (p_context x + CTX_EBP) + 8))) else []) @ [(''\<newline>'', [])])"

definition proc_listing :: "'z ptable_st_scheme \<Rightarrow> (string \<times> parg list) list" where
  "proc_listing s = concat (map (proc_entry (mem s)) (procs s))"

lemma cprintf_run: "cprintf f a s = Ok () (s\<lparr>cons_out := cons_out s @ [(f, a)]\<rparr>)"
  by (simp add: cprintf_def exec_simps)

lemma forM_cprintf: "forM xs (\<lambda>x. cprintf f (g x)) s = Ok () (s\<lparr>cons_out := cons_out s @ map (\<lambda>x. (f, g x)) xs\<rparr>)"
  by (induction xs arbitrary: s) (simp_all add: exec_simps cprintf_run)

lemma procdump_one_run: "procdump_one p s = Ok () (s\<lparr>cons_out := cons_out s @ proc_entry (mem s) (procs s ! p)\<rparr>)"
  by (simp add: procdump_one_def exec_simps forM_cprintf cprintf_run proc_entry_def Let_def)

lemma procdump_run:
  assumes "length (procs s) = NPROC"
  shows "procdump s = Ok () (s\<lparr>cons_out := cons_out s @ proc_listing s\<rparr>)"
proof -
  have "forM ps procdump_one s = Ok () (s\<lparr>cons_out := cons_out s @ concat (map (\<lambda>p. proc_entry (mem s) (procs s ! p)) ps)\<rparr>)" for ps
    by (induction ps arbitrary: s) (simp_all add: exec_simps procdump_one_run)
  moreover have "map (\<lambda>p. proc_entry (mem s) (procs s ! p)) [0..<NPROC] = map (proc_entry (mem s)) (procs s)"
    unfolding assms [symmetric] by (rule nth_equalityI) simp_all
  ultimately show ?thesis by (simp add: procdump_def proc_listing_def)
qed

lemma quiet_cons_out: "quiet (s\<lparr>cons_out := out\<rparr>) p = quiet s p"
  by (simp add: quiet_def table_ok_def on_cpu_def the_cpu_def)

lemma in_cons_out: "in_ok (s\<lparr>cons_out := out\<rparr>) = in_ok s" "in_done (s\<lparr>cons_out := out\<rparr>) = in_done s"
  "in_line (s\<lparr>cons_out := out\<rparr>) = in_line s" "proc_listing (s\<lparr>cons_out := out\<rparr>) = proc_listing s"
  by (simp_all add: in_ok_def in_done_def in_line_def proc_listing_def)

text \<open>C24. \<open>consoleintr\<close> implements the line discipline: whatever character codes arrive, in whatever order and however
  often the free running indices have wrapped around, the interrupt returns, its ring buffer stays in order, and the finished
  input and the line being edited are those of the specification \<open>edit_char\<close>, applied character by character. If Control-P was
  among the characters, the last thing printed is the listing of the process table, and all locks are free again.\<close>

theorem consoleintr_refines:
  assumes "quiet s p" "in_ok s" "\<not> panicked s" "crt_pos s < 24 * 80" "\<forall>c\<in>set cs. 0 \<le> c \<and> c < 256"
  shows "\<exists>t. consoleintr cs s = Ok () t \<and> quiet t p \<and> in_ok t \<and> \<not> panicked t \<and> crt_pos t < 24 * 80 \<and>
    (in_done t, in_line t) = fold edit_char cs (in_done s, in_line s) \<and>
    (16 \<in> set cs \<longrightarrow> (\<exists>out. cons_out t = out @ proc_listing t))"
proof -
  note e = crit_enter [OF assms(1), of LCons]
  have "cons_crit s p (acquired LCons s)" using e(2) assms by (simp add: cons_crit_def in_acquired)
  from cons_chars_run [OF this, of cs] obtain v where v: "forM cs cons_char (acquired LCons s) = Ok () v"
    "cons_crit s p v" "(in_done v, in_line v) = fold edit_char cs (in_done s, in_line s)"
    using assms(5) by (auto simp: in_acquired)
  then have c: "crit s p LCons v" by (simp add: cons_crit_def)
  let ?r = "released LCons v"
  let ?t = "if 16 \<in> set cs then ?r\<lparr>cons_out := cons_out ?r @ proc_listing ?r\<rparr> else ?r"
  have q: "quiet ?r p" by (rule crit_release(2) [OF c])
  have "consoleintr cs s = Ok () ?t"
    using e(1) v(1) crit_release(1) [OF c] procdump_run [OF table_ok_length [OF quiet_table [OF q]]]
    by (simp add: consoleintr_def exec_simps)
  then show ?thesis using q v
    by (intro exI [of _ ?t]) (simp add: quiet_cons_out cons_crit_def in_acquired in_cons_out)
qed

text \<open>The witness types \<open>a b Control-H Control-P c Return\<close> at a buffer whose counters are about to overflow.\<close>

definition cons1 :: cons_st where
  "cons1 = cons0\<lparr>in_r := 4294967295, in_w := 4294967295, in_e := 4294967295\<rparr>"

theorem consoleintr_refines_witness:
  "\<exists>t. consoleintr [97, 98, 8, 16, 99, 13] cons1 = Ok () t \<and> in_done t = [97, 99, 10] \<and> in_line t = [] \<and>
    (\<exists>out. cons_out t = out @ proc_listing t)"
proof -
  have "quiet cons1 1" using quiet_cons0 by (simp add: cons1_def quiet_def on_cpu_def the_cpu_def)
  moreover have "in_ok cons1" "in_done cons1 = []" "in_line cons1 = []"
    by (simp_all add: in_ok_def in_done_def in_line_def cons1_def ring_ok_def)
  moreover have "fold edit_char [97, 98, 8, 16, 99, 13] ([], []) = ([97, 99, 10], [])"
    by (simp add: edit_char_def INPUT_BUF_def)
  ultimately show ?thesis using consoleintr_refines [of cons1 1 "[97, 98, 8, 16, 99, 13]"]
    by (auto simp: cons1_def)
qed

end
