(* ===== verification/Fs.thy ===== *)
theory Fs
  imports Console
begin

text \<open>
  The content, directory and path layers of \<open>fs.c\<close>. Reading returns the bytes that the code stores at
  \<open>dst\<close> together with its result; writing takes the bytes at \<open>src\<close>. A C string is the list of its
  characters without the final NUL, a pointer into it the rest of the list; the name buffer of a
  path element is a list of \<open>DIRSIZ\<close> bytes.
\<close>

section \<open>Inode content\<close>

function readi_loop :: "nat \<Rightarrow> nat \<Rightarrow> nat \<Rightarrow> byte list \<Rightarrow> ('z cons_st_scheme, byte list) cmd" where
  "readi_loop ip off n bs =
     (if n = 0 then ret bs else
      bnd (bmap ip (off div BSIZE)) (\<lambda>a.
      bnd (withS (\<lambda>s. bread (i_dev (inodes s ! ip)) a)) (\<lambda>bp. withS (\<lambda>s.
      let m = min n (BSIZE - off mod BSIZE); d = b_data (bufs s ! bp) in
      andthen [brelse bp] (readi_loop ip (off + m) (n - m) (bs @ map (\<lambda>k. d (off mod BSIZE + k)) [0..<m]))))))"
  by pat_completeness auto
termination by (relation "measure (\<lambda>(ip, off, n, bs). n)") (auto simp: BSIZE_def)

declare readi_loop.simps [simp del]

definition readi :: "nat \<Rightarrow> nat \<Rightarrow> nat \<Rightarrow> ('z cons_st_scheme, int \<times> byte list) cmd" where
  "readi ip off n = withS (\<lambda>s. let x = inodes s ! ip in
     if i_type x = T_DEV then
       (if i_major x < 0 \<or> int NDEV \<le> i_major x then ret (-1, []) else
        case devsw s ! nat (i_major x) of None \<Rightarrow> ret (-1, []) | Some ConsoleDev \<Rightarrow> consoleread ip (s32 n))
     else if i_size x < off \<or> u32 (off + n) < off then ret (-1, [])
     else (let n' = (if i_size x < u32 (off + n) then i_size x - off else n) in
       bnd (readi_loop ip off n' []) (\<lambda>bs. ret (s32 n', bs))))"

function writei_loop :: "nat \<Rightarrow> nat \<Rightarrow> byte list \<Rightarrow> ('z cons_st_scheme, unit) cmd" where
  "writei_loop ip off src =
     (if src = [] then skip else
      bnd (bmap ip (off div BSIZE)) (\<lambda>a.
      bnd (withS (\<lambda>s. bread (i_dev (inodes s ! ip)) a)) (\<lambda>bp.
      let m = min (length src) (BSIZE - off mod BSIZE) in
      andthen
        [upd_buf bp (\<lambda>x. x\<lparr>b_data := copy_bytes (b_data x) (off mod BSIZE) (\<lambda>k. src ! k) 0 m\<rparr>),
         log_write bp,
         brelse bp]
        (writei_loop ip (off + m) (drop m src)))))"
  by pat_completeness auto
termination by (relation "measure (\<lambda>(ip, off, src). length src)") (auto simp: BSIZE_def)

declare writei_loop.simps [simp del]

definition writei :: "nat \<Rightarrow> byte list \<Rightarrow> nat \<Rightarrow> ('z cons_st_scheme, int) cmd" where
  "writei ip src off = withS (\<lambda>s. let x = inodes s ! ip; n = length src in
     if i_type x = T_DEV then
       (if i_major x < 0 \<or> int NDEV \<le> i_major x then ret (-1) else
        case devsw s ! nat (i_major x) of None \<Rightarrow> ret (-1) | Some ConsoleDev \<Rightarrow> consolewrite ip src)
     else if i_size x < off \<or> u32 (off + n) < off then ret (-1)
     else if MAXFILE * BSIZE < u32 (off + n) then ret (-1)
     else andthen
       [writei_loop ip off src,
        withS (\<lambda>s. if 0 < n \<and> i_size (inodes s ! ip) < off + n then run
          [upd_inode ip (\<lambda>x. x\<lparr>i_size := off + n\<rparr>), iupdate ip] else skip)]
       (ret (s32 n)))"

section \<open>Directories\<close>

definition DIRSIZ :: nat where "DIRSIZ = 14"
definition DIRENT_SIZE :: nat where "DIRENT_SIZE = 16"

definition mem_of :: "byte list \<Rightarrow> memory" where
  "mem_of bs = (\<lambda>i. if i < length bs then bs ! i else 0)"

text \<open>The first \<open>DIRSIZ\<close> bytes at a string pointer, as far as they matter to the string routines.\<close>

definition namebuf :: "byte list \<Rightarrow> byte list" where
  "namebuf nm = take DIRSIZ (nm @ replicate DIRSIZ 0)"

definition namecmp :: "byte list \<Rightarrow> byte list \<Rightarrow> int" where
  "namecmp nm nm' = strncmp (mem_of (namebuf nm @ namebuf nm')) 0 DIRSIZ DIRSIZ"

definition de_inum :: "byte list \<Rightarrow> nat" where
  "de_inum de = rd16 (mem_of de) 0"

definition de_name :: "byte list \<Rightarrow> byte list" where
  "de_name de = drop 2 de"

function dirlookup_loop :: "nat \<Rightarrow> byte list \<Rightarrow> nat \<Rightarrow> nat \<Rightarrow> ('z cons_st_scheme, (nat \<times> nat) option) cmd" where
  "dirlookup_loop dp nm sz off =
     (if off < sz then
        bnd (readi dp off DIRENT_SIZE) (\<lambda>(r, de).
        if r \<noteq> int DIRENT_SIZE then panic ''dirlink read''
        else if de_inum de = 0 then dirlookup_loop dp nm sz (off + DIRENT_SIZE)
        else if namecmp nm (de_name de) = 0 then
          bnd (withS (\<lambda>s. iget (i_dev (inodes s ! dp)) (de_inum de))) (\<lambda>ip. ret (Some (ip, off)))
        else dirlookup_loop dp nm sz (off + DIRENT_SIZE))
      else ret None)"
  by pat_completeness auto
termination by (relation "measure (\<lambda>(dp, nm, sz, off). sz - off)") (auto simp: DIRENT_SIZE_def)

declare dirlookup_loop.simps [simp del]

definition dirlookup :: "nat \<Rightarrow> byte list \<Rightarrow> ('z cons_st_scheme, (nat \<times> nat) option) cmd" where
  "dirlookup dp nm = bnd (panic_if (\<lambda>s. i_type (inodes s ! dp) \<noteq> T_DIR) ''dirlookup not DIR'') (\<lambda>_.
     withS (\<lambda>s. dirlookup_loop dp nm (i_size (inodes s ! dp)) 0))"

text \<open>The offset of the first empty entry, or the end of the directory.\<close>

function dirlink_loop :: "nat \<Rightarrow> nat \<Rightarrow> nat \<Rightarrow> ('z cons_st_scheme, nat) cmd" where
  "dirlink_loop dp sz off =
     (if off < sz then
        bnd (readi dp off DIRENT_SIZE) (\<lambda>(r, de).
        if r \<noteq> int DIRENT_SIZE then panic ''dirlink read''
        else if de_inum de = 0 then ret off
        else dirlink_loop dp sz (off + DIRENT_SIZE))
      else ret off)"
  by pat_completeness auto
termination by (relation "measure (\<lambda>(dp, sz, off). sz - off)") (auto simp: DIRENT_SIZE_def)

declare dirlink_loop.simps [simp del]

definition mk_dirent :: "byte list \<Rightarrow> nat \<Rightarrow> byte list" where
  "mk_dirent nm inum = [word_of_nat inum, word_of_nat (inum div 256)] @
     map (strncpy (mem_of (replicate DIRSIZ 0 @ namebuf nm)) 0 DIRSIZ (int DIRSIZ)) [0..<DIRSIZ]"

definition dirlink :: "nat \<Rightarrow> byte list \<Rightarrow> nat \<Rightarrow> ('z cons_st_scheme, int) cmd" where
  "dirlink dp nm inum = bnd (dirlookup dp nm) (\<lambda>r. case r of
     Some (ip, _) \<Rightarrow> andthen [iput ip] (ret (-1))
   | None \<Rightarrow>
       bnd (withS (\<lambda>s. dirlink_loop dp (i_size (inodes s ! dp)) 0)) (\<lambda>off.
       bnd (writei dp (mk_dirent nm inum) off) (\<lambda>r.
       if r \<noteq> int DIRENT_SIZE then panic ''dirlink'' else ret 0)))"

section \<open>Paths\<close>

definition slash :: byte where "slash = 47"

definition skipelem :: "byte list \<Rightarrow> byte list \<Rightarrow> (byte list \<times> byte list) option" where
  "skipelem path nm = (let p = dropWhile (\<lambda>c. c = slash) path in
     if p = [] then None
     else (let e = takeWhile (\<lambda>c. c \<noteq> slash) p; rest = dropWhile (\<lambda>c. c \<noteq> slash) p;
               nm' = (if DIRSIZ \<le> length e then take DIRSIZ e else e @ [0] @ drop (length e + 1) nm)
           in Some (dropWhile (\<lambda>c. c = slash) rest, nm')))"

lemma skipelem_shorter:
  assumes "skipelem path nm = Some (path', nm')"
  shows "length path' < length path"
proof -
  let ?p = "dropWhile (\<lambda>c. c = slash) path"
  have p: "?p \<noteq> []" "path' = dropWhile (\<lambda>c. c = slash) (dropWhile (\<lambda>c. c \<noteq> slash) ?p)"
    using assms by (auto simp: skipelem_def Let_def split: if_splits)
  then have "hd ?p \<noteq> slash" using hd_dropWhile by blast
  then have "length (dropWhile (\<lambda>c. c \<noteq> slash) ?p) < length ?p"
    using p(1) by (cases ?p) (auto simp: le_imp_less_Suc length_dropWhile_le)
  moreover have "length path' \<le> length (dropWhile (\<lambda>c. c \<noteq> slash) ?p)" "length ?p \<le> length path"
    using p(2) length_dropWhile_le by auto
  ultimately show ?thesis by linarith
qed

function namex_loop :: "nat \<Rightarrow> byte list \<Rightarrow> bool \<Rightarrow> byte list \<Rightarrow> ('z cons_st_scheme, nat option \<times> byte list) cmd" where
  "namex_loop ip path nameiparent nm = (case skipelem path nm of
     None \<Rightarrow> if nameiparent then andthen [iput ip] (ret (None, nm)) else ret (Some ip, nm)
   | Some (path', nm') \<Rightarrow>
       bnd (ilock ip) (\<lambda>_. withS (\<lambda>s.
       if i_type (inodes s ! ip) \<noteq> T_DIR then andthen [iunlockput ip] (ret (None, nm'))
       else if nameiparent \<and> path' = [] then andthen [iunlock ip] (ret (Some ip, nm'))
       else bnd (dirlookup ip nm') (\<lambda>r. case r of
           None \<Rightarrow> andthen [iunlockput ip] (ret (None, nm'))
         | Some (next, _) \<Rightarrow> andthen [iunlockput ip] (namex_loop next path' nameiparent nm')))))"
  by pat_completeness auto
termination by (relation "measure (\<lambda>(ip, path, np, nm). length path)") (auto simp: skipelem_shorter)

declare namex_loop.simps [simp del]

definition ROOTDEV :: nat where "ROOTDEV = 1"
definition ROOTINO :: nat where "ROOTINO = 1"

definition namex :: "byte list \<Rightarrow> bool \<Rightarrow> byte list \<Rightarrow> ('z cons_st_scheme, nat option \<times> byte list) cmd" where
  "namex path nameiparent nm =
     bnd (if path \<noteq> [] \<and> hd path = slash then iget ROOTDEV ROOTINO
          else with_proc (\<lambda>p. withS (\<lambda>s. case p_cwd (procs s ! p) of None \<Rightarrow> undef ''proc->cwd'' | Some d \<Rightarrow> idup d)))
       (\<lambda>ip. namex_loop ip path nameiparent nm)"

definition namei :: "byte list \<Rightarrow> ('z cons_st_scheme, nat option) cmd" where
  "namei path = bnd (namex path False (replicate DIRSIZ 0)) (\<lambda>(ip, _). ret ip)"

definition nameiparent :: "byte list \<Rightarrow> byte list \<Rightarrow> ('z cons_st_scheme, nat option \<times> byte list) cmd" where
  "nameiparent path nm = namex path True nm"

end
