(* ===== verification/File.thy ===== *)
theory File
  imports Fs
begin

text \<open>
  Open files and pipes: \<open>file.c\<close> and \<open>pipe.c\<close>. A \<open>struct file *\<close> is the index of its slot in
  \<open>ftable.file\<close>; a \<open>struct pipe *\<close> is the address of the page that \<open>pipealloc\<close> took from \<open>kalloc\<close>, and
  \<open>pipes\<close> gives the pipe at an address.
\<close>

section \<open>State\<close>

definition NFILE :: nat where "NFILE = 100"
definition PIPESIZE :: nat where "PIPESIZE = 512"

datatype fdtype = FD_NONE | FD_PIPE | FD_INODE

record file_rec =
  f_type :: fdtype
  f_ref :: int
  f_readable :: bool
  f_writable :: bool
  f_pipe :: nat
  f_ip :: nat
  f_off :: nat

record pipe =
  pi_data :: "byte list"
  pi_nread :: nat
  pi_nwrite :: nat
  pi_readopen :: bool
  pi_writeopen :: bool

record file_st = cons_st +
  files :: "file_rec list"
  pipes :: "nat \<Rightarrow> pipe"

definition upd_file :: "nat \<Rightarrow> (file_rec \<Rightarrow> file_rec) \<Rightarrow> ('z file_st_scheme, unit) cmd" where
  "upd_file f g = modify (\<lambda>s. s\<lparr>files := (files s)[f := g (files s ! f)]\<rparr>)"

definition upd_pipe :: "nat \<Rightarrow> (pipe \<Rightarrow> pipe) \<Rightarrow> ('z file_st_scheme, unit) cmd" where
  "upd_pipe p g = modify (\<lambda>s. s\<lparr>pipes := (pipes s)(p := g (pipes s p))\<rparr>)"

section \<open>The file table\<close>

definition fileinit :: "('z file_st_scheme, unit) cmd" where
  "fileinit = initlock LFtable ''ftable''"

definition filealloc :: "('z file_st_scheme, nat option) cmd" where
  "filealloc = bnd (acquire LFtable) (\<lambda>_. withS (\<lambda>s.
     case first_idx (\<lambda>f. f_ref f = 0) (files s) of
       Some f \<Rightarrow> andthen [upd_file f (\<lambda>x. x\<lparr>f_ref := 1\<rparr>), release LFtable] (ret (Some f))
     | None \<Rightarrow> andthen [release LFtable] (ret None)))"

definition filedup :: "nat \<Rightarrow> ('z file_st_scheme, nat) cmd" where
  "filedup f = andthen
     [acquire LFtable,
      panic_if (\<lambda>s. f_ref (files s ! f) < 1) ''filedup'',
      upd_file f (\<lambda>x. x\<lparr>f_ref := f_ref x + 1\<rparr>),
      release LFtable]
     (ret f)"

section \<open>Pipes\<close>

definition pipeclose :: "nat \<Rightarrow> bool \<Rightarrow> ('z file_st_scheme, unit) cmd" where
  "pipeclose p writable = run
     [acquire (LPipe p),
      if writable then run [upd_pipe p (\<lambda>x. x\<lparr>pi_writeopen := False\<rparr>), wakeup (Some (ChPipeR p))]
      else run [upd_pipe p (\<lambda>x. x\<lparr>pi_readopen := False\<rparr>), wakeup (Some (ChPipeW p))],
      withS (\<lambda>s. if \<not> pi_readopen (pipes s p) \<and> \<not> pi_writeopen (pipes s p)
        then run [release (LPipe p), kfree p] else release (LPipe p))]"

definition fileclose :: "nat \<Rightarrow> ('z file_st_scheme, unit) cmd" where
  "fileclose f = run
     [acquire LFtable,
      panic_if (\<lambda>s. f_ref (files s ! f) < 1) ''fileclose'',
      upd_file f (\<lambda>x. x\<lparr>f_ref := f_ref x - 1\<rparr>),
      withS (\<lambda>s. if 0 < f_ref (files s ! f) then release LFtable
        else (let ff = files s ! f in run
          [upd_file f (\<lambda>x. x\<lparr>f_ref := 0\<rparr>),
           upd_file f (\<lambda>x. x\<lparr>f_type := FD_NONE\<rparr>),
           release LFtable,
           if f_type ff = FD_PIPE then pipeclose (f_pipe ff) (f_writable ff)
           else if f_type ff = FD_INODE then run [begin_op, iput (f_ip ff), end_op]
           else skip]))]"

definition pipe_ends :: "nat \<Rightarrow> nat \<Rightarrow> nat \<Rightarrow> ('z file_st_scheme, unit) cmd" where
  "pipe_ends p f0 f1 = run
     [upd_pipe p (\<lambda>x. x\<lparr>pi_readopen := True\<rparr>),
      upd_pipe p (\<lambda>x. x\<lparr>pi_writeopen := True\<rparr>),
      upd_pipe p (\<lambda>x. x\<lparr>pi_nwrite := 0\<rparr>),
      upd_pipe p (\<lambda>x. x\<lparr>pi_nread := 0\<rparr>),
      initlock (LPipe p) ''pipe'',
      upd_file f0 (\<lambda>x. x\<lparr>f_type := FD_PIPE, f_readable := True, f_writable := False, f_pipe := p\<rparr>),
      upd_file f1 (\<lambda>x. x\<lparr>f_type := FD_PIPE, f_readable := False, f_writable := True, f_pipe := p\<rparr>)]"

text \<open>\<open>pipealloc\<close>: \<open>None\<close> for the result \<open>-1\<close>, and the two files otherwise.\<close>

definition pipealloc :: "('z file_st_scheme, (nat \<times> nat) option) cmd" where
  "pipealloc = bnd filealloc (\<lambda>r0. case r0 of
     None \<Rightarrow> ret None
   | Some f0 \<Rightarrow> bnd filealloc (\<lambda>r1. case r1 of
       None \<Rightarrow> andthen [fileclose f0] (ret None)
     | Some f1 \<Rightarrow> bnd kalloc (\<lambda>p.
         if p = 0 then andthen [fileclose f0, fileclose f1] (ret None)
         else andthen [pipe_ends p f0 f1] (ret (Some (f0, f1))))))"

text \<open>
  \<open>pipewrite\<close>: \<open>n\<close> is the count of the whole call, the list what is still to be written.
  A writer that finds the pipe full sleeps; it goes on in \<open>pipewrite_return\<close>.
\<close>

primrec pipewrite_loop :: "nat \<Rightarrow> int \<Rightarrow> byte list \<Rightarrow> ('z file_st_scheme, int) cmd" where
  "pipewrite_loop p n [] = andthen [wakeup (Some (ChPipeR p)), release (LPipe p)] (ret n)"
| "pipewrite_loop p n (b # bs) = withS (\<lambda>s.
     if pi_nwrite (pipes s p) = u32 (pi_nread (pipes s p) + PIPESIZE) then
       with_proc (\<lambda>q. if \<not> pi_readopen (pipes s p) \<or> p_killed (procs s ! q)
         then andthen [release (LPipe p)] (ret (-1))
         else andthen [wakeup (Some (ChPipeR p))] (sleep_in_loop (ChPipeW p) (LPipe p)))
     else
       bnd (upd_pipe p (\<lambda>x. x\<lparr>pi_data := (pi_data x)[pi_nwrite x mod PIPESIZE := b], pi_nwrite := u32 (pi_nwrite x + 1)\<rparr>))
         (\<lambda>_. pipewrite_loop p n bs))"

definition pipewrite :: "nat \<Rightarrow> int \<Rightarrow> byte list \<Rightarrow> ('z file_st_scheme, int) cmd" where
  "pipewrite p n bs = andthen [acquire (LPipe p)] (pipewrite_loop p n bs)"

definition pipewrite_return :: "nat \<Rightarrow> int \<Rightarrow> byte list \<Rightarrow> nat \<Rightarrow> ('z file_st_scheme, int) cmd" where
  "pipewrite_return p n bs intena = andthen [sleep_return (LPipe p) intena] (pipewrite_loop p n bs)"

primrec piperead_copy :: "nat \<Rightarrow> nat \<Rightarrow> byte list \<Rightarrow> ('z file_st_scheme, int \<times> byte list) cmd" where
  "piperead_copy p 0 bs = andthen [wakeup (Some (ChPipeW p)), release (LPipe p)] (ret (int (length bs), bs))"
| "piperead_copy p (Suc n) bs = withS (\<lambda>s.
     if pi_nread (pipes s p) = pi_nwrite (pipes s p)
     then andthen [wakeup (Some (ChPipeW p)), release (LPipe p)] (ret (int (length bs), bs))
     else (let b = pi_data (pipes s p) ! (pi_nread (pipes s p) mod PIPESIZE) in
       bnd (upd_pipe p (\<lambda>x. x\<lparr>pi_nread := u32 (pi_nread x + 1)\<rparr>)) (\<lambda>_. piperead_copy p n (bs @ [b]))))"

definition piperead_wait :: "nat \<Rightarrow> int \<Rightarrow> ('z file_st_scheme, int \<times> byte list) cmd" where
  "piperead_wait p n = withS (\<lambda>s.
     if pi_nread (pipes s p) = pi_nwrite (pipes s p) \<and> pi_writeopen (pipes s p) then
       with_proc (\<lambda>q. if p_killed (procs s ! q) then andthen [release (LPipe p)] (ret (-1, []))
         else sleep_in_loop (ChPipeR p) (LPipe p))
     else piperead_copy p (nat n) [])"

definition piperead :: "nat \<Rightarrow> int \<Rightarrow> ('z file_st_scheme, int \<times> byte list) cmd" where
  "piperead p n = andthen [acquire (LPipe p)] (piperead_wait p n)"

definition piperead_return :: "nat \<Rightarrow> int \<Rightarrow> nat \<Rightarrow> ('z file_st_scheme, int \<times> byte list) cmd" where
  "piperead_return p n intena = andthen [sleep_return (LPipe p) intena] (piperead_wait p n)"

section \<open>Reading and writing open files\<close>

definition filestat :: "nat \<Rightarrow> ('z file_st_scheme, stat option) cmd" where
  "filestat f = withS (\<lambda>s. let ff = files s ! f in
     if f_type ff = FD_INODE then
       bnd (ilock (f_ip ff)) (\<lambda>_. bnd (gets (stati (f_ip ff))) (\<lambda>st.
       andthen [iunlock (f_ip ff)] (ret (Some st))))
     else ret None)"

definition fileread :: "nat \<Rightarrow> int \<Rightarrow> ('z file_st_scheme, int \<times> byte list) cmd" where
  "fileread f n = withS (\<lambda>s. let ff = files s ! f in
     if \<not> f_readable ff then ret (-1, [])
     else if f_type ff = FD_PIPE then piperead (f_pipe ff) n
     else if f_type ff = FD_INODE then
       bnd (ilock (f_ip ff)) (\<lambda>_.
       bnd (withS (\<lambda>s. readi (f_ip ff) (f_off (files s ! f)) (u32_of n))) (\<lambda>(r, bs).
       andthen
         [if 0 < r then upd_file f (\<lambda>x. x\<lparr>f_off := u32_of (int (f_off x) + r)\<rparr>) else skip,
          iunlock (f_ip ff)]
         (ret (r, bs))))
     else panic ''fileread'')"

text \<open>The number of bytes one transaction may write.\<close>

definition filewrite_max :: nat where
  "filewrite_max = ((LOGSIZE - 1 - 1 - 2) div 2) * 512"

text \<open>The loop of \<open>filewrite\<close>; \<open>True\<close> when all bytes were written.\<close>

function filewrite_loop :: "nat \<Rightarrow> nat \<Rightarrow> byte list \<Rightarrow> ('z file_st_scheme, bool) cmd" where
  "filewrite_loop f ip bs =
     (if bs = [] then ret True else
      let n1 = min (length bs) filewrite_max in
      bnd (run [begin_op, ilock ip]) (\<lambda>_.
      bnd (withS (\<lambda>s. writei ip (take n1 bs) (f_off (files s ! f)))) (\<lambda>r.
      bnd (run
        [if 0 < r then upd_file f (\<lambda>x. x\<lparr>f_off := u32_of (int (f_off x) + r)\<rparr>) else skip,
         iunlock ip,
         end_op]) (\<lambda>_.
      if r < 0 then ret False
      else if r \<noteq> int n1 then panic ''short filewrite''
      else filewrite_loop f ip (drop n1 bs)))))"
  by pat_completeness auto
termination by (relation "measure (\<lambda>(f, ip, bs). length bs)") (auto simp: filewrite_max_def LOGSIZE_def MAXOPBLOCKS_def)

declare filewrite_loop.simps [simp del]

text \<open>\<open>bs\<close> are the bytes of \<open>addr[0..n)\<close>: none when the count \<open>n\<close> is negative.\<close>

definition filewrite :: "nat \<Rightarrow> int \<Rightarrow> byte list \<Rightarrow> ('z file_st_scheme, int) cmd" where
  "filewrite f n bs = withS (\<lambda>s. let ff = files s ! f in
     if \<not> f_writable ff then ret (-1)
     else if f_type ff = FD_PIPE then pipewrite (f_pipe ff) n bs
     else if f_type ff = FD_INODE then
       bnd (filewrite_loop f (f_ip ff) bs) (\<lambda>full. ret (if full \<and> int (length bs) = n then n else -1))
     else panic ''filewrite'')"


section \<open>Pipes as queues\<close>

interpretation pipe_ring: ring_buffer PIPESIZE
  by unfold_locales (simp_all add: PIPESIZE_def)

definition pipe_ok :: "pipe \<Rightarrow> bool" where
  "pipe_ok x \<longleftrightarrow> ring_ok PIPESIZE (pi_data x) (pi_nread x) (pi_nwrite x)"

definition pipe_queue :: "pipe \<Rightarrow> byte list" where
  "pipe_queue x = ring_content PIPESIZE (pi_data x) (pi_nread x) (pi_nwrite x)"

definition pipe_put :: "byte \<Rightarrow> pipe \<Rightarrow> pipe" where
  "pipe_put b x = x\<lparr>pi_data := (pi_data x)[pi_nwrite x mod PIPESIZE := b], pi_nwrite := u32 (pi_nwrite x + 1)\<rparr>"

definition pipe_get :: "pipe \<Rightarrow> pipe" where
  "pipe_get x = x\<lparr>pi_nread := u32 (pi_nread x + 1)\<rparr>"

lemma length_pipe_queue: "length (pipe_queue x) = ring_count (pi_nread x) (pi_nwrite x)"
  by (simp add: pipe_queue_def)

lemma pipe_full: "pipe_ok x \<Longrightarrow> pi_nwrite x = u32 (pi_nread x + PIPESIZE) \<longleftrightarrow> length (pipe_queue x) = PIPESIZE"
  using pipe_ring.full by (auto simp: pipe_ok_def length_pipe_queue)

lemma pipe_empty: "pipe_ok x \<Longrightarrow> pi_nread x = pi_nwrite x \<longleftrightarrow> pipe_queue x = []"
  using pipe_ring.empty by (simp add: pipe_ok_def pipe_queue_def)

lemma pipe_bound: "pipe_ok x \<Longrightarrow> length (pipe_queue x) \<le> PIPESIZE"
  by (simp add: pipe_ok_def length_pipe_queue ring_ok_def)

lemma pipe_put_ok:
  assumes "pipe_ok x" "length (pipe_queue x) < PIPESIZE"
  shows "pipe_ok (pipe_put b x)" "pipe_queue (pipe_put b x) = pipe_queue x @ [b]"
  using pipe_ring.put [of "pi_data x" "pi_nread x" "pi_nwrite x" b] assms
  by (simp_all add: pipe_ok_def pipe_put_def pipe_queue_def)

lemma pipe_get_ok:
  assumes "pipe_ok x" "pipe_queue x \<noteq> []"
  shows "pipe_ok (pipe_get x)" "pipe_queue x = pi_data x ! (pi_nread x mod PIPESIZE) # pipe_queue (pipe_get x)"
proof -
  have "0 < ring_count (pi_nread x) (pi_nwrite x)" using assms(2) by (simp flip: length_pipe_queue)
  then show "pipe_ok (pipe_get x)" "pipe_queue x = pi_data x ! (pi_nread x mod PIPESIZE) # pipe_queue (pipe_get x)"
    using pipe_ring.get [of "pi_data x" "pi_nread x" "pi_nwrite x"] assms(1)
    by (simp_all add: pipe_ok_def pipe_get_def pipe_queue_def)
qed

lemma table_ok_pipes [simp]: "table_ok (s\<lparr>pipes := x\<rparr>) = table_ok s"
  by (simp add: table_ok_def sched_inv_defs)

lemma pipes_of_more: "sched_st.more x = sched_st.more y \<Longrightarrow> pipes x = pipes y"
  by (cases x, cases y, simp)

lemma crit_pipes: "crit s p lk (u\<lparr>pipes := x\<rparr>) = crit s p lk u"
  by (simp add: crit_def holding_def the_cpu_def)

lemma pipes_lock [simp]: "pipes (acquired lk s) = pipes s" "pipes (released lk s) = pipes s"
  by (simp_all add: acquired_def released_def)

text \<open>How a pipe operation ends that does not sleep: it wakes the other side and releases the lock.\<close>

lemma pipe_finish:
  assumes "crit s p (LPipe q) u"
  shows "\<exists>t. andthen [wakeup ch, release (LPipe q)] (ret r) u = Ok r t \<and> quiet t p \<and> stirred s t \<and> pipes t = pipes u"
proof -
  obtain w where w: "wakeup ch u = Ok () w" "crit s p (LPipe q) w" "sched_st.more w = sched_st.more u"
    using crit_wakeup [OF assms] by blast
  then show ?thesis using crit_release [OF w(2)] pipes_of_more [OF w(3)] by (simp add: exec_simps)
qed

text \<open>How one ends that sleeps: the lock is free and the data of the pipe as it was.\<close>

lemma pipe_sleep:
  assumes c: "crit s p (LPipe q) u"
  shows "\<exists>t. (sleep_in_loop ch (LPipe q) u :: (_, 'a) outcome) = Stop Switch t \<and> pipes t = pipes u \<and>
    l_locked (locks t (LPipe q)) = 0 \<and> p_state (procs t ! p) = SLEEPING \<and> p_chan (procs t ! p) = Some ch"
proof -
  obtain t where t: "sleep (Some ch) (Some (LPipe q)) u = Stop Switch t" "sched_st.more t = sched_st.more u"
    "l_locked (locks t (LPipe q)) = 0" "procs t = (procs u)[p := (procs u ! p)\<lparr>p_chan := Some ch, p_state := SLEEPING\<rparr>]"
    using crit_sleep [OF c] by blast
  have "p < length (procs u)" using c table_ok_length [of u] by (auto simp: crit_def quiet_def on_cpu_def)
  then show ?thesis using t pipes_of_more [OF t(2)] by (simp add: sleep_in_loop_def exec_simps)
qed

text \<open>The writer stores what fits; the number of bytes that fit is the free space.\<close>

lemma pipewrite_fill:
  assumes "crit s p (LPipe q) u" "pipe_ok (pipes u q)" "length (pipe_queue (pipes u q)) + length bs \<le> PIPESIZE"
  shows "\<exists>v. (\<forall>n cs. pipewrite_loop q n (bs @ cs) u = pipewrite_loop q n cs v) \<and> crit s p (LPipe q) v \<and>
    pipe_ok (pipes v q) \<and> pipe_queue (pipes v q) = pipe_queue (pipes u q) @ bs \<and> procs v = procs u \<and>
    (\<forall>r. r \<noteq> q \<longrightarrow> pipes v r = pipes u r) \<and> pi_readopen (pipes v q) = pi_readopen (pipes u q)"
  using assms
proof (induction bs arbitrary: u)
  case Nil
  then show ?case by (intro exI [of _ u]) simp
next
  case (Cons b bs)
  let ?u = "u\<lparr>pipes := (pipes u)(q := pipe_put b (pipes u q))\<rparr>"
  have "length (pipe_queue (pipes u q)) < PIPESIZE" using Cons.prems(3) by simp
  note put = pipe_put_ok [OF Cons.prems(2) this, of b]
  have step: "pipewrite_loop q n ((b # bs) @ cs) u = pipewrite_loop q n (bs @ cs) ?u" for n cs
    using pipe_full [OF Cons.prems(2)] Cons.prems(3) by (simp add: exec_simps upd_pipe_def pipe_put_def)
  have "\<exists>v. (\<forall>n cs. pipewrite_loop q n (bs @ cs) ?u = pipewrite_loop q n cs v) \<and> crit s p (LPipe q) v \<and>
    pipe_ok (pipes v q) \<and> pipe_queue (pipes v q) = pipe_queue (pipes ?u q) @ bs \<and> procs v = procs ?u \<and>
    (\<forall>r. r \<noteq> q \<longrightarrow> pipes v r = pipes ?u r) \<and> pi_readopen (pipes v q) = pi_readopen (pipes ?u q)"
    by (intro Cons.IH) (use Cons.prems put in \<open>simp_all add: crit_pipes\<close>)
  then show ?case using step put by (simp add: pipe_put_def)
qed

text \<open>The reader takes what is there, at most as much as it asked for.\<close>

lemma piperead_copy_run:
  assumes "crit s p (LPipe q) u" "pipe_ok (pipes u q)"
  shows "\<exists>t. piperead_copy q n bs u =
      Ok (int (length (bs @ take n (pipe_queue (pipes u q)))), bs @ take n (pipe_queue (pipes u q))) t \<and>
    quiet t p \<and> stirred s t \<and> pipe_ok (pipes t q) \<and> pipe_queue (pipes t q) = drop n (pipe_queue (pipes u q)) \<and>
    (\<forall>r. r \<noteq> q \<longrightarrow> pipes t r = pipes u r)"
  using assms
proof (induction n arbitrary: u bs)
  case 0
  obtain t where "andthen [wakeup (Some (ChPipeW q)), release (LPipe q)] (ret (int (length bs), bs)) u = Ok (int (length bs), bs) t"
    "quiet t p" "stirred s t" "pipes t = pipes u" 
    using pipe_finish [OF "0.prems"(1), of "Some (ChPipeW q)" "(int (length bs), bs)"] by blast
  then show ?case using "0.prems"(2) by (intro exI [of _ t]) simp
next
  case (Suc n)
  show ?case
  proof (cases "pipe_queue (pipes u q) = []")
    case True
    obtain t where "andthen [wakeup (Some (ChPipeW q)), release (LPipe q)] (ret (int (length bs), bs)) u = Ok (int (length bs), bs) t"
      "quiet t p" "stirred s t" "pipes t = pipes u" 
      using pipe_finish [OF Suc.prems(1), of "Some (ChPipeW q)" "(int (length bs), bs)"] by blast
    then show ?thesis using True pipe_empty [OF Suc.prems(2)] Suc.prems(2)
      by (intro exI [of _ t]) (simp add: withS_def)
  next
    case False
    let ?b = "pi_data (pipes u q) ! (pi_nread (pipes u q) mod PIPESIZE)"
    let ?u = "u\<lparr>pipes := (pipes u)(q := pipe_get (pipes u q))\<rparr>"
    note get = pipe_get_ok [OF Suc.prems(2) False]
    have step: "piperead_copy q (Suc n) bs u = piperead_copy q n (bs @ [?b]) ?u"
      using pipe_empty [OF Suc.prems(2)] False by (simp add: exec_simps upd_pipe_def pipe_get_def Let_def)
    have "\<exists>t. piperead_copy q n (bs @ [?b]) ?u =
        Ok (int (length ((bs @ [?b]) @ take n (pipe_queue (pipes ?u q)))), (bs @ [?b]) @ take n (pipe_queue (pipes ?u q))) t \<and>
      quiet t p \<and> stirred s t \<and> pipe_ok (pipes t q) \<and> pipe_queue (pipes t q) = drop n (pipe_queue (pipes ?u q)) \<and>
      (\<forall>r. r \<noteq> q \<longrightarrow> pipes t r = pipes ?u r)"
      by (intro Suc.IH) (use Suc.prems get in \<open>simp_all add: crit_pipes\<close>)
    then obtain t where "piperead_copy q n (bs @ [?b]) ?u =
        Ok (int (length ((bs @ [?b]) @ take n (pipe_queue (pipes ?u q)))), (bs @ [?b]) @ take n (pipe_queue (pipes ?u q))) t"
      "quiet t p" "stirred s t" "pipe_ok (pipes t q)" "pipe_queue (pipes t q) = drop n (pipe_queue (pipes ?u q))"
      "\<forall>r. r \<noteq> q \<longrightarrow> pipes t r = pipes ?u r" by blast
    then show ?thesis using step get(2) by (intro exI [of _ t]) (simp del: piperead_copy.simps)
  qed
qed

lemma pipewrite_blocked:
  assumes c: "crit s p (LPipe q) v" and full: "pipe_ok (pipes v q)" "length (pipe_queue (pipes v q)) = PIPESIZE"
  shows "\<exists>t. pipes t = pipes v \<and>
    (if \<not> pi_readopen (pipes v q) \<or> p_killed (procs v ! p) then pipewrite_loop q n (b # bs) v = Ok (-1) t \<and> quiet t p
     else pipewrite_loop q n (b # bs) v = Stop Switch t \<and> l_locked (locks t (LPipe q)) = 0 \<and>
       p_state (procs t ! p) = SLEEPING \<and> p_chan (procs t ! p) = Some (ChPipeW q))"
proof -
  have eq: "pi_nwrite (pipes v q) = u32 (pi_nread (pipes v q) + PIPESIZE)" using pipe_full [OF full(1)] full(2) by simp
  note me = crit_proc [OF c]
  show ?thesis
  proof (cases "\<not> pi_readopen (pipes v q) \<or> p_killed (procs v ! p)")
    case True
    then show ?thesis using eq me crit_release [OF c] by (intro exI [of _ "released (LPipe q) v"]) (simp add: with_proc_def exec_simps)
  next
    case False
    obtain w where w: "wakeup (Some (ChPipeR q)) v = Ok () w" "crit s p (LPipe q) w" "sched_st.more w = sched_st.more v"
      using crit_wakeup [OF c] by blast
    obtain t where "(sleep_in_loop (ChPipeW q) (LPipe q) w :: (_, int) outcome) = Stop Switch t" "pipes t = pipes w"
      "l_locked (locks t (LPipe q)) = 0" "p_state (procs t ! p) = SLEEPING" "p_chan (procs t ! p) = Some (ChPipeW q)"
      using pipe_sleep [OF w(2)] by blast
    then show ?thesis using False eq me w(1) pipes_of_more [OF w(3)] by (intro exI [of _ t]) (simp add: with_proc_def exec_simps)
  qed
qed

text \<open>C9. A pipe is a queue of at most 512 bytes. A write that fits is appended whole, whatever the counters have counted so
  far, and returns its count. A longer one fills the pipe; then it fails when the read end is closed or the caller was
  killed, and otherwise the writer sleeps on the pipe, with the lock released and the bytes stored in order. No other pipe changes.\<close>

theorem pipewrite_appends:
  assumes "quiet s p" "pipe_ok (pipes s q)"
  defines "old \<equiv> pipe_queue (pipes s q)"
  defines "k \<equiv> PIPESIZE - length old"
  shows "\<exists>t. pipe_ok (pipes t q) \<and> pipe_queue (pipes t q) = old @ take k bs \<and> (\<forall>r. r \<noteq> q \<longrightarrow> pipes t r = pipes s r) \<and>
    (if length bs \<le> k then pipewrite q n bs s = Ok n t \<and> quiet t p
     else if \<not> pi_readopen (pipes s q) \<or> p_killed (procs s ! p) then pipewrite q n bs s = Ok (-1) t \<and> quiet t p
     else pipewrite q n bs s = Stop Switch t \<and> l_locked (locks t (LPipe q)) = 0 \<and>
       p_state (procs t ! p) = SLEEPING \<and> p_chan (procs t ! p) = Some (ChPipeW q))"
proof -
  note e = crit_enter [OF assms(1), of "LPipe q"]
  have room: "length (pipe_queue (pipes (acquired (LPipe q) s) q)) + length (take k bs) \<le> PIPESIZE"
    using pipe_bound [OF assms(2)] by (simp add: k_def old_def)
  obtain v where v: "\<And>n cs. pipewrite_loop q n (take k bs @ cs) (acquired (LPipe q) s) = pipewrite_loop q n cs v"
    "crit s p (LPipe q) v" "pipe_ok (pipes v q)" "pipe_queue (pipes v q) = old @ take k bs"
    "procs v = procs s" "\<forall>r. r \<noteq> q \<longrightarrow> pipes v r = pipes s r" "pi_readopen (pipes v q) = pi_readopen (pipes s q)"
    using pipewrite_fill [OF e(2) _ room] assms(2) by (auto simp: old_def)
  have start: "pipewrite q n bs s = pipewrite_loop q n (drop k bs) v"
    using e(1) v(1) [of n "drop k bs"] by (simp add: pipewrite_def exec_simps)
  show ?thesis
  proof (cases "length bs \<le> k")
    case True
    then show ?thesis using pipe_finish [OF v(2), of "Some (ChPipeR q)" n] start v by auto
  next
    case False
    then obtain b cs where d: "drop k bs = b # cs" by (cases "drop k bs") auto
    have "length (pipe_queue (pipes v q)) = PIPESIZE" using False v(4) pipe_bound [OF assms(2)] by (simp add: k_def old_def)
    from pipewrite_blocked [OF v(2,3) this, of n b cs] obtain t where t: "pipes t = pipes v"
      "if \<not> pi_readopen (pipes v q) \<or> p_killed (procs v ! p) then pipewrite_loop q n (b # cs) v = Ok (-1) t \<and> quiet t p
       else pipewrite_loop q n (b # cs) v = Stop Switch t \<and> l_locked (locks t (LPipe q)) = 0 \<and>
         p_state (procs t ! p) = SLEEPING \<and> p_chan (procs t ! p) = Some (ChPipeW q)" by blast
    have "pipewrite q n bs s = pipewrite_loop q n (b # cs) v" using start d by (simp only:)
    then show ?thesis using False t v(3-7)
      by (intro exI [of _ t]) (simp del: pipewrite_loop.simps)
  qed
qed

text \<open>C10. A read takes the oldest bytes, in the order they were written, at most as many as asked for, and leaves the rest;
  with the write end closed an empty pipe gives 0, the end of file. Only on an empty pipe with a writer does the reader
  sleep, or fail when it was killed.\<close>

theorem piperead_takes:
  assumes "quiet s p" "pipe_ok (pipes s q)"
  defines "old \<equiv> pipe_queue (pipes s q)"
  shows "\<exists>t. (\<forall>r. r \<noteq> q \<longrightarrow> pipes t r = pipes s r) \<and>
    (if old \<noteq> [] \<or> \<not> pi_writeopen (pipes s q)
     then piperead q n s = Ok (int (length (take (nat n) old)), take (nat n) old) t \<and> quiet t p \<and> pipe_ok (pipes t q) \<and>
       pipe_queue (pipes t q) = drop (nat n) old
     else if p_killed (procs s ! p) then piperead q n s = Ok (-1, []) t \<and> quiet t p \<and> pipes t q = pipes s q
     else piperead q n s = Stop Switch t \<and> l_locked (locks t (LPipe q)) = 0 \<and> pipes t q = pipes s q \<and>
       p_state (procs t ! p) = SLEEPING \<and> p_chan (procs t ! p) = Some (ChPipeR q))"
proof -
  let ?a = "acquired (LPipe q) s"
  note e = crit_enter [OF assms(1), of "LPipe q"] and me = crit_proc [OF crit_enter(2) [OF assms(1), of "LPipe q"]]
  have start: "piperead q n s = piperead_wait q n ?a" using e(1) by (simp add: piperead_def exec_simps)
  have emp: "pi_nread (pipes s q) = pi_nwrite (pipes s q) \<longleftrightarrow> old = []" using pipe_empty [OF assms(2)] by (simp add: old_def)
  show ?thesis
  proof (cases "old \<noteq> [] \<or> \<not> pi_writeopen (pipes s q)")
    case True
    then have "piperead q n s = piperead_copy q (nat n) [] ?a"
      using start emp by (auto simp: piperead_wait_def exec_simps)
    then show ?thesis using True piperead_copy_run [OF e(2), of "nat n" "[]"] assms(2) by (auto simp: old_def)
  next
    case wait: False
    show ?thesis
    proof (cases "p_killed (procs s ! p)")
      case True
      then have "piperead q n s = Ok (-1, []) (released (LPipe q) ?a)"
        using start emp wait me crit_release(1) [OF e(2)] by (simp add: piperead_wait_def with_proc_def exec_simps)
      then show ?thesis using True wait crit_release(2) [OF e(2)]
        by (intro exI [of _ "released (LPipe q) ?a"]) simp
    next
      case False
      obtain t where t: "(sleep_in_loop (ChPipeR q) (LPipe q) ?a :: (_, int \<times> byte list) outcome) = Stop Switch t"
        "pipes t = pipes ?a" "l_locked (locks t (LPipe q)) = 0" "p_state (procs t ! p) = SLEEPING"
        "p_chan (procs t ! p) = Some (ChPipeR q)" using pipe_sleep [OF e(2)] by blast
      then have "piperead q n s = Stop Switch t"
        using start emp wait me False by (simp add: piperead_wait_def with_proc_def exec_simps)
      then show ?thesis using False wait t by (intro exI [of _ t]) simp
    qed
  qed
qed

text \<open>The machine of the witnesses: an empty pipe at \<open>0x80400000\<close> whose counters are about to overflow.\<close>

definition pipe0 :: pipe where
  "pipe0 = \<lparr>pi_data = replicate PIPESIZE 0, pi_nread = 4294967295, pi_nwrite = 4294967295, pi_readopen = True, pi_writeopen = True\<rparr>"

definition file0 :: file_st where
  "file0 = cons_st.extend cons0 (file_st.fields [] (\<lambda>_. pipe0))"

lemma file0_fields [simp]: "pipes file0 = (\<lambda>_. pipe0)" "procs file0 = procs cons0"
  by (simp_all add: file0_def cons_st.defs file_st.defs)

lemma quiet_file0: "quiet file0 1"
  using quiet_cons0 by (simp add: quiet_def table_ok_def on_cpu_def the_cpu_def file0_def cons_st.defs cons0_defs)

lemma pipe0_ok: "pipe_ok pipe0" "pipe_queue pipe0 = []"
  by (simp_all add: pipe_ok_def pipe_queue_def pipe0_def ring_ok_def)

theorem pipewrite_appends_witness:
  "\<exists>t. pipewrite 0x80400000 3 [1, 2, 3] file0 = Ok 3 t \<and> quiet t 1 \<and> pipe_queue (pipes t 0x80400000) = [1, 2, 3]"
  using pipewrite_appends [OF quiet_file0, where q = "0x80400000" and bs = "[1, 2, 3]" and n = "3"] pipe0_ok
  by (auto simp: PIPESIZE_def)

definition pipe1 :: pipe where
  "pipe1 = pipe_put 8 (pipe_put 7 pipe0)"

lemma pipe1_ok: "pipe_ok pipe1" "pipe_queue pipe1 = [7, 8]"
proof -
  note a = pipe_put_ok [OF pipe0_ok(1), of 7]
  have a': "pipe_ok (pipe_put 7 pipe0)" "pipe_queue (pipe_put 7 pipe0) = [7]" using a pipe0_ok by (simp_all add: PIPESIZE_def)
  show "pipe_ok pipe1" "pipe_queue pipe1 = [7, 8]"
    using pipe_put_ok [OF a'(1), of 8] a'(2) by (simp_all add: pipe1_def PIPESIZE_def)
qed

theorem piperead_takes_witness:
  "\<exists>t. piperead 0x80400000 1 (file0\<lparr>pipes := \<lambda>_. pipe1\<rparr>) = Ok (1, [7]) t \<and> pipe_queue (pipes t 0x80400000) = [8]"
proof -
  have "quiet (file0\<lparr>pipes := \<lambda>_. pipe1\<rparr>) 1" using quiet_file0 by (simp add: quiet_def on_cpu_def the_cpu_def)
  from piperead_takes [OF this, where q = "0x80400000" and n = "1"] show ?thesis by (auto simp: pipe1_ok)
qed

end
