(* ===== verification/Proc.thy ===== *)
theory Proc
  imports File
begin

text \<open>
  The life of a process in \<open>proc.c\<close>: the first process, \<open>growproc\<close>, \<open>fork\<close>, \<open>exit\<close>, \<open>wait\<close>, \<open>kill\<close>,
  \<open>forkret\<close>, and the \<open>nice\<close> call of this kernel. \<open>exit\<close> never returns, so its result type is open.
\<close>

section \<open>Operations\<close>

record proc_st = file_st +
  fork_first :: bool

text \<open>
  The code that \<open>userinit\<close>, \<open>fork\<close> and \<open>kill\<close> share under \<open>#ifndef CUSTOM_SCHEDULER\<close>: the process goes
  into the run queue of its priority; when it is there already, the caller gives the lock back
  and exits. \<open>ex\<close> stands for the call of \<open>exit()\<close>.
\<close>

definition enqueue_or_exit :: "nat \<Rightarrow> ('z ptable_st_scheme, unit) cmd \<Rightarrow> ('z ptable_st_scheme, unit) cmd" where
  "enqueue_or_exit p ex = unlessM cfg_custom (withS (\<lambda>s.
     bnd (add_process_to_queue p (p_priority (procs s ! p) - 1)) (\<lambda>res.
     if res = -1 then run [print_unable (p_pid (procs s ! p)), release LPtable, ex] else skip)))"

definition exit_files :: "nat \<Rightarrow> ('z file_st_scheme, unit) cmd" where
  "exit_files me = forM [0..<NOFILE] (\<lambda>fd. withS (\<lambda>s. case p_ofile (procs s ! me) ! fd of
     None \<Rightarrow> skip
   | Some f \<Rightarrow> run [fileclose f, upd_proc me (\<lambda>x. x\<lparr>p_ofile := (p_ofile x)[fd := None]\<rparr>)]))"

definition exit_cwd :: "nat \<Rightarrow> ('z file_st_scheme, unit) cmd" where
  "exit_cwd me = run
     [begin_op,
      withS (\<lambda>s. case p_cwd (procs s ! me) of None \<Rightarrow> undef ''iput(proc->cwd)'' | Some d \<Rightarrow> iput d),
      end_op,
      upd_proc me (\<lambda>x. x\<lparr>p_cwd := None\<rparr>)]"

text \<open>Passing the children of \<open>me\<close> to \<open>initproc\<close>.\<close>

definition reparent_body :: "nat \<Rightarrow> nat \<Rightarrow> ('z ptable_st_scheme, unit) cmd" where
  "reparent_body me p = whenM (\<lambda>s. p_parent (procs s ! p) = Some me) (run
     [withS (\<lambda>s. upd_proc p (\<lambda>x. x\<lparr>p_parent := initproc s\<rparr>)),
      withS (\<lambda>s. if p_state (procs s ! p) = ZOMBIE then wakeup1 (map_option ChProc (initproc s)) else skip)])"

definition reparent :: "nat \<Rightarrow> ('z ptable_st_scheme, unit) cmd" where
  "reparent me = forM [0..<NPROC] (reparent_body me)"

definition exit :: "('z file_st_scheme, 'a) cmd" where
  "exit = with_proc (\<lambda>me. andthen
     [panic_if (\<lambda>s. initproc s = Some me) ''init exiting'',
      exit_files me,
      exit_cwd me,
      acquire LPtable,
      withS (\<lambda>s. wakeup1 (map_option ChProc (p_parent (procs s ! me)))),
      reparent me,
      upd_proc me (\<lambda>x. x\<lparr>p_state := ZOMBIE\<rparr>),
      sched]
     (panic ''zombie exit''))"

text \<open>\<open>userinit\<close>; the image of \<open>initcode\<close> is linked at address \<open>init\<close> with size \<open>sz\<close>.\<close>

definition userinit :: "nat \<Rightarrow> nat \<Rightarrow> ('z file_st_scheme, unit) cmd" where
  "userinit init sz = bnd allocproc (\<lambda>r.
     bnd (modify (\<lambda>s. s\<lparr>initproc := r\<rparr>)) (\<lambda>_.
     case r of None \<Rightarrow> undef ''p->pgdir''
     | Some p \<Rightarrow> bnd setupkvm (\<lambda>d.
         bnd (upd_proc p (\<lambda>x. x\<lparr>p_pgdir := d\<rparr>)) (\<lambda>_.
         if d = 0 then panic ''userinit: out of memory?'' else
         bnd (inituvm d init sz) (\<lambda>_.
         bnd (withS (\<lambda>s. let tf = p_tf (procs s ! p); cs = or (push_bit 3 SEG_UCODE) DPL_USER;
                              ds = or (push_bit 3 SEG_UDATA) DPL_USER in run
           [upd_proc p (\<lambda>x. x\<lparr>p_sz := PGSIZE\<rparr>),
            upd_mem (\<lambda>m. memset m tf 0 TF_SIZE),
            upd_mem (\<lambda>m. wr16 m (tf + TF_CS) cs),
            upd_mem (\<lambda>m. wr16 m (tf + TF_DS) ds),
            upd_mem (\<lambda>m. wr16 m (tf + TF_ES) ds),
            upd_mem (\<lambda>m. wr16 m (tf + TF_SS) ds),
            upd_mem (\<lambda>m. wr32 m (tf + TF_EFLAGS) FL_IF),
            upd_mem (\<lambda>m. wr32 m (tf + TF_ESP) PGSIZE),
            upd_mem (\<lambda>m. wr32 m (tf + TF_EIP) 0),
            upd_proc p (\<lambda>x. x\<lparr>p_name := ''initcode''\<rparr>)])) (\<lambda>_.
         bnd (namei [slash]) (\<lambda>ip. run
           [upd_proc p (\<lambda>x. x\<lparr>p_cwd := ip\<rparr>),
            acquire LPtable,
            upd_proc p (\<lambda>x. x\<lparr>p_state := RUNNABLE\<rparr>),
            enqueue_or_exit p exit,
            release LPtable])))))))"

definition growproc :: "int \<Rightarrow> ('z file_st_scheme, int) cmd" where
  "growproc n = with_proc (\<lambda>me. withS (\<lambda>s. let sz = p_sz (procs s ! me); d = p_pgdir (procs s ! me) in
     bnd (if 0 < n then allocuvm d sz (u32_of (int sz + n))
          else if n < 0 then deallocuvm d sz (u32_of (int sz + n)) else ret sz) (\<lambda>sz'.
     if n \<noteq> 0 \<and> sz' = 0 then ret (-1)
     else andthen [upd_proc me (\<lambda>x. x\<lparr>p_sz := sz'\<rparr>), switchuvm me] (ret 0))))"

text \<open>The part of \<open>fork\<close> after the address space was copied.\<close>

definition fork_files :: "nat \<Rightarrow> nat \<Rightarrow> ('z file_st_scheme, unit) cmd" where
  "fork_files me np = forM [0..<NOFILE] (\<lambda>i. withS (\<lambda>s. case p_ofile (procs s ! me) ! i of
     None \<Rightarrow> skip
   | Some f \<Rightarrow> bnd (filedup f) (\<lambda>f'. upd_proc np (\<lambda>x. x\<lparr>p_ofile := (p_ofile x)[i := Some f']\<rparr>))))"

definition fork_child :: "nat \<Rightarrow> nat \<Rightarrow> ('z file_st_scheme, int) cmd" where
  "fork_child me np = bnd (run
     [withS (\<lambda>s. upd_proc np (\<lambda>x. x\<lparr>p_sz := p_sz (procs s ! me)\<rparr>)),
      upd_proc np (\<lambda>x. x\<lparr>p_parent := Some me\<rparr>),
      withS (\<lambda>s. upd_mem (\<lambda>m. memmove m (p_tf (procs s ! np)) (p_tf (procs s ! me)) TF_SIZE)),
      withS (\<lambda>s. upd_mem (\<lambda>m. wr32 m (p_tf (procs s ! np) + TF_EAX) 0)),
      fork_files me np,
      withS (\<lambda>s. case p_cwd (procs s ! me) of None \<Rightarrow> undef ''idup(proc->cwd)''
        | Some d \<Rightarrow> bnd (idup d) (\<lambda>d'. upd_proc np (\<lambda>x. x\<lparr>p_cwd := Some d'\<rparr>))),
      withS (\<lambda>s. upd_proc np (\<lambda>x. x\<lparr>p_name := take 15 (p_name (procs s ! me))\<rparr>))]) (\<lambda>_.
     bnd (gets (\<lambda>s. p_pid (procs s ! np))) (\<lambda>pid. andthen
     [acquire LPtable,
      upd_proc np (\<lambda>x. x\<lparr>p_state := RUNNABLE\<rparr>),
      enqueue_or_exit np exit,
      release LPtable]
     (ret pid)))"

definition fork :: "('z file_st_scheme, int) cmd" where
  "fork = bnd allocproc (\<lambda>r. case r of
     None \<Rightarrow> ret (-1)
   | Some np \<Rightarrow> with_proc (\<lambda>me.
       bnd (withS (\<lambda>s. copyuvm (p_pgdir (procs s ! me)) (p_sz (procs s ! me)))) (\<lambda>d.
       bnd (upd_proc np (\<lambda>x. x\<lparr>p_pgdir := d\<rparr>)) (\<lambda>_.
       if d = 0 then andthen
         [withS (\<lambda>s. kfree (p_kstack (procs s ! np))),
          upd_proc np (\<lambda>x. x\<lparr>p_kstack := 0\<rparr>),
          upd_proc np (\<lambda>x. x\<lparr>p_state := UNUSED\<rparr>)]
         (ret (-1))
       else fork_child me np))))"

definition wait_reap :: "nat \<Rightarrow> ('z ptable_st_scheme, int) cmd" where
  "wait_reap p = bnd (gets (\<lambda>s. p_pid (procs s ! p))) (\<lambda>pid. andthen
     [withS (\<lambda>s. kfree (p_kstack (procs s ! p))),
      upd_proc p (\<lambda>x. x\<lparr>p_kstack := 0\<rparr>),
      withS (\<lambda>s. freevm (p_pgdir (procs s ! p))),
      upd_proc p (\<lambda>x. x\<lparr>p_pid := 0\<rparr>),
      upd_proc p (\<lambda>x. x\<lparr>p_parent := None\<rparr>),
      upd_proc p (\<lambda>x. x\<lparr>p_name := []\<rparr>),
      upd_proc p (\<lambda>x. x\<lparr>p_killed := False\<rparr>),
      upd_proc p (\<lambda>x. x\<lparr>p_state := UNUSED\<rparr>),
      unlessM cfg_custom (withS (\<lambda>s. call (remove_process_from_queue p (p_priority (procs s ! p) - 1)))),
      release LPtable]
     (ret pid))"

definition wait_scan :: "('z ptable_st_scheme, int) cmd" where
  "wait_scan = with_proc (\<lambda>me. withS (\<lambda>s.
     case first_idx (\<lambda>p. p_parent p = Some me \<and> p_state p = ZOMBIE) (procs s) of
       Some p \<Rightarrow> wait_reap p
     | None \<Rightarrow>
         if first_idx (\<lambda>p. p_parent p = Some me) (procs s) = None \<or> p_killed (procs s ! me)
         then andthen [release LPtable] (ret (-1))
         else sleep_in_loop (ChProc me) LPtable))"

definition wait :: "('z ptable_st_scheme, int) cmd" where
  "wait = andthen [acquire LPtable] wait_scan"

definition wait_return :: "nat \<Rightarrow> ('z ptable_st_scheme, int) cmd" where
  "wait_return intena = andthen [sleep_return LPtable intena] wait_scan"

definition forkret :: "('z proc_st_scheme, unit) cmd" where
  "forkret = run
     [release LPtable,
      whenM fork_first (run [modify (\<lambda>s. s\<lparr>fork_first := False\<rparr>), iinit ROOTDEV, initlog ROOTDEV])]"

definition kill :: "int \<Rightarrow> ('z file_st_scheme, int) cmd" where
  "kill pid = bnd (acquire LPtable) (\<lambda>_. withS (\<lambda>s.
     case first_idx (\<lambda>p. p_pid p = pid) (procs s) of
       None \<Rightarrow> andthen [release LPtable] (ret (-1))
     | Some p \<Rightarrow> andthen
         [upd_proc p (\<lambda>x. x\<lparr>p_killed := True\<rparr>),
          whenM (\<lambda>s. p_state (procs s ! p) = SLEEPING) (upd_proc p (\<lambda>x. x\<lparr>p_state := RUNNABLE\<rparr>)),
          enqueue_or_exit p exit,
          release LPtable]
         (ret 0)))"

definition nice :: "int \<Rightarrow> int \<Rightarrow> ('z file_st_scheme, int) cmd" where
  "nice pid priority =
     bnd (if priority < 1 \<or> 5 < priority then
            run [cprintf ''Error: Priority not within range(1-5)\<newline>'' [], exit] else skip) (\<lambda>_.
     bnd (acquire LPtable) (\<lambda>_. withS (\<lambda>s.
     case first_idx (\<lambda>p. p_pid p = pid) (procs s) of
       None \<Rightarrow> andthen [release LPtable, cprintf ''No process with Pid=%d\<newline>'' [PInt pid]] exit
     | Some p \<Rightarrow> bnd (release LPtable) (\<lambda>_.
         bnd (gets (\<lambda>s. p_priority (procs s ! p))) (\<lambda>old_priority. andthen
         [upd_proc p (\<lambda>x. x\<lparr>p_priority := priority\<rparr>),
          call (remove_process_from_queue p old_priority),
          call (add_process_to_queue p priority)]
         (ret (pid * MOD + old_priority)))))))"


section \<open>What \<open>nice\<close> does to the run queues\<close>

lemma q_ok_procs [simp]: "q_ok (s\<lparr>procs := (procs s)[i := x]\<rparr>) = q_ok s"
  by (simp add: q_ok_def row_ok_def queue_def)

lemma q_ok_lock [simp]: "q_ok (acquired lk s) = q_ok s" "q_ok (released lk s) = q_ok s"
  by (simp_all add: q_ok_def row_ok_def queue_def acquired_def released_def)

lemma q_out_of_bounds:
  "int PLEVELS \<le> pr \<Longrightarrow> add_process_to_queue p pr s = Stop (Undef ''marker[pr]'') s"
  "int PLEVELS \<le> pr \<Longrightarrow> remove_process_from_queue p pr s = Stop (Undef ''marker[pr]'') s"
  by (simp_all add: add_process_to_queue_def remove_process_from_queue_def exec_simps)

text \<open>The rows after a removal from row \<open>old\<close>, and after an addition to row \<open>pr\<close> that follows it.\<close>

definition row_removed :: "(nat \<Rightarrow> int) \<Rightarrow> nat \<Rightarrow> nat \<Rightarrow> (nat \<Rightarrow> nat list) \<Rightarrow> nat \<Rightarrow> nat list" where
  "row_removed pids i old q = q(old := spec_remove pids i (q old))"

definition row_added :: "(nat \<Rightarrow> int) \<Rightarrow> nat \<Rightarrow> nat \<Rightarrow> (nat \<Rightarrow> nat list) \<Rightarrow> nat \<Rightarrow> nat list" where
  "row_added pids i pr q = q(pr := spec_add pids i (q pr))"

lemma remove_row_run:
  assumes "q_ok u" "i < NPROC" "0 \<le> old" "old < int PLEVELS"
  shows "\<exists>a v. remove_process_from_queue i old u = Ok a v \<and> q_ok v \<and> procs v = procs u \<and>
    queue v = row_removed (pid_of u) i (nat old) (queue u)"
proof -
  have n: "nat old < PLEVELS" "int (nat old) = old" using assms by auto
  from pq.remove_spec [OF assms(1,2) n(1)] obtain a v where v: "remove_process_from_queue i old u = Ok a v" "q_ok v"
    "queue v (nat old) = spec_remove (pid_of u) i (queue u (nat old))" "\<forall>k. k \<noteq> nat old \<longrightarrow> queue v k = queue u k"
    using n by auto
  have "procs v = procs u" using v(1) remove_process_run [OF assms(1) n(1), of i] n by (auto split: option.splits)
  then show ?thesis using v by (auto simp: row_removed_def)
qed

lemma add_row_run:
  assumes "q_ok u" "i < NPROC" "0 \<le> pr" "pr < int PLEVELS"
  shows "\<exists>a v. add_process_to_queue i pr u = Ok a v \<and> procs v = procs u \<and> queue v = row_added (pid_of u) i (nat pr) (queue u)"
proof -
  have n: "nat pr < PLEVELS" "int (nat pr) = pr" using assms by auto
  from pq.add_spec [OF assms(1,2) n(1)] obtain a v where v: "add_process_to_queue i pr u = Ok a v"
    "queue v (nat pr) = spec_add (pid_of u) i (queue u (nat pr))" "\<forall>k. k \<noteq> nat pr \<longrightarrow> queue v k = queue u k"
    using n by auto
  have "procs v = procs u" using v(1) add_process_present [OF assms(1) n(1), of i] add_process_fresh [OF assms(1) n(1), of i] assms(2) n(2)
    by (cases "\<exists>r\<in>set (queue u (nat pr)). pid_of u r = pid_of u i") (auto simp: enq_st_def)
  then show ?thesis using v by (auto simp: row_added_def)
qed

lemma nice_start:
  assumes q: "quiet s p" and f: "first_idx (\<lambda>x. p_pid x = pid) (procs s) = Some i" and pr: "1 \<le> pr" "pr \<le> 5"
  defines "u \<equiv> released LPtable (acquired LPtable s)"
  shows "nice pid pr s = andthen [call (remove_process_from_queue i (p_priority (procs s ! i))), call (add_process_to_queue i pr)]
      (ret (pid * MOD + p_priority (procs s ! i))) (u\<lparr>procs := (procs s)[i := (procs s ! i)\<lparr>p_priority := pr\<rparr>]\<rparr>)"
  using crit_enter(1) [OF q, of LPtable] crit_release(1) [OF crit_enter(2) [OF q, of LPtable]] f pr
  by (simp add: nice_def exec_simps upd_proc_def u_def)

text \<open>C26. What \<open>nice\<close> does, and that it uses the wrong rows. It sets the priority, takes the process off the row whose index is
  the old priority, and appends it to the row whose index is the new one, whereas every other part of the scheduler keeps a process of
  priority \<open>n\<close> in row \<open>n - 1\<close>. So the process stays in the row where it was, and is listed in that of the next lower priority.
  With the old priority 5 the removal, and with the new one 5 the addition after the removal, leaves the array of the five rows.\<close>

theorem nice_one_row_off:
  assumes "quiet s p" "q_ok s" "first_idx (\<lambda>x. p_pid x = pid) (procs s) = Some i"
    "1 \<le> pr" "pr \<le> 5" "1 \<le> p_priority (procs s ! i)" "p_priority (procs s ! i) \<le> 5"
  defines "old \<equiv> p_priority (procs s ! i)"
  shows "\<exists>t. procs t = (procs s)[i := (procs s ! i)\<lparr>p_priority := pr\<rparr>] \<and>
    (if old = 5 then nice pid pr s = Stop (Undef ''marker[pr]'') t \<and> queue t = queue s
     else if pr = 5 then nice pid pr s = Stop (Undef ''marker[pr]'') t \<and> queue t = row_removed (pid_of s) i (nat old) (queue s)
     else nice pid pr s = Ok (pid * MOD + old) t \<and>
       queue t = row_added (pid_of s) i (nat pr) (row_removed (pid_of s) i (nat old) (queue s)) \<and>
       set (queue s (nat old - 1)) \<subseteq> set (queue t (nat old - 1)))"
proof -
  let ?u = "(released LPtable (acquired LPtable s))\<lparr>procs := (procs s)[i := (procs s ! i)\<lparr>p_priority := pr\<rparr>]\<rparr>"
  note start = nice_start [OF assms(1,3-5), folded old_def]
  have i: "i < NPROC" using first_idx_Some [OF assms(3)] assms(2) by (auto simp: q_ok_def)
  have ok: "q_ok ?u" using assms(2) q_ok_procs [of "released LPtable (acquired LPtable s)" i] by simp
  have "pid_of ?u k = pid_of s k" for k
    by (cases "k = i \<and> i < length (procs s)") (auto simp: pid_of_def nth_list_update')
  then have pid: "pid_of ?u = pid_of s" by blast
  have qu: "queue ?u = queue s" by (simp add: queue_frame)
  have old: "1 \<le> old" "old \<le> 5" using assms(6,7) by (simp_all add: old_def)
  show ?thesis
  proof (cases "old = 5")
    case True
    then show ?thesis using start q_out_of_bounds(2) [of old i ?u] qu
      by (intro exI [of _ ?u]) (simp add: exec_simps call_def PLEVELS_def)
  next
    case False
    with remove_row_run [OF ok i, of old] old obtain a v where v: "remove_process_from_queue i old ?u = Ok a v" "q_ok v"
      "procs v = procs ?u" "queue v = row_removed (pid_of s) i (nat old) (queue s)" by (auto simp: PLEVELS_def pid qu)
    have pv: "pid_of v = pid_of s" using v(3) pid by (simp add: pid_of_def fun_eq_iff)
    show ?thesis
    proof (cases "pr = 5")
      case True
      then show ?thesis using False v start q_out_of_bounds(1) [of pr i v]
        by (intro exI [of _ v]) (simp add: exec_simps call_def PLEVELS_def)
    next
      case pr: False
      with add_row_run [OF v(2) i, of pr] assms(4,5) obtain b t where t: "add_process_to_queue i pr v = Ok b t" "procs t = procs v"
        "queue t = row_added (pid_of s) i (nat pr) (queue v)" by (auto simp: PLEVELS_def pv)
      have "set (queue s (nat old - 1)) \<subseteq> set (queue t (nat old - 1))"
        using old(1) unfolding t(3) v(4) row_added_def row_removed_def by (auto simp: spec_add_def)
      then show ?thesis using False pr v t start by (intro exI [of _ t]) (simp add: exec_simps call_def)
    qed
  qed
qed

text \<open>The witness: the running process, of pid 2 and priority 3, asks for priority 5.\<close>

lemma q_ok_file0: "q_ok file0"
  using sched_inv_busy0 q_ok_ptable0 by (simp add: sched_inv_except_def q_ok_def row_ok_def queue_def file0_def cons_st.defs cons0_defs bio0_def)

theorem nice_one_row_off_witness:
  "\<exists>t. nice 2 5 file0 = Stop (Undef ''marker[pr]'') t \<and> p_priority (procs t ! 1) = 5"
proof -
  have p: "procs file0 = procs busy0" by (simp add: cons0_defs bio0_def)
  have "replicate NPROC proc0 = replicate (Suc (Suc (Suc (Suc 60)))) proc0" by (simp add: NPROC_def)
  also have "\<dots> = proc0 # proc0 # proc0 # proc0 # replicate 60 proc0" by (simp only: replicate_Suc)
  finally have "first_idx (\<lambda>x. p_pid x = 2) (procs file0) = Some 1" "p_priority (procs file0 ! 1) = 3"
    unfolding p by (simp_all add: busy0_def numeral_2_eq_2 numeral_3_eq_3)
  moreover have "1 < length (procs file0)" unfolding p by (simp add: busy0_def NPROC_def)
  ultimately show ?thesis using nice_one_row_off [OF quiet_file0 q_ok_file0, where pid = "2" and pr = "5" and i = "1"] by auto
qed

end
