(* ===== verification/Exec.thy ===== *)
theory Exec
  imports Proc
begin

text \<open>
  User memory as the kernel sees it while a process runs, the argument fetching of \<open>syscall.c\<close>, and
  \<open>exec\<close> with \<open>loaduvm\<close>. The kernel follows user pointers through the page table of the current
  process; an address that is not mapped faults inside the kernel, which \<open>trap()\<close> turns into
  \<open>panic("trap")\<close>.
\<close>

section \<open>User memory\<close>

definition ua2ka :: "memory \<Rightarrow> nat \<Rightarrow> nat \<Rightarrow> nat option" where
  "ua2ka m pgdir va = (let pde = rd32 m (pgdir + 4 * PDX va) in
     if and pde PTE_P = 0 then None
     else (let pte = rd32 m (P2V (PTE_ADDR pde) + 4 * PTX va) in
       if and pte PTE_P = 0 then None else Some (P2V (PTE_ADDR pte) + va mod PGSIZE)))"

definition my_pgdir :: "'z ptable_st_scheme \<Rightarrow> nat \<Rightarrow> nat" where
  "my_pgdir s me = p_pgdir (procs s ! me)"

definition uload :: "nat \<Rightarrow> ('z ptable_st_scheme, byte) cmd" where
  "uload va = with_proc (\<lambda>me. withS (\<lambda>s. case ua2ka (mem s) (my_pgdir s me) va of
     None \<Rightarrow> panic ''trap'' | Some a \<Rightarrow> ret (mem s a)))"

primrec uload_list :: "nat \<Rightarrow> nat \<Rightarrow> ('z ptable_st_scheme, byte list) cmd" where
  "uload_list va 0 = ret []"
| "uload_list va (Suc n) = bnd (uload va) (\<lambda>b. bnd (uload_list (va + 1) n) (\<lambda>bs. ret (b # bs)))"

definition ustore :: "nat \<Rightarrow> byte \<Rightarrow> ('z ptable_st_scheme, unit) cmd" where
  "ustore va b = with_proc (\<lambda>me. withS (\<lambda>s. case ua2ka (mem s) (my_pgdir s me) va of
     None \<Rightarrow> panic ''trap'' | Some a \<Rightarrow> upd_mem (\<lambda>m. m(a := b))))"

primrec ustore_list :: "nat \<Rightarrow> byte list \<Rightarrow> ('z ptable_st_scheme, unit) cmd" where
  "ustore_list va [] = skip"
| "ustore_list va (b # bs) = bnd (ustore va b) (\<lambda>_. ustore_list (va + 1) bs)"

definition le_bytes :: "nat \<Rightarrow> nat \<Rightarrow> byte list" where
  "le_bytes k v = map (\<lambda>i. word_of_nat (v div 256 ^ i)) [0..<k]"

section \<open>System call arguments\<close>

text \<open>\<open>None\<close> stands for the result \<open>-1\<close>.\<close>

definition fetchint :: "nat \<Rightarrow> ('z ptable_st_scheme, int option) cmd" where
  "fetchint addr = with_proc (\<lambda>me. withS (\<lambda>s. let sz = p_sz (procs s ! me) in
     if sz \<le> addr \<or> sz < u32 (addr + 4) then ret None
     else bnd (uload_list addr 4) (\<lambda>bs. ret (Some (s32 (rd32 (mem_of bs) 0))))))"

text \<open>The loop of \<open>fetchstr\<close>: the characters up to the NUL, if one comes before the end of the process.\<close>

primrec fetchstr_loop :: "nat \<Rightarrow> nat \<Rightarrow> ('z ptable_st_scheme, byte list option) cmd" where
  "fetchstr_loop s 0 = ret None"
| "fetchstr_loop s (Suc n) = bnd (uload s) (\<lambda>b.
     if b = 0 then ret (Some []) else bnd (fetchstr_loop (s + 1) n) (\<lambda>r. ret (map_option ((#) b) r)))"

definition fetchstr :: "nat \<Rightarrow> ('z ptable_st_scheme, byte list option) cmd" where
  "fetchstr addr = with_proc (\<lambda>me. withS (\<lambda>s. let sz = p_sz (procs s ! me) in
     if sz \<le> addr then ret None else fetchstr_loop addr (sz - addr)))"

definition argint :: "nat \<Rightarrow> ('z ptable_st_scheme, int option) cmd" where
  "argint n = with_proc (\<lambda>me. withS (\<lambda>s. fetchint (u32 (rd32 (mem s) (p_tf (procs s ! me) + TF_ESP) + 4 + 4 * n))))"

definition argptr :: "nat \<Rightarrow> int \<Rightarrow> ('z ptable_st_scheme, nat option) cmd" where
  "argptr n len = bnd (argint n) (\<lambda>r. case r of None \<Rightarrow> ret None | Some i \<Rightarrow>
     with_proc (\<lambda>me. withS (\<lambda>s. let sz = p_sz (procs s ! me) in
       if len < 0 \<or> sz \<le> u32_of i \<or> sz < u32_of (int (u32_of i) + len) then ret None
       else ret (Some (u32_of i)))))"

definition argstr :: "nat \<Rightarrow> ('z ptable_st_scheme, byte list option) cmd" where
  "argstr n = bnd (argint n) (\<lambda>r. case r of None \<Rightarrow> ret None | Some addr \<Rightarrow> fetchstr (u32_of addr))"

section \<open>Loading a program\<close>

function loaduvm_loop :: "nat \<Rightarrow> nat \<Rightarrow> nat \<Rightarrow> nat \<Rightarrow> nat \<Rightarrow> nat \<Rightarrow> ('z cons_st_scheme, int) cmd" where
  "loaduvm_loop pgdir addr ip off sz i =
     (if i < sz then
        bnd (walkpgdir pgdir (u32 (addr + i)) False) (\<lambda>pte.
        if pte = 0 then panic ''loaduvm: address should exist''
        else bnd (gets (\<lambda>s. PTE_ADDR (rd32 (mem s) pte))) (\<lambda>pa.
        let n = min (sz - i) PGSIZE in
        bnd (readi ip (u32 (off + i)) n) (\<lambda>(r, bs).
        bnd (upd_mem (\<lambda>m. mem_store m (P2V pa) bs)) (\<lambda>_.
        if r \<noteq> int n then ret (-1) else loaduvm_loop pgdir addr ip off sz (i + PGSIZE)))))
      else ret 0)"
  by pat_completeness auto
termination by (relation "measure (\<lambda>(pgdir, addr, ip, off, sz, i). sz - i)") (auto simp: PGSIZE_def)

declare loaduvm_loop.simps [simp del]

definition loaduvm :: "nat \<Rightarrow> nat \<Rightarrow> nat \<Rightarrow> nat \<Rightarrow> nat \<Rightarrow> ('z cons_st_scheme, int) cmd" where
  "loaduvm pgdir addr ip off sz =
     bnd (panic_if (\<lambda>_. addr mod PGSIZE \<noteq> 0) ''loaduvm: addr must be page aligned'')
       (\<lambda>_. loaduvm_loop pgdir addr ip off sz 0)"

definition ELF_MAGIC :: nat where "ELF_MAGIC = 0x464C457F"
definition ELF_PROG_LOAD :: nat where "ELF_PROG_LOAD = 1"
definition ELFHDR_SIZE :: nat where "ELFHDR_SIZE = 52"
definition PROGHDR_SIZE :: nat where "PROGHDR_SIZE = 32"
definition MAXARG :: nat where "MAXARG = 32"

record elfhdr =
  e_magic :: nat
  e_entry :: nat
  e_phoff :: nat
  e_phnum :: nat

record proghdr =
  ph_type :: nat
  ph_off :: nat
  ph_vaddr :: nat
  ph_filesz :: nat
  ph_memsz :: nat

definition elfhdr_of :: "byte list \<Rightarrow> elfhdr" where
  "elfhdr_of bs = (let m = mem_of bs in
     \<lparr>e_magic = rd32 m 0, e_entry = rd32 m 24, e_phoff = rd32 m 28, e_phnum = rd16 m 44\<rparr>)"

definition proghdr_of :: "byte list \<Rightarrow> proghdr" where
  "proghdr_of bs = (let m = mem_of bs in
     \<lparr>ph_type = rd32 m 0, ph_off = rd32 m 4, ph_vaddr = rd32 m 8, ph_filesz = rd32 m 16, ph_memsz = rd32 m 20\<rparr>)"

text \<open>The exits of \<open>exec\<close> through \<open>bad\<close>, before and after the inode was put.\<close>

definition exec_bad :: "nat \<Rightarrow> nat option \<Rightarrow> ('z file_st_scheme, int) cmd" where
  "exec_bad pgdir ip = andthen
     [if pgdir \<noteq> 0 then freevm pgdir else skip,
      case ip of None \<Rightarrow> skip | Some i \<Rightarrow> run [iunlockput i, end_op]]
     (ret (-1))"

text \<open>The loop over the program headers: the size reached, or \<open>None\<close> for \<open>goto bad\<close>.\<close>

primrec exec_segs :: "nat \<Rightarrow> nat \<Rightarrow> nat \<Rightarrow> nat \<Rightarrow> nat \<Rightarrow> ('z file_st_scheme, nat option) cmd" where
  "exec_segs ip pgdir 0 off sz = ret (Some sz)"
| "exec_segs ip pgdir (Suc k) off sz =
     bnd (readi ip off PROGHDR_SIZE) (\<lambda>(r, bs). let ph = proghdr_of bs in
     if r \<noteq> int PROGHDR_SIZE then ret None
     else if ph_type ph \<noteq> ELF_PROG_LOAD then exec_segs ip pgdir k (u32 (off + PROGHDR_SIZE)) sz
     else if ph_memsz ph < ph_filesz ph then ret None
     else if u32 (ph_vaddr ph + ph_memsz ph) < ph_vaddr ph then ret None
     else bnd (allocuvm pgdir sz (u32 (ph_vaddr ph + ph_memsz ph))) (\<lambda>sz'.
     if sz' = 0 then ret None
     else if ph_vaddr ph mod PGSIZE \<noteq> 0 then ret None
     else bnd (loaduvm pgdir (ph_vaddr ph) ip (ph_off ph) (ph_filesz ph)) (\<lambda>r.
     if r < 0 then ret None else exec_segs ip pgdir k (u32 (off + PROGHDR_SIZE)) sz')))"

text \<open>
  Pushing the argument strings: the stack pointer and the addresses of the strings, or \<open>None\<close> for
  \<open>goto bad\<close>. The address mask \<open>~3\<close> clears the two lowest bits.
\<close>

primrec exec_args :: "nat \<Rightarrow> byte list list \<Rightarrow> nat \<Rightarrow> nat list \<Rightarrow> ('z file_st_scheme, (nat \<times> nat list) option) cmd" where
  "exec_args pgdir [] sp us = ret (Some (sp, us))"
| "exec_args pgdir (a # as) sp us =
     (if MAXARG \<le> length us then ret None
      else (let sp' = u32_of (int sp - (int (length a) + 1)) div 4 * 4 in
        bnd (copyout pgdir sp' (a @ [0])) (\<lambda>r.
        if r < 0 then ret None else exec_args pgdir as sp' (us @ [sp']))))"

definition basename :: "byte list \<Rightarrow> byte list" where
  "basename path = rev (takeWhile (\<lambda>c. c \<noteq> slash) (rev path))"

definition exec_commit :: "byte list \<Rightarrow> nat \<Rightarrow> nat \<Rightarrow> nat \<Rightarrow> nat \<Rightarrow> ('z file_st_scheme, int) cmd" where
  "exec_commit path pgdir sz entry sp = with_proc (\<lambda>me. withS (\<lambda>s.
     let oldpgdir = p_pgdir (procs s ! me); tf = p_tf (procs s ! me) in andthen
     [upd_proc me (\<lambda>x. x\<lparr>p_name := map (char_of \<circ> unat) (take 15 (basename path))\<rparr>),
      upd_proc me (\<lambda>x. x\<lparr>p_pgdir := pgdir\<rparr>),
      upd_proc me (\<lambda>x. x\<lparr>p_sz := sz\<rparr>),
      upd_mem (\<lambda>m. wr32 m (tf + TF_EIP) entry),
      upd_mem (\<lambda>m. wr32 m (tf + TF_ESP) sp),
      switchuvm me,
      freevm oldpgdir]
     (ret 0)))"

text \<open>The second half of \<open>exec\<close>: the stack of the new image.\<close>

definition exec_stack :: "byte list \<Rightarrow> byte list list \<Rightarrow> nat \<Rightarrow> nat \<Rightarrow> nat \<Rightarrow> ('z file_st_scheme, int) cmd" where
  "exec_stack path argv pgdir entry sz0 = (let sz1 = PGROUNDUP sz0 in
     bnd (allocuvm pgdir sz1 (u32 (sz1 + 2 * PGSIZE))) (\<lambda>sz.
     if sz = 0 then exec_bad pgdir None
     else bnd (clearpteu pgdir (sz - 2 * PGSIZE)) (\<lambda>_.
     bnd (exec_args pgdir argv sz []) (\<lambda>r. case r of None \<Rightarrow> exec_bad pgdir None
     | Some (sp, us) \<Rightarrow>
         (let argc = length us;
              ustack = [0xffffffff, argc, u32_of (int sp - (int argc + 1) * 4)] @ us @ [0];
              sp' = u32_of (int sp - (3 + int argc + 1) * 4) in
          bnd (copyout pgdir sp' (concat (map (le_bytes 4) ustack))) (\<lambda>r.
          if r < 0 then exec_bad pgdir None else exec_commit path pgdir sz entry sp'))))))"

text \<open>
  The test of the header compares the \<open>int\<close> that \<open>readi\<close> returns with the unsigned \<open>sizeof(elf)\<close>, so
  that the error value \<open>-1\<close> passes it and the header is read uninitialised.
\<close>

definition exec :: "byte list \<Rightarrow> byte list list \<Rightarrow> ('z file_st_scheme, int) cmd" where
  "exec path argv = bnd begin_op (\<lambda>_. bnd (namei path) (\<lambda>r. case r of
     None \<Rightarrow> andthen [end_op] (ret (-1))
   | Some ip \<Rightarrow> bnd (ilock ip) (\<lambda>_. bnd (readi ip 0 ELFHDR_SIZE) (\<lambda>(r, bs).
       if u32_of r < ELFHDR_SIZE then exec_bad 0 (Some ip)
       else if r < 0 then undef ''elf.magic''
       else (let elf = elfhdr_of bs in
         if e_magic elf \<noteq> ELF_MAGIC then exec_bad 0 (Some ip)
         else bnd setupkvm (\<lambda>pgdir.
           if pgdir = 0 then exec_bad 0 (Some ip)
           else bnd (exec_segs ip pgdir (e_phnum elf) (e_phoff elf) 0) (\<lambda>r. case r of
               None \<Rightarrow> exec_bad pgdir (Some ip)
             | Some sz \<Rightarrow> andthen [iunlockput ip, end_op] (exec_stack path argv pgdir (e_entry elf) sz))))))))"


section \<open>The arguments of a system call stay inside the process\<close>

text \<open>
  \<open>user_image s me\<close>: process \<open>me\<close> runs, its image ends below the kernel, and every page of it is mapped.
\<close>

definition user_image :: "'z ptable_st_scheme \<Rightarrow> nat \<Rightarrow> bool" where
  "user_image s me \<longleftrightarrow> c_proc (the_cpu s) = Some me \<and> p_sz (procs s ! me) \<le> KERNBASE \<and>
     (\<forall>va<p_sz (procs s ! me). ua2ka (mem s) (my_pgdir s me) va \<noteq> None)"

definition ubyte :: "'z ptable_st_scheme \<Rightarrow> nat \<Rightarrow> nat \<Rightarrow> byte" where
  "ubyte s me va = (case ua2ka (mem s) (my_pgdir s me) va of Some a \<Rightarrow> mem s a | None \<Rightarrow> 0)"

lemma with_proc_image: "user_image s me \<Longrightarrow> with_proc f s = f me s"
  by (simp add: user_image_def with_proc_def exec_simps)

lemma uload_image:
  "user_image s me \<Longrightarrow> va < p_sz (procs s ! me) \<Longrightarrow> uload va s = Ok (ubyte s me va) s"
  by (cases "ua2ka (mem s) (my_pgdir s me) va")
    (auto simp: uload_def with_proc_image exec_simps ubyte_def, auto simp: user_image_def)

lemma uload_list_image:
  "user_image s me \<Longrightarrow> va + n \<le> p_sz (procs s ! me) \<Longrightarrow> uload_list va n s = Ok (map (\<lambda>i. ubyte s me (va + i)) [0..<n]) s"
proof (induction n arbitrary: va)
  case 0
  then show ?case by (simp add: exec_simps)
next
  case (Suc n)
  have "[0..<Suc n] = 0 # map Suc [0..<n]" by (subst upt_conv_Cons) (simp_all add: map_Suc_upt del: upt_Suc)
  then show ?case using Suc.IH [of "va + 1"] Suc.prems uload_image [OF Suc.prems(1), of va]
    by (simp add: exec_simps comp_def del: upt_Suc)
qed

lemma fetchint_image:
  assumes "user_image s me"
  shows "\<exists>r. fetchint addr s = Ok r s \<and> (r \<noteq> None \<longleftrightarrow> addr + 4 \<le> p_sz (procs s ! me))"
proof -
  have k: "p_sz (procs s ! me) \<le> 2147483648" using assms by (simp add: user_image_def KERNBASE_def)
  show ?thesis
  proof (cases "addr + 4 \<le> p_sz (procs s ! me)")
    case True
    then have "u32 (addr + 4) = addr + 4" using k by (intro u32_id) linarith
    then show ?thesis using True uload_list_image [OF assms True]
      by (simp add: fetchint_def exec_simps Let_def with_proc_image [OF assms])
  next
    case False
    have "p_sz (procs s ! me) \<le> addr \<or> p_sz (procs s ! me) < u32 (addr + 4)"
    proof (cases "p_sz (procs s ! me) \<le> addr")
      case lt: False
      then have "u32 (addr + 4) = addr + 4" using k by (intro u32_id) linarith
      then show ?thesis using False by simp
    qed simp
    then show ?thesis using False
      by (auto simp: fetchint_def exec_simps Let_def with_proc_image [OF assms])
  qed
qed

lemma argint_image: "user_image s me \<Longrightarrow> \<exists>r. argint n s = Ok r s"
  using fetchint_image by (fastforce simp: argint_def with_proc_image exec_simps)

lemma fetchstr_loop_image:
  "user_image s me \<Longrightarrow> va + n \<le> p_sz (procs s ! me) \<Longrightarrow> \<exists>r. fetchstr_loop va n s = Ok r s \<and>
    (\<forall>bs. r = Some bs \<longrightarrow> length bs < n \<and> 0 \<notin> set bs \<and> bs @ [0] = map (\<lambda>i. ubyte s me (va + i)) [0..<length bs + 1]) \<and>
    (r = None \<longrightarrow> (\<forall>i<n. ubyte s me (va + i) \<noteq> 0))"
proof (induction n arbitrary: va)
  case 0
  then show ?case by (simp add: exec_simps)
next
  case (Suc n)
  have up: "[0..<Suc m] = 0 # map Suc [0..<m]" for m by (subst upt_conv_Cons) (simp_all add: map_Suc_upt del: upt_Suc)
  have b: "uload va s = Ok (ubyte s me va) s" using Suc.prems by (intro uload_image) auto
  show ?case
  proof (cases "ubyte s me va = 0")
    case True
    then show ?thesis using b by (simp add: exec_simps)
  next
    case False
    obtain r where r: "fetchstr_loop (va + 1) n s = Ok r s"
      "\<forall>bs. r = Some bs \<longrightarrow> length bs < n \<and> 0 \<notin> set bs \<and> bs @ [0] = map (\<lambda>i. ubyte s me (va + 1 + i)) [0..<length bs + 1]"
      "r = None \<longrightarrow> (\<forall>i<n. ubyte s me (va + 1 + i) \<noteq> 0)"
      using Suc.IH [of "va + 1"] Suc.prems by auto
    have "fetchstr_loop va (Suc n) s = Ok (map_option ((#) (ubyte s me va)) r) s"
      using b False r(1) by (simp add: exec_simps)
    moreover have "\<forall>i<Suc n. ubyte s me (va + i) \<noteq> 0" if "r = None"
      using r(3) that False by (auto simp: less_Suc_eq_0_disj)
    ultimately show ?thesis using r(2) False
      by (cases r) (auto simp: up comp_def simp del: upt_Suc)
  qed
qed

text \<open>C25. Whatever a process passes, fetching the arguments of a system call returns and touches no memory outside the
  image of the process: no sum wraps around its check. A pointer that \<open>argptr\<close> accepts has its whole block inside the image,
  a string that \<open>argstr\<close> accepts ends with its NUL inside it, and \<open>argint\<close> succeeds exactly when its word lies inside.\<close>

theorem args_in_bounds:
  fixes n :: nat
  assumes "user_image s me" "len < 2147483648"
  defines "sz \<equiv> p_sz (procs s ! me)"
  defines "a \<equiv> u32 (rd32 (mem s) (p_tf (procs s ! me) + TF_ESP) + 4 + 4 * n)"
  shows "(\<exists>r. argint n s = Ok r s \<and> (r \<noteq> None \<longleftrightarrow> a + 4 \<le> sz)) \<and>
    (\<exists>r. argptr n len s = Ok r s \<and> (\<forall>p. r = Some p \<longrightarrow> 0 \<le> len \<and> p < sz \<and> p + nat len \<le> sz)) \<and>
    (\<exists>r. argstr n s = Ok r s \<and> (\<forall>bs. r = Some bs \<longrightarrow> 0 \<notin> set bs \<and>
      (\<exists>p. p + length bs < sz \<and> bs @ [0] = map (\<lambda>i. ubyte s me (p + i)) [0..<length bs + 1])))"
proof -
  have k: "sz \<le> 2147483648" using assms(1) by (simp add: user_image_def KERNBASE_def sz_def)
  note wp = with_proc_image [OF assms(1)]
  obtain r where r: "argint n s = Ok r s" "r \<noteq> None \<longleftrightarrow> a + 4 \<le> sz"
    using fetchint_image [OF assms(1), of a] by (auto simp: wp argint_def exec_simps a_def sz_def)
  have ptr: "\<exists>q. argptr n len s = Ok q s \<and> (\<forall>p. q = Some p \<longrightarrow> 0 \<le> len \<and> p < sz \<and> p + nat len \<le> sz)"
  proof (cases r)
    case (Some i)
    have "u32_of (int (u32_of i) + len) = u32_of i + nat len" if "0 \<le> len" "u32_of i < sz"
      using that k assms(2) by (simp add: u32_of_def [of "int (u32_of i) + len"] nat_add_distrib)
    then show ?thesis using Some r(1) by (auto simp: wp argptr_def exec_simps Let_def sz_def)
  qed (use r in \<open>simp add: argptr_def exec_simps\<close>)
  have str: "\<exists>q. argstr n s = Ok q s \<and> (\<forall>bs. q = Some bs \<longrightarrow> 0 \<notin> set bs \<and>
      (\<exists>p. p + length bs < sz \<and> bs @ [0] = map (\<lambda>i. ubyte s me (p + i)) [0..<length bs + 1]))"
  proof (cases r)
    case (Some i)
    show ?thesis
    proof (cases "u32_of i < sz")
      case True
      obtain q where q: "fetchstr_loop (u32_of i) (sz - u32_of i) s = Ok q s"
        "\<forall>bs. q = Some bs \<longrightarrow> length bs < sz - u32_of i \<and> 0 \<notin> set bs \<and>
          bs @ [0] = map (\<lambda>j. ubyte s me (u32_of i + j)) [0..<length bs + 1]"
        using fetchstr_loop_image [OF assms(1), of "u32_of i" "sz - u32_of i"] True by (auto simp: sz_def)
      then show ?thesis using Some r(1) True
        by (auto simp: wp argstr_def fetchstr_def exec_simps Let_def sz_def intro!: exI [of _ "u32_of i"] simp del: upt_Suc)
    qed (use Some r(1) in \<open>auto simp: wp argstr_def fetchstr_def exec_simps Let_def sz_def\<close>)
  qed (use r in \<open>simp add: argstr_def exec_simps\<close>)
  show ?thesis using r ptr str by blast
qed

text \<open>The witness: a memory of ones, in which every page is present, and a process that fills the user half.\<close>

definition image0 :: file_st where
  "image0 = file0\<lparr>mem := \<lambda>_. 1, procs := (procs file0)[1 := (procs file0 ! 1)\<lparr>p_sz := KERNBASE\<rparr>]\<rparr>"

lemma user_image0: "user_image image0 1" "p_sz (procs image0 ! 1) = KERNBASE"
proof -
  have "c_proc (the_cpu file0) = Some 1" using quiet_proc [OF quiet_file0] .
  moreover have l: "1 < length (procs file0)" using quiet_file0 table_ok_length [OF quiet_table [OF quiet_file0]]
    by (simp add: quiet_def on_cpu_def)
  moreover have "rd32 (\<lambda>_. 1) x = 16843009" for x by (simp add: rd32_def rd16_def)
  ultimately show "user_image image0 1" "p_sz (procs image0 ! 1) = KERNBASE"
    by (simp_all add: user_image_def image0_def ua2ka_def Let_def PTE_P_def the_cpu_def)
qed

theorem args_in_bounds_witness:
  "(\<exists>v. argint 0 image0 = Ok (Some v) image0) \<and>
   (\<exists>r. argptr 0 4 image0 = Ok r image0 \<and> (\<forall>p. r = Some p \<longrightarrow> p + 4 \<le> KERNBASE))"
proof -
  have "rd32 (\<lambda>_. 1) x = 16843009" for x by (simp add: rd32_def rd16_def)
  then have "u32 (rd32 (mem image0) (p_tf (procs image0 ! 1) + TF_ESP) + 4 + 4 * 0) + 4 \<le> KERNBASE"
    by (simp add: image0_def u32_def KERNBASE_def)
  then show ?thesis using args_in_bounds [OF user_image0(1), of 4 0] user_image0(2) by auto
qed

end
