(* ===== verification/Sysfile.thy ===== *)
theory Sysfile
  imports Exec
begin

text \<open>
  The file system calls of \<open>sysfile.c\<close>. Every \<open>sys_\<close> function fetches its arguments from the user
  stack and returns the value that \<open>syscall()\<close> stores in \<open>%eax\<close>. A \<open>goto bad\<close> is a definition of its own.
\<close>

section \<open>File descriptors\<close>

definition argfd :: "nat \<Rightarrow> ('z file_st_scheme, (nat \<times> nat) option) cmd" where
  "argfd n = bnd (argint n) (\<lambda>r. case r of None \<Rightarrow> ret None | Some fd \<Rightarrow>
     with_proc (\<lambda>me. withS (\<lambda>s.
       if fd < 0 \<or> int NOFILE \<le> fd then ret None
       else ret (map_option (\<lambda>f. (nat fd, f)) (p_ofile (procs s ! me) ! nat fd)))))"

definition fdalloc :: "nat \<Rightarrow> ('z file_st_scheme, int) cmd" where
  "fdalloc f = with_proc (\<lambda>me. withS (\<lambda>s.
     case first_idx (\<lambda>x. x = None) (p_ofile (procs s ! me)) of
       None \<Rightarrow> ret (-1)
     | Some fd \<Rightarrow> andthen [upd_proc me (\<lambda>x. x\<lparr>p_ofile := (p_ofile x)[fd := Some f]\<rparr>)] (ret (int fd))))"

definition fdclear :: "int \<Rightarrow> ('z file_st_scheme, unit) cmd" where
  "fdclear fd = with_proc (\<lambda>me. upd_proc me (\<lambda>x. x\<lparr>p_ofile := (p_ofile x)[nat fd := None]\<rparr>))"

definition sys_dup :: "('z file_st_scheme, int) cmd" where
  "sys_dup = bnd (argfd 0) (\<lambda>r. case r of None \<Rightarrow> ret (-1) | Some (_, f) \<Rightarrow>
     bnd (fdalloc f) (\<lambda>fd. if fd < 0 then ret (-1) else andthen [call (filedup f)] (ret fd)))"

text \<open>The arguments of \<open>read\<close> and \<open>write\<close>: the file, the count and the user address.\<close>

definition arg_rw :: "('z file_st_scheme, (nat \<times> int \<times> nat) option) cmd" where
  "arg_rw = bnd (argfd 0) (\<lambda>r. case r of None \<Rightarrow> ret None | Some (_, f) \<Rightarrow>
     bnd (argint 2) (\<lambda>r. case r of None \<Rightarrow> ret None | Some n \<Rightarrow>
     bnd (argptr 1 n) (\<lambda>r. case r of None \<Rightarrow> ret None | Some p \<Rightarrow> ret (Some (f, n, p)))))"

definition sys_read :: "('z file_st_scheme, int) cmd" where
  "sys_read = bnd arg_rw (\<lambda>r. case r of None \<Rightarrow> ret (-1) | Some (f, n, p) \<Rightarrow>
     bnd (fileread f n) (\<lambda>(r, bs). andthen [ustore_list p bs] (ret r)))"

definition sys_write :: "('z file_st_scheme, int) cmd" where
  "sys_write = bnd arg_rw (\<lambda>r. case r of None \<Rightarrow> ret (-1) | Some (f, n, p) \<Rightarrow>
     bnd (uload_list p (nat n)) (\<lambda>bs. filewrite f n bs))"

definition sys_close :: "('z file_st_scheme, int) cmd" where
  "sys_close = bnd (argfd 0) (\<lambda>r. case r of None \<Rightarrow> ret (-1) | Some (fd, f) \<Rightarrow>
     andthen [fdclear (int fd), fileclose f] (ret 0))"

definition STAT_SIZE :: nat where "STAT_SIZE = 20"

definition stat_bytes :: "stat \<Rightarrow> byte list" where
  "stat_bytes st = le_bytes 2 (u16_of (st_type st)) @ [0, 0] @ le_bytes 4 (u32_of (st_dev st)) @
     le_bytes 4 (st_ino st) @ le_bytes 2 (u16_of (st_nlink st)) @ [0, 0] @ le_bytes 4 (st_size st)"

definition sys_fstat :: "('z file_st_scheme, int) cmd" where
  "sys_fstat = bnd (argfd 0) (\<lambda>r. case r of None \<Rightarrow> ret (-1) | Some (_, f) \<Rightarrow>
     bnd (argptr 1 (int STAT_SIZE)) (\<lambda>r. case r of None \<Rightarrow> ret (-1) | Some st \<Rightarrow>
     bnd (filestat f) (\<lambda>r. case r of None \<Rightarrow> ret (-1)
     | Some x \<Rightarrow> andthen [ustore_list st (stat_bytes x)] (ret 0))))"

section \<open>Links\<close>

definition nlink_add :: "nat \<Rightarrow> int \<Rightarrow> ('z file_st_scheme, unit) cmd" where
  "nlink_add ip k = upd_inode ip (\<lambda>x. x\<lparr>i_nlink := s16 (u16_of (i_nlink x + k))\<rparr>)"

definition end_with :: "int \<Rightarrow> ('z file_st_scheme, int) cmd" where
  "end_with r = andthen [end_op] (ret r)"

definition sys_link_bad :: "nat \<Rightarrow> ('z file_st_scheme, int) cmd" where
  "sys_link_bad ip = andthen [ilock ip, nlink_add ip (-1), iupdate ip, iunlockput ip, end_op] (ret (-1))"

definition link_new :: "nat \<Rightarrow> byte list \<Rightarrow> ('z file_st_scheme, int) cmd" where
  "link_new ip new = bnd (nameiparent new (replicate DIRSIZ 0)) (\<lambda>(r, nm). case r of
     None \<Rightarrow> sys_link_bad ip
   | Some dp \<Rightarrow> bnd (ilock dp) (\<lambda>_.
       bnd (withS (\<lambda>s. if i_dev (inodes s ! dp) \<noteq> i_dev (inodes s ! ip) then ret (-1)
             else dirlink dp nm (i_inum (inodes s ! ip)))) (\<lambda>r.
       if r < 0 then andthen [iunlockput dp] (sys_link_bad ip)
       else andthen [iunlockput dp, iput ip, end_op] (ret 0))))"

definition sys_link :: "('z file_st_scheme, int) cmd" where
  "sys_link = bnd (argstr 0) (\<lambda>r. case r of None \<Rightarrow> ret (-1) | Some old \<Rightarrow>
     bnd (argstr 1) (\<lambda>r. case r of None \<Rightarrow> ret (-1) | Some new \<Rightarrow>
     bnd begin_op (\<lambda>_. bnd (namei old) (\<lambda>r. case r of None \<Rightarrow> end_with (-1) | Some ip \<Rightarrow>
     bnd (ilock ip) (\<lambda>_. withS (\<lambda>s.
     if i_type (inodes s ! ip) = T_DIR then andthen [iunlockput ip] (end_with (-1))
     else andthen [nlink_add ip 1, iupdate ip, iunlock ip] (link_new ip new)))))))"

function isdirempty_loop :: "nat \<Rightarrow> nat \<Rightarrow> nat \<Rightarrow> ('z file_st_scheme, bool) cmd" where
  "isdirempty_loop dp sz off =
     (if off < sz then
        bnd (readi dp off DIRENT_SIZE) (\<lambda>(r, de).
        if r \<noteq> int DIRENT_SIZE then panic ''isdirempty: readi''
        else if de_inum de \<noteq> 0 then ret False
        else isdirempty_loop dp sz (off + DIRENT_SIZE))
      else ret True)"
  by pat_completeness auto
termination by (relation "measure (\<lambda>(dp, sz, off). sz - off)") (auto simp: DIRENT_SIZE_def)

declare isdirempty_loop.simps [simp del]

definition isdirempty :: "nat \<Rightarrow> ('z file_st_scheme, bool) cmd" where
  "isdirempty dp = withS (\<lambda>s. isdirempty_loop dp (i_size (inodes s ! dp)) (2 * DIRENT_SIZE))"

definition dot :: "byte list" where "dot = [46]"
definition dotdot :: "byte list" where "dotdot = [46, 46]"

definition sys_unlink_bad :: "nat \<Rightarrow> ('z file_st_scheme, int) cmd" where
  "sys_unlink_bad dp = andthen [iunlockput dp, end_op] (ret (-1))"

definition unlink_entry :: "nat \<Rightarrow> nat \<Rightarrow> nat \<Rightarrow> ('z file_st_scheme, int) cmd" where
  "unlink_entry dp ip off =
     bnd (writei dp (replicate DIRENT_SIZE 0) off) (\<lambda>r.
     if r \<noteq> int DIRENT_SIZE then panic ''unlink: writei''
     else andthen
       [withS (\<lambda>s. if i_type (inodes s ! ip) = T_DIR then run [nlink_add dp (-1), iupdate dp] else skip),
        iunlockput dp,
        nlink_add ip (-1),
        iupdate ip,
        iunlockput ip,
        end_op]
       (ret 0))"

definition sys_unlink :: "('z file_st_scheme, int) cmd" where
  "sys_unlink = bnd (argstr 0) (\<lambda>r. case r of None \<Rightarrow> ret (-1) | Some path \<Rightarrow>
     bnd begin_op (\<lambda>_. bnd (nameiparent path (replicate DIRSIZ 0)) (\<lambda>(r, nm). case r of
       None \<Rightarrow> end_with (-1)
     | Some dp \<Rightarrow> bnd (ilock dp) (\<lambda>_.
         if namecmp nm dot = 0 \<or> namecmp nm dotdot = 0 then sys_unlink_bad dp
         else bnd (dirlookup dp nm) (\<lambda>r. case r of
             None \<Rightarrow> sys_unlink_bad dp
           | Some (ip, off) \<Rightarrow> bnd (ilock ip) (\<lambda>_.
               bnd (panic_if (\<lambda>s. i_nlink (inodes s ! ip) < 1) ''unlink: nlink < 1'') (\<lambda>_.
               bnd (withS (\<lambda>s. if i_type (inodes s ! ip) = T_DIR then isdirempty ip else ret True)) (\<lambda>empty.
               if \<not> empty then andthen [iunlockput ip] (sys_unlink_bad dp)
               else unlink_entry dp ip off))))))))"

section \<open>Creating and opening\<close>

definition create_dots :: "nat \<Rightarrow> nat \<Rightarrow> ('z file_st_scheme, unit) cmd" where
  "create_dots dp ip = bnd (run [nlink_add dp 1, iupdate dp]) (\<lambda>_.
     bnd (withS (\<lambda>s. dirlink ip dot (i_inum (inodes s ! ip)))) (\<lambda>r.
     if r < 0 then panic ''create dots''
     else bnd (withS (\<lambda>s. dirlink ip dotdot (i_inum (inodes s ! dp)))) (\<lambda>r.
     if r < 0 then panic ''create dots'' else skip)))"

definition create_new :: "nat \<Rightarrow> byte list \<Rightarrow> int \<Rightarrow> int \<Rightarrow> int \<Rightarrow> ('z file_st_scheme, nat option) cmd" where
  "create_new dp nm type major minor =
     bnd (withS (\<lambda>s. ialloc (i_dev (inodes s ! dp)) type)) (\<lambda>ip.
     bnd (run
       [ilock ip,
        upd_inode ip (\<lambda>x. x\<lparr>i_major := major\<rparr>),
        upd_inode ip (\<lambda>x. x\<lparr>i_minor := minor\<rparr>),
        upd_inode ip (\<lambda>x. x\<lparr>i_nlink := 1\<rparr>),
        iupdate ip,
        if type = T_DIR then create_dots dp ip else skip]) (\<lambda>_.
     bnd (withS (\<lambda>s. dirlink dp nm (i_inum (inodes s ! ip)))) (\<lambda>r.
     if r < 0 then panic ''create: dirlink'' else andthen [iunlockput dp] (ret (Some ip)))))"

definition create :: "byte list \<Rightarrow> int \<Rightarrow> int \<Rightarrow> int \<Rightarrow> ('z file_st_scheme, nat option) cmd" where
  "create path type major minor = bnd (nameiparent path (replicate DIRSIZ 0)) (\<lambda>(r, nm). case r of
     None \<Rightarrow> ret None
   | Some dp \<Rightarrow> bnd (ilock dp) (\<lambda>_. bnd (dirlookup dp nm) (\<lambda>r. case r of
       Some (ip, _) \<Rightarrow> bnd (run [iunlockput dp, ilock ip]) (\<lambda>_. withS (\<lambda>s.
         if type = T_FILE \<and> i_type (inodes s ! ip) = T_FILE then ret (Some ip)
         else andthen [iunlockput ip] (ret None)))
     | None \<Rightarrow> create_new dp nm type major minor)))"

definition O_RDONLY :: int where "O_RDONLY = 0"
definition O_WRONLY :: int where "O_WRONLY = 1"
definition O_RDWR :: int where "O_RDWR = 2"
definition O_CREATE :: int where "O_CREATE = 0x200"

text \<open>The inode that \<open>open\<close> works on, locked; \<open>None\<close> when the call ended with \<open>-1\<close>.\<close>

definition open_inode :: "byte list \<Rightarrow> int \<Rightarrow> ('z file_st_scheme, nat option) cmd" where
  "open_inode path omode =
     (if and omode O_CREATE \<noteq> 0 then
        bnd (create path T_FILE 0 0) (\<lambda>r. case r of None \<Rightarrow> andthen [end_op] (ret None) | Some ip \<Rightarrow> ret (Some ip))
      else
        bnd (namei path) (\<lambda>r. case r of None \<Rightarrow> andthen [end_op] (ret None) | Some ip \<Rightarrow>
        bnd (ilock ip) (\<lambda>_. withS (\<lambda>s.
        if i_type (inodes s ! ip) = T_DIR \<and> omode \<noteq> O_RDONLY
        then andthen [iunlockput ip, end_op] (ret None) else ret (Some ip)))))"

definition open_file :: "nat \<Rightarrow> int \<Rightarrow> ('z file_st_scheme, int) cmd" where
  "open_file ip omode = bnd filealloc (\<lambda>r. case r of
     None \<Rightarrow> andthen [iunlockput ip, end_op] (ret (-1))
   | Some f \<Rightarrow> bnd (fdalloc f) (\<lambda>fd.
       if fd < 0 then andthen [fileclose f, iunlockput ip, end_op] (ret (-1))
       else andthen
         [iunlock ip,
          end_op,
          upd_file f (\<lambda>x. x\<lparr>f_type := FD_INODE\<rparr>),
          upd_file f (\<lambda>x. x\<lparr>f_ip := ip\<rparr>),
          upd_file f (\<lambda>x. x\<lparr>f_off := 0\<rparr>),
          upd_file f (\<lambda>x. x\<lparr>f_readable := and omode O_WRONLY = 0\<rparr>),
          upd_file f (\<lambda>x. x\<lparr>f_writable := (and omode O_WRONLY \<noteq> 0 \<or> and omode O_RDWR \<noteq> 0)\<rparr>)]
         (ret fd)))"

definition sys_open :: "('z file_st_scheme, int) cmd" where
  "sys_open = bnd (argstr 0) (\<lambda>r. case r of None \<Rightarrow> ret (-1) | Some path \<Rightarrow>
     bnd (argint 1) (\<lambda>r. case r of None \<Rightarrow> ret (-1) | Some omode \<Rightarrow>
     bnd begin_op (\<lambda>_. bnd (open_inode path omode) (\<lambda>r. case r of None \<Rightarrow> ret (-1) | Some ip \<Rightarrow>
     open_file ip omode))))"

definition finish_create :: "nat option \<Rightarrow> ('z file_st_scheme, int) cmd" where
  "finish_create r = (case r of None \<Rightarrow> end_with (-1) | Some ip \<Rightarrow> andthen [iunlockput ip, end_op] (ret 0))"

definition sys_mkdir :: "('z file_st_scheme, int) cmd" where
  "sys_mkdir = bnd begin_op (\<lambda>_. bnd (argstr 0) (\<lambda>r. case r of None \<Rightarrow> end_with (-1) | Some path \<Rightarrow>
     bnd (create path T_DIR 0 0) finish_create))"

definition sys_mknod :: "('z file_st_scheme, int) cmd" where
  "sys_mknod = bnd begin_op (\<lambda>_.
     bnd (argstr 0) (\<lambda>r. case r of None \<Rightarrow> end_with (-1) | Some path \<Rightarrow>
     bnd (argint 1) (\<lambda>r. case r of None \<Rightarrow> end_with (-1) | Some major \<Rightarrow>
     bnd (argint 2) (\<lambda>r. case r of None \<Rightarrow> end_with (-1) | Some minor \<Rightarrow>
     bnd (create path T_DEV (s16 (u16_of major)) (s16 (u16_of minor))) finish_create))))"

definition sys_chdir :: "('z file_st_scheme, int) cmd" where
  "sys_chdir = bnd begin_op (\<lambda>_.
     bnd (argstr 0) (\<lambda>r. case r of None \<Rightarrow> end_with (-1) | Some path \<Rightarrow>
     bnd (namei path) (\<lambda>r. case r of None \<Rightarrow> end_with (-1) | Some ip \<Rightarrow>
     bnd (ilock ip) (\<lambda>_. withS (\<lambda>s.
     if i_type (inodes s ! ip) \<noteq> T_DIR then andthen [iunlockput ip] (end_with (-1))
     else with_proc (\<lambda>me. andthen
       [iunlock ip,
        withS (\<lambda>s. case p_cwd (procs s ! me) of None \<Rightarrow> undef ''iput(proc->cwd)'' | Some d \<Rightarrow> iput d),
        end_op,
        upd_proc me (\<lambda>x. x\<lparr>p_cwd := Some ip\<rparr>)]
       (ret 0)))))))"

text \<open>The argument vector of \<open>exec\<close>; \<open>k\<close> entries of \<open>argv\<close> are left, \<open>None\<close> stands for \<open>-1\<close>.\<close>

primrec fetch_argv :: "nat \<Rightarrow> nat \<Rightarrow> ('z file_st_scheme, byte list list option) cmd" where
  "fetch_argv 0 a = ret None"
| "fetch_argv (Suc k) a = bnd (fetchint a) (\<lambda>r. case r of None \<Rightarrow> ret None | Some uarg \<Rightarrow>
     if uarg = 0 then ret (Some [])
     else bnd (fetchstr (u32_of uarg)) (\<lambda>r. case r of None \<Rightarrow> ret None | Some x \<Rightarrow>
     bnd (fetch_argv k (u32 (a + 4))) (\<lambda>r. ret (map_option ((#) x) r))))"

definition sys_exec :: "('z file_st_scheme, int) cmd" where
  "sys_exec = bnd (argstr 0) (\<lambda>r. case r of None \<Rightarrow> ret (-1) | Some path \<Rightarrow>
     bnd (argint 1) (\<lambda>r. case r of None \<Rightarrow> ret (-1) | Some uargv \<Rightarrow>
     bnd (fetch_argv MAXARG (u32_of uargv)) (\<lambda>r. case r of None \<Rightarrow> ret (-1) | Some argv \<Rightarrow> exec path argv)))"

definition sys_pipe :: "('z file_st_scheme, int) cmd" where
  "sys_pipe = bnd (argptr 0 8) (\<lambda>r. case r of None \<Rightarrow> ret (-1) | Some fd \<Rightarrow>
     bnd pipealloc (\<lambda>r. case r of None \<Rightarrow> ret (-1) | Some (rfile, wfile) \<Rightarrow>
     bnd (fdalloc rfile) (\<lambda>fd0.
     if fd0 < 0 then andthen [fileclose rfile, fileclose wfile] (ret (-1))
     else bnd (fdalloc wfile) (\<lambda>fd1.
     if fd1 < 0 then andthen [fdclear fd0, fileclose rfile, fileclose wfile] (ret (-1))
     else andthen
       [ustore_list fd (le_bytes 4 (u32_of fd0)),
        ustore_list (fd + 4) (le_bytes 4 (u32_of fd1))]
       (ret 0)))))"

end
