(* ===== verification/Syscall.thy ===== *)
theory Syscall
  imports Sysfile
begin

text \<open>
  The process system calls (\<open>sysproc.c\<close>), the system call table (\<open>syscall.c\<close>), the local APIC as far as
  the kernel uses it after start-up (\<open>lapic.c\<close>), the interrupt descriptor table and the trap handler
  (\<open>trap.c\<close>). What the devices deliver during an interrupt is an argument of \<open>trap\<close>.
\<close>

section \<open>Process system calls\<close>

definition sys_fork :: "('z file_st_scheme, int) cmd" where
  "sys_fork = fork"

definition sys_exit :: "('z file_st_scheme, int) cmd" where
  "sys_exit = andthen [exit] (ret 0)"

definition sys_wait :: "('z file_st_scheme, int) cmd" where
  "sys_wait = wait"

definition sys_kill :: "('z file_st_scheme, int) cmd" where
  "sys_kill = bnd (argint 0) (\<lambda>r. case r of None \<Rightarrow> ret (-1) | Some pid \<Rightarrow> kill pid)"

definition sys_getpid :: "('z file_st_scheme, int) cmd" where
  "sys_getpid = with_proc (\<lambda>me. gets (\<lambda>s. p_pid (procs s ! me)))"

definition sys_sbrk :: "('z file_st_scheme, int) cmd" where
  "sys_sbrk = bnd (argint 0) (\<lambda>r. case r of None \<Rightarrow> ret (-1) | Some n \<Rightarrow>
     with_proc (\<lambda>me. bnd (gets (\<lambda>s. s32 (p_sz (procs s ! me)))) (\<lambda>addr.
     bnd (growproc n) (\<lambda>r. if r < 0 then ret (-1) else ret addr))))"

definition sys_sleep_loop :: "32 word \<Rightarrow> int \<Rightarrow> ('z file_st_scheme, int) cmd" where
  "sys_sleep_loop ticks0 n = withS (\<lambda>s.
     if ticks s - ticks0 < word_of_int n then
       with_proc (\<lambda>me. if p_killed (procs s ! me) then andthen [release LTicks] (ret (-1))
         else sleep_in_loop ChTicks LTicks)
     else andthen [release LTicks] (ret 0))"

definition sys_sleep :: "('z file_st_scheme, int) cmd" where
  "sys_sleep = bnd (argint 0) (\<lambda>r. case r of None \<Rightarrow> ret (-1) | Some n \<Rightarrow>
     bnd (acquire LTicks) (\<lambda>_. bnd (gets ticks) (\<lambda>ticks0. sys_sleep_loop ticks0 n)))"

definition sys_sleep_return :: "32 word \<Rightarrow> int \<Rightarrow> nat \<Rightarrow> ('z file_st_scheme, int) cmd" where
  "sys_sleep_return ticks0 n intena = andthen [sleep_return LTicks intena] (sys_sleep_loop ticks0 n)"

definition sys_uptime :: "('z file_st_scheme, int) cmd" where
  "sys_uptime = bnd (acquire LTicks) (\<lambda>_. bnd (gets (\<lambda>s. sint (ticks s))) (\<lambda>x. andthen [release LTicks] (ret x)))"

definition sys_cps :: "('z file_st_scheme, int) cmd" where
  "sys_cps = cps"

definition sys_nice :: "('z file_st_scheme, int) cmd" where
  "sys_nice = bnd (argint 0) (\<lambda>r. case r of None \<Rightarrow> ret (-1) | Some pid \<Rightarrow>
     bnd (argint 1) (\<lambda>r. case r of None \<Rightarrow> ret (-1) | Some pr \<Rightarrow> nice pid pr))"

section \<open>The system call table\<close>

definition syscalls :: "('z file_st_scheme, int) cmd option list" where
  "syscalls = [None, Some sys_fork, Some sys_exit, Some sys_wait, Some sys_pipe, Some sys_read, Some sys_kill,
     Some sys_exec, Some sys_fstat, Some sys_chdir, Some sys_dup, Some sys_getpid, Some sys_sbrk, Some sys_sleep,
     Some sys_uptime, Some sys_open, Some sys_write, Some sys_mknod, Some sys_unlink, Some sys_link, Some sys_mkdir,
     Some sys_close, Some sys_cps, Some sys_nice]"

definition set_eax :: "nat \<Rightarrow> int \<Rightarrow> ('z file_st_scheme, unit) cmd" where
  "set_eax me r = withS (\<lambda>s. upd_mem (\<lambda>m. wr32 m (p_tf (procs s ! me) + TF_EAX) (u32_of r)))"

definition syscall :: "('z file_st_scheme, unit) cmd" where
  "syscall = with_proc (\<lambda>me. withS (\<lambda>s. let num = s32 (rd32 (mem s) (p_tf (procs s ! me) + TF_EAX)) in
     case (if 0 < num \<and> nat num < length (syscalls :: ('z file_st_scheme, int) cmd option list) then syscalls ! nat num else None) of
       Some f \<Rightarrow> bnd f (set_eax me)
     | None \<Rightarrow> run
         [cprintf ''%d %s: unknown sys call %d\<newline>'' [PInt (p_pid (procs s ! me)), PStr (p_name (procs s ! me)), PInt num],
          set_eax me (-1)]))"

section \<open>The local APIC\<close>

text \<open>The descriptors of \<open>mmu.h\<close> for interrupt and trap gates.\<close>

record gatedesc =
  gd_off_15_0 :: nat
  gd_cs :: nat
  gd_args :: nat
  gd_rsv1 :: nat
  gd_type :: nat
  gd_s :: nat
  gd_dpl :: nat
  gd_p :: nat
  gd_off_31_16 :: nat

text \<open>
  \<open>lapic\<close> is the address of the local APIC, 0 when there is none, and \<open>lapic_w\<close> the writes to its
  registers so far. The identifier the APIC of a processor answers is its \<open>c_apicid\<close>. \<open>cpunum_n\<close> is the
  static counter of \<open>cpunum\<close>.
\<close>

record trap_st = proc_st +
  lapic :: nat
  lapic_w :: "(nat \<times> nat) list"
  cpunum_n :: "32 word"
  idt :: "gatedesc list"

definition ID :: nat where "ID = 0x0020 div 4"
definition VER :: nat where "VER = 0x0030 div 4"
definition TPR :: nat where "TPR = 0x0080 div 4"
definition EOI :: nat where "EOI = 0x00B0 div 4"
definition SVR :: nat where "SVR = 0x00F0 div 4"
definition ENABLE :: nat where "ENABLE = 0x00000100"
definition ESR :: nat where "ESR = 0x0280 div 4"
definition ICRLO :: nat where "ICRLO = 0x0300 div 4"
definition INIT :: nat where "INIT = 0x00000500"
definition STARTUP :: nat where "STARTUP = 0x00000600"
definition ASSERT :: nat where "ASSERT = 0x00004000"
definition LEVEL :: nat where "LEVEL = 0x00008000"
definition BCAST :: nat where "BCAST = 0x00080000"
definition ICRHI :: nat where "ICRHI = 0x0310 div 4"
definition TIMER :: nat where "TIMER = 0x0320 div 4"
definition X1 :: nat where "X1 = 0x0000000B"
definition PERIODIC :: nat where "PERIODIC = 0x00020000"
definition PCINT :: nat where "PCINT = 0x0340 div 4"
definition LINT0 :: nat where "LINT0 = 0x0350 div 4"
definition LINT1 :: nat where "LINT1 = 0x0360 div 4"
definition ERROR :: nat where "ERROR = 0x0370 div 4"
definition MASKED :: nat where "MASKED = 0x00010000"
definition TICR :: nat where "TICR = 0x0380 div 4"
definition TDCR :: nat where "TDCR = 0x03E0 div 4"

definition lapicw :: "nat \<Rightarrow> nat \<Rightarrow> ('z trap_st_scheme, unit) cmd" where
  "lapicw index v = modify (\<lambda>s. s\<lparr>lapic_w := lapic_w s @ [(index, v)]\<rparr>)"

text \<open>\<open>lapicinit\<close>; \<open>ver\<close> is what the version register reads, and the delivery of the IPI is taken to be immediate.\<close>

definition lapicinit :: "nat \<Rightarrow> ('z trap_st_scheme, unit) cmd" where
  "lapicinit ver = whenM (\<lambda>s. lapic s \<noteq> 0) (run
     [lapicw SVR (or ENABLE (T_IRQ0 + IRQ_SPURIOUS)),
      lapicw TDCR X1,
      lapicw TIMER (or PERIODIC (T_IRQ0 + IRQ_TIMER)),
      lapicw TICR 10000000,
      lapicw LINT0 MASKED,
      lapicw LINT1 MASKED,
      if 4 \<le> ver div 2 ^ 16 mod 256 then lapicw PCINT MASKED else skip,
      lapicw ERROR (T_IRQ0 + IRQ_ERROR),
      lapicw ESR 0,
      lapicw ESR 0,
      lapicw EOI 0,
      lapicw ICRHI 0,
      lapicw ICRLO (or BCAST (or INIT LEVEL)),
      lapicw TPR 0])"

definition cpunum_warn :: "nat \<Rightarrow> ('z trap_st_scheme, unit) cmd" where
  "cpunum_warn pc = whenM (\<lambda>s. c_if (the_cpu s)) (withS (\<lambda>s. run
     [modify (\<lambda>s. s\<lparr>cpunum_n := cpunum_n s + 1\<rparr>),
      if cpunum_n s = 0 then cprintf ''cpu called from %x with interrupts enabled\<newline>'' [PPtr pc] else skip]))"

text \<open>\<open>pc\<close> is the return address of the call.\<close>

definition cpunum :: "nat \<Rightarrow> ('z trap_st_scheme, nat) cmd" where
  "cpunum pc = bnd (cpunum_warn pc) (\<lambda>_. withS (\<lambda>s. if lapic s = 0 then ret 0
     else case first_idx (\<lambda>c. c_apicid c = c_apicid (the_cpu s)) (cpus s) of
       Some i \<Rightarrow> ret i | None \<Rightarrow> panic ''unknown apicid''))"

definition lapiceoi :: "('z trap_st_scheme, unit) cmd" where
  "lapiceoi = whenM (\<lambda>s. lapic s \<noteq> 0) (lapicw EOI 0)"

definition lapicstartap :: "nat \<Rightarrow> nat \<Rightarrow> ('z trap_st_scheme, unit) cmd" where
  "lapicstartap apicid addr = run
     [outb 0x70 0xF,
      outb 0x71 0x0A,
      upd_mem (\<lambda>m. wr16 m (KERNBASE + 0x467) 0),
      upd_mem (\<lambda>m. wr16 m (KERNBASE + 0x469) (addr div 2 ^ 4 mod 2 ^ 16)),
      lapicw ICRHI (apicid * 2 ^ 24),
      lapicw ICRLO (or INIT (or LEVEL ASSERT)),
      lapicw ICRLO (or INIT LEVEL),
      forM [0..<2] (\<lambda>_. run
        [lapicw ICRHI (apicid * 2 ^ 24),
         lapicw ICRLO (or STARTUP (addr div 2 ^ 12))])]"

section \<open>Traps\<close>

definition T_SYSCALL :: nat where "T_SYSCALL = 64"
definition STS_IG32 :: nat where "STS_IG32 = 0xE"
definition STS_TG32 :: nat where "STS_TG32 = 0xF"

definition SETGATE :: "bool \<Rightarrow> nat \<Rightarrow> nat \<Rightarrow> nat \<Rightarrow> gatedesc" where
  "SETGATE istrap sel off d = \<lparr>gd_off_15_0 = off mod 65536, gd_cs = sel, gd_args = 0, gd_rsv1 = 0,
     gd_type = (if istrap then STS_TG32 else STS_IG32), gd_s = 0, gd_dpl = d, gd_p = 1,
     gd_off_31_16 = off div 65536\<rparr>"

text \<open>\<open>vectors\<close> are the addresses of the entry points, a table the build generates.\<close>

definition tvinit :: "nat list \<Rightarrow> ('z trap_st_scheme, unit) cmd" where
  "tvinit vectors = run
     [forM [0..<256] (\<lambda>i. modify (\<lambda>s. s\<lparr>idt := (idt s)[i := SETGATE False (8 * SEG_KCODE) (vectors ! i) 0]\<rparr>)),
      modify (\<lambda>s. s\<lparr>idt := (idt s)[T_SYSCALL := SETGATE True (8 * SEG_KCODE) (vectors ! T_SYSCALL) DPL_USER]\<rparr>),
      initlock LTicks ''time'']"

definition tick :: "('z trap_st_scheme, unit) cmd" where
  "tick = run
     [acquire LTicks,
      modify (\<lambda>s. s\<lparr>ticks := ticks s + 1\<rparr>),
      wakeup (Some ChTicks),
      release LTicks]"

record trap_in =
  ti_scancodes :: "nat list"
  ti_serial :: "nat list"
  ti_cr2 :: nat
  ti_pc :: nat

definition trap_default :: "nat \<Rightarrow> trap_in \<Rightarrow> ('z trap_st_scheme, unit) cmd" where
  "trap_default tf inp = bnd (cpunum (ti_pc inp)) (\<lambda>c. withS (\<lambda>s.
     let no = rd32 (mem s) (tf + TF_TRAPNO); eip = rd32 (mem s) (tf + TF_EIP) in
     case c_proc (the_cpu s) of
       Some me \<Rightarrow>
         if and (rd16 (mem s) (tf + TF_CS)) 3 = 0 then run
           [cprintf ''unexpected trap %d from cpu %d eip %x (cr2=0x%x)\<newline>'' [PInt (s32 no), PInt (int c), PPtr eip, PPtr (ti_cr2 inp)],
            panic ''trap'']
         else run
           [cprintf ''pid %d %s: trap %d err %d on cpu %d eip 0x%x addr 0x%x--kill proc\<newline>''
              [PInt (p_pid (procs s ! me)), PStr (p_name (procs s ! me)), PInt (s32 no),
               PInt (s32 (rd32 (mem s) (tf + TF_ERR))), PInt (int c), PPtr eip, PPtr (ti_cr2 inp)],
            upd_proc me (\<lambda>x. x\<lparr>p_killed := True\<rparr>)]
     | None \<Rightarrow> run
         [cprintf ''unexpected trap %d from cpu %d eip %x (cr2=0x%x)\<newline>'' [PInt (s32 no), PInt (int c), PPtr eip, PPtr (ti_cr2 inp)],
          panic ''trap'']))"

definition trap_device :: "nat \<Rightarrow> trap_in \<Rightarrow> ('z trap_st_scheme, unit) cmd" where
  "trap_device tf inp = withS (\<lambda>s. let no = rd32 (mem s) (tf + TF_TRAPNO) in
     if no = T_IRQ0 + IRQ_TIMER then
       bnd (cpunum (ti_pc inp)) (\<lambda>c. run [if c = 0 then tick else skip, lapiceoi])
     else if no = T_IRQ0 + IRQ_IDE then lapiceoi
     else if no = T_IRQ0 + IRQ_IDE + 1 then skip
     else if no = T_IRQ0 + IRQ_KBD then run [kbdintr (ti_scancodes inp), lapiceoi]
     else if no = T_IRQ0 + IRQ_COM1 then run [uartintr (ti_serial inp), lapiceoi]
     else if no = T_IRQ0 + 7 \<or> no = T_IRQ0 + IRQ_SPURIOUS then
       bnd (cpunum (ti_pc inp)) (\<lambda>c. run
         [cprintf ''cpu%d: spurious interrupt at %x:%x\<newline>'' [PInt (int c), PPtr (rd16 (mem s) (tf + TF_CS)), PPtr (rd32 (mem s) (tf + TF_EIP))],
          lapiceoi])
     else trap_default tf inp)"

text \<open>\<open>if(proc && proc->killed && (tf->cs&3) == DPL_USER) exit();\<close>\<close>

definition exit_if_killed :: "nat \<Rightarrow> ('z trap_st_scheme, unit) cmd" where
  "exit_if_killed tf = withS (\<lambda>s. case c_proc (the_cpu s) of None \<Rightarrow> skip
     | Some me \<Rightarrow> if p_killed (procs s ! me) \<and> and (rd16 (mem s) (tf + TF_CS)) 3 = DPL_USER then exit else skip)"

definition trap_return :: "nat \<Rightarrow> nat \<Rightarrow> ('z trap_st_scheme, unit) cmd" where
  "trap_return tf intena = run [yield_return intena, exit_if_killed tf]"

definition trap :: "nat \<Rightarrow> trap_in \<Rightarrow> ('z trap_st_scheme, unit) cmd" where
  "trap tf inp = withS (\<lambda>s. let no = rd32 (mem s) (tf + TF_TRAPNO) in
     if no = T_SYSCALL then
       with_proc (\<lambda>me. run
         [withS (\<lambda>s. if p_killed (procs s ! me) then exit else skip),
          upd_proc me (\<lambda>x. x\<lparr>p_tf := tf\<rparr>),
          syscall,
          withS (\<lambda>s. if p_killed (procs s ! me) then exit else skip)])
     else run
       [trap_device tf inp,
        exit_if_killed tf,
        withS (\<lambda>s. case c_proc (the_cpu s) of None \<Rightarrow> skip
          | Some me \<Rightarrow> if p_state (procs s ! me) = RUNNING \<and> no = T_IRQ0 + IRQ_TIMER then yield else skip),
        exit_if_killed tf])"

end
