(* ===== verification/Mp.thy ===== *)
theory Mp
  imports Kalloc
begin

text \<open>
  \<open>mp.c\<close>: the search for the MultiProcessor tables of the BIOS and the walk over the entries of the
  configuration table, as functions on the physical memory the kernel sees at \<open>KERNBASE\<close>. The walk has no
  bound of its own, so it is a partial function: \<open>None\<close> when it does not end.
\<close>

section \<open>The search\<close>

definition MP_SIZE :: nat where "MP_SIZE = 16"
definition MPCONF_SIZE :: nat where "MPCONF_SIZE = 44"
definition MPPROC_SIZE :: nat where "MPPROC_SIZE = 20"
definition MPIOAPIC_SIZE :: nat where "MPIOAPIC_SIZE = 8"
definition NCPU :: nat where "NCPU = 8"

primrec mp_sum :: "memory \<Rightarrow> nat \<Rightarrow> nat \<Rightarrow> byte" where
  "mp_sum m a 0 = 0"
| "mp_sum m a (Suc n) = m a + mp_sum m (a + 1) n"

definition sig_at :: "memory \<Rightarrow> nat \<Rightarrow> byte list \<Rightarrow> bool" where
  "sig_at m a bs = (map (\<lambda>i. m (a + i)) [0..<length bs] = bs)"

definition mp_sig :: "byte list" where "mp_sig = [0x5F, 0x4D, 0x50, 0x5F]"
definition pcmp_sig :: "byte list" where "pcmp_sig = [0x50, 0x43, 0x4D, 0x50]"

function mpsearch1_loop :: "memory \<Rightarrow> nat \<Rightarrow> nat \<Rightarrow> nat option" where
  "mpsearch1_loop m p e =
     (if p < e then
        if sig_at m p mp_sig \<and> mp_sum m p MP_SIZE = 0 then Some p else mpsearch1_loop m (p + MP_SIZE) e
      else None)"
  by pat_completeness auto
termination by (relation "measure (\<lambda>(m, p, e). e - p)") (auto simp: MP_SIZE_def)

declare mpsearch1_loop.simps [simp del]

definition mpsearch1 :: "memory \<Rightarrow> nat \<Rightarrow> nat \<Rightarrow> nat option" where
  "mpsearch1 m a len = mpsearch1_loop m (P2V a) (P2V a + len)"

definition mpsearch :: "memory \<Rightarrow> nat option" where
  "mpsearch m = (let bda = P2V 0x400; p = (256 * unat (m (bda + 0x0F)) + unat (m (bda + 0x0E))) * 16 in
     case (if p \<noteq> 0 then mpsearch1 m p 1024
           else mpsearch1 m (u32_of (int ((256 * unat (m (bda + 0x14)) + unat (m (bda + 0x13))) * 1024) - 1024)) 1024) of
       Some mp \<Rightarrow> Some mp
     | None \<Rightarrow> mpsearch1 m 0xF0000 0x10000)"

text \<open>The configuration table and the floating pointer structure that leads to it.\<close>

definition mpconfig :: "memory \<Rightarrow> (nat \<times> nat) option" where
  "mpconfig m = (case mpsearch m of None \<Rightarrow> None | Some mp \<Rightarrow>
     if rd32 m (mp + 4) = 0 then None
     else let conf = P2V (rd32 m (mp + 4)) in
       if \<not> sig_at m conf pcmp_sig then None
       else if m (conf + 6) \<noteq> 1 \<and> m (conf + 6) \<noteq> 4 then None
       else if mp_sum m conf (rd16 m (conf + 4)) \<noteq> 0 then None
       else Some (mp, conf))"

section \<open>The walk over the entries\<close>

text \<open>The globals \<open>mpinit\<close> sets; \<open>mp_apicids\<close> are the \<open>apicid\<close> fields of the first \<open>ncpu\<close> processors.\<close>

record mp_st =
  mp_ismp :: bool
  mp_lapic :: nat
  mp_ioapicid :: byte
  mp_apicids :: "byte list"
  mp_imcr :: bool

definition MPPROC :: byte where "MPPROC = 0"
definition MPBUS :: byte where "MPBUS = 1"
definition MPIOAPIC :: byte where "MPIOAPIC = 2"
definition MPIOINTR :: byte where "MPIOINTR = 3"
definition MPLINTR :: byte where "MPLINTR = 4"

lemmas entry_type_defs = MPPROC_def MPBUS_def MPIOAPIC_def MPIOINTR_def MPLINTR_def

definition add_cpu :: "byte \<Rightarrow> mp_st \<Rightarrow> mp_st" where
  "add_cpu a st = (if length (mp_apicids st) < NCPU then st\<lparr>mp_apicids := mp_apicids st @ [a]\<rparr> else st)"

partial_function (option) mpinit_loop :: "memory \<Rightarrow> nat \<Rightarrow> nat \<Rightarrow> mp_st \<Rightarrow> mp_st option" where
  "mpinit_loop m p e st =
     (if p < e then
        if m p = MPPROC then mpinit_loop m (p + MPPROC_SIZE) e (add_cpu (m (p + 1)) st)
        else if m p = MPIOAPIC then mpinit_loop m (p + MPIOAPIC_SIZE) e (st\<lparr>mp_ioapicid := m (p + 1)\<rparr>)
        else if m p = MPBUS \<or> m p = MPIOINTR \<or> m p = MPLINTR then mpinit_loop m (p + 8) e st
        else mpinit_loop m p e (st\<lparr>mp_ismp := False\<rparr>)
      else Some st)"

definition mpinit :: "memory \<Rightarrow> mp_st \<Rightarrow> mp_st option" where
  "mpinit m st = (case mpconfig m of None \<Rightarrow> Some st | Some (mp, conf) \<Rightarrow>
     (case mpinit_loop m (conf + MPCONF_SIZE) (conf + rd16 m (conf + 4))
             (st\<lparr>mp_ismp := True, mp_lapic := rd32 m (conf + 36)\<rparr>) of
        None \<Rightarrow> None
      | Some st' \<Rightarrow>
          if \<not> mp_ismp st' then
            Some (st'\<lparr>mp_apicids := take 1 (mp_apicids st' @ [0]), mp_lapic := 0, mp_ioapicid := 0\<rparr>)
          else Some (if m (mp + 12) \<noteq> 0 then st'\<lparr>mp_imcr := True\<rparr> else st')))"

section \<open>When the walk ends\<close>

text \<open>
  The walk that the comment of the fallback code describes: entry after entry, it stops with
  \<open>False\<close> at the first entry of a type the kernel does not know.
\<close>

definition entry_size :: "byte \<Rightarrow> nat option" where
  "entry_size t = (if t = MPPROC then Some MPPROC_SIZE else if t = MPIOAPIC then Some MPIOAPIC_SIZE
     else if t = MPBUS \<or> t = MPIOINTR \<or> t = MPLINTR then Some 8 else None)"

lemma entry_size_pos: "entry_size t = Some k \<Longrightarrow> 0 < k"
  by (auto simp: entry_size_def MPPROC_SIZE_def MPIOAPIC_SIZE_def split: if_splits)

function entries_known :: "memory \<Rightarrow> nat \<Rightarrow> nat \<Rightarrow> bool" where
  "entries_known m p e =
     (if p < e then case entry_size (m p) of None \<Rightarrow> False | Some k \<Rightarrow> entries_known m (p + k) e else True)"
  by pat_completeness auto
termination by (relation "measure (\<lambda>(m, p, e). e - p)") (auto dest: entry_size_pos)

declare entries_known.simps [simp del]

text \<open>The processors that the known entries name, and the identifier of the last I/O APIC.\<close>

function entries_cpus :: "memory \<Rightarrow> nat \<Rightarrow> nat \<Rightarrow> byte list" where
  "entries_cpus m p e = (if p < e then case entry_size (m p) of None \<Rightarrow> []
     | Some k \<Rightarrow> (if m p = MPPROC then [m (p + 1)] else []) @ entries_cpus m (p + k) e else [])"
  by pat_completeness auto
termination by (relation "measure (\<lambda>(m, p, e). e - p)") (auto dest: entry_size_pos)

declare entries_cpus.simps [simp del]

definition entry_effect :: "memory \<Rightarrow> nat \<Rightarrow> mp_st \<Rightarrow> mp_st" where
  "entry_effect m p st = (if m p = MPPROC then add_cpu (m (p + 1)) st
     else if m p = MPIOAPIC then st\<lparr>mp_ioapicid := m (p + 1)\<rparr> else st)"

lemma mpinit_loop_step:
  "p < e \<Longrightarrow> entry_size (m p) = Some k \<Longrightarrow> mpinit_loop m p e st = mpinit_loop m (p + k) e (entry_effect m p st)"
  by (subst mpinit_loop.simps) (auto simp: entry_size_def entry_effect_def split: if_splits)

lemma entry_effect_other [simp]:
  "mp_ismp (entry_effect m p st) = mp_ismp st" "mp_lapic (entry_effect m p st) = mp_lapic st"
  by (simp_all add: entry_effect_def add_cpu_def)

lemma entry_effect_apicids:
  "take (max NCPU (length (mp_apicids (entry_effect m p st)))) (mp_apicids (entry_effect m p st) @ xs) =
   take (max NCPU (length (mp_apicids st))) (mp_apicids st @ (if m p = MPPROC then [m (p + 1)] else []) @ xs)"
  by (auto simp: entry_effect_def add_cpu_def max_def take_Cons' MPPROC_def MPIOAPIC_def)

lemma mpinit_loop_known:
  "entries_known m p e \<Longrightarrow> \<exists>st'. mpinit_loop m p e st = Some st' \<and> mp_ismp st' = mp_ismp st \<and>
     mp_lapic st' = mp_lapic st \<and> mp_apicids st' = take (max NCPU (length (mp_apicids st))) (mp_apicids st @ entries_cpus m p e)"
proof (induction m p e arbitrary: st rule: entries_known.induct)
  case (1 m p e)
  show ?case
  proof (cases "p < e")
    case False
    then show ?thesis by (simp add: mpinit_loop.simps [of m p] entries_cpus.simps [of m p])
  next
    case True
    then obtain k where k: "entry_size (m p) = Some k" and rest: "entries_known m (p + k) e"
      using "1.prems" by (auto simp: entries_known.simps [of m p] split: option.splits)
    show ?thesis
      using "1.IH" [OF True k rest, of "entry_effect m p st", unfolded entry_effect_apicids entry_effect_other]
        True k by (simp add: mpinit_loop_step entries_cpus.simps [of m p] del: take_append)
  qed
qed

lemma mpinit_loop_ends: "mpinit_loop m p e st = Some st' \<Longrightarrow> entries_known m p e"
proof (erule mpinit_loop.raw_induct [where P = "\<lambda>m p e st _. entries_known m p e", rotated])
  fix f m p e st y
  assume IH: "\<And>m p e st y. f m p e st = Some y \<Longrightarrow> entries_known m p e"
    and eq: "(if p < e then
        if m p = MPPROC then f m (p + MPPROC_SIZE) e (add_cpu (m (p + 1)) st)
        else if m p = MPIOAPIC then f m (p + MPIOAPIC_SIZE) e (st\<lparr>mp_ioapicid := m (p + 1)\<rparr>)
        else if m p = MPBUS \<or> m p = MPIOINTR \<or> m p = MPLINTR then f m (p + 8) e st
        else f m p e (st\<lparr>mp_ismp := False\<rparr>)
      else Some st) = Some y"
  show "entries_known m p e"
  proof (cases "p < e \<and> entry_size (m p) = None")
    case True
    then have "f m p e (st\<lparr>mp_ismp := False\<rparr>) = Some y"
      using eq by (simp add: entry_size_def split: if_splits)
    then show ?thesis by (rule IH)
  next
    case False
    then have "\<not> p < e \<or> (\<exists>k. entry_size (m p) = Some k \<and> entries_known m (p + k) e)"
      using eq by (auto simp: entry_size_def split: if_splits intro: IH)
    then show ?thesis by (subst entries_known.simps) auto
  qed
qed

text \<open>C27. The walk of \<open>mpinit\<close> over the configuration table ends exactly when every entry it reaches has a type the kernel
  knows. An entry of any other type makes it run for ever: the \<open>break\<close> of the \<open>default\<close> case leaves the
  \<open>switch\<close> but not the loop, and the position does not move. The fallback to a single processor after the loop is
  therefore never taken.\<close>

theorem mpinit_loop_ends_iff_known:
  "(\<exists>st'. mpinit_loop m p e st = Some st') = entries_known m p e \<and>
   (mpinit_loop m p e (st\<lparr>mp_ismp := True\<rparr>) = Some st' \<longrightarrow> mp_ismp st' \<and>
      mp_apicids st' = take (max NCPU (length (mp_apicids st))) (mp_apicids st @ entries_cpus m p e))"
  using mpinit_loop_known [of m p e st] mpinit_loop_known [of m p e "st\<lparr>mp_ismp := True\<rparr>"]
    mpinit_loop_ends [of m p e st] mpinit_loop_ends [of m p e "st\<lparr>mp_ismp := True\<rparr>" st']
  by auto

text \<open>A table of one processor entry and one bus entry.\<close>

definition mp_mem0 :: memory where
  "mp_mem0 a = (if a = 1 then 7 else if a = 20 then MPBUS else 0)"

definition mp_st0 :: mp_st where
  "mp_st0 = \<lparr>mp_ismp = True, mp_lapic = 0, mp_ioapicid = 0, mp_apicids = [], mp_imcr = False\<rparr>"

lemma mpinit_loop_ends_iff_known_witness:
  "mpinit_loop mp_mem0 0 28 (mp_st0\<lparr>mp_ismp := True\<rparr>) = Some (mp_st0\<lparr>mp_apicids := [7]\<rparr>) \<and>
   take (max NCPU 0) ([] @ entries_cpus mp_mem0 0 28) = [7]"
proof -
  have run: "mpinit_loop mp_mem0 0 28 (mp_st0\<lparr>mp_ismp := True\<rparr>) = Some (mp_st0\<lparr>mp_apicids := [7]\<rparr>)"
    by (simp add: mpinit_loop.simps mp_mem0_def mp_st0_def entry_type_defs MPPROC_SIZE_def add_cpu_def NCPU_def)
  show ?thesis
    using run mpinit_loop_ends_iff_known [of mp_mem0 0 28 mp_st0 "mp_st0\<lparr>mp_apicids := [7]\<rparr>"]
    by (simp add: mp_st0_def)
qed

end
