(* ===== verification/Content.thy ===== *)
theory Content
  imports Fs
begin

text \<open>
  What the inode layer and the content layer of \<open>fs.c\<close> do to the blocks of the disk as the buffer cache shows
  them: the on-disk inode survives a round trip, \<open>readi\<close> returns the bytes of the file, and \<open>writei\<close> changes
  exactly the bytes it was given.
\<close>

section \<open>The on-disk inode\<close>

text \<open>The fields of an in-memory inode fit the fields of \<open>struct dinode\<close>.\<close>

definition short_ok :: "int \<Rightarrow> bool" where
  "short_ok i \<longleftrightarrow> - 32768 \<le> i \<and> i < 32768"

definition inode_wf :: "inode \<Rightarrow> bool" where
  "inode_wf x \<longleftrightarrow> short_ok (i_type x) \<and> short_ok (i_major x) \<and> short_ok (i_minor x) \<and> short_ok (i_nlink x) \<and>
     i_size x < 4294967296 \<and> length (i_addrs x) = NDIRECT + 1 \<and> (\<forall>a\<in>set (i_addrs x). a < 4294967296)"

lemma s16_u16_of: "short_ok i \<Longrightarrow> s16 (u16_of i mod 65536) = i"
proof (cases "0 \<le> i")
  case True
  moreover assume "short_ok i"
  ultimately show ?thesis by (simp add: s16_def u16_of_def short_ok_def nat_mod_distrib)
next
  case False
  moreover assume "short_ok i"
  moreover have "i mod 65536 = i + 65536" using calculation
    by (simp add: short_ok_def mod_add_self2 [symmetric, of i] del: mod_add_self2)
  ultimately show ?thesis by (simp add: s16_def u16_of_def short_ok_def)
qed

lemma put_addrs_outside: "b < a \<or> a + 4 * length xs \<le> b \<Longrightarrow> put_addrs d a xs b = d b"
  by (induction xs arbitrary: d a) (auto simp: wr32_apply_other)

lemma put_addrs_nth: "j < length xs \<Longrightarrow> rd32 (put_addrs d a xs) (a + 4 * j) = u32 (xs ! j)"
proof (induction xs arbitrary: d a j)
  case (Cons x xs)
  show ?case
  proof (cases j)
    case 0
    have "rd32 (put_addrs (wr32 d a x) (a + 4) xs) a = rd32 (wr32 d a x) a"
      by (rule rd32_cong) (simp add: put_addrs_outside)
    then show ?thesis using 0 by simp
  next
    case (Suc k)
    then show ?thesis using Cons.IH [of k "wr32 d a x" "a + 4"] Cons.prems by (simp add: algebra_simps)
  qed
qed simp

lemma rd16_put_addrs: "b + 2 \<le> a \<Longrightarrow> rd16 (put_addrs d a xs) b = rd16 d b"
  by (simp add: rd16_def put_addrs_outside)

lemma rd16_wr32: "b + 2 \<le> a \<Longrightarrow> rd16 (wr32 d a v) b = rd16 d b"
  by (simp add: rd16_def wr32_apply_other)

lemma put_dinode_outside:
  assumes "length (i_addrs x) = NDIRECT + 1" "b < a \<or> a + DINODE_SIZE \<le> b"
  shows "put_dinode d a x b = d b"
  using assms by (auto simp: put_dinode_def put_addrs_outside wr32_apply_other wr16_apply_other DINODE_SIZE_def NDIRECT_def)

lemma get_put_dinode:
  assumes "inode_wf x"
  shows "get_dinode (put_dinode d a x) a y = y\<lparr>i_type := i_type x, i_major := i_major x, i_minor := i_minor x,
    i_nlink := i_nlink x, i_size := i_size x, i_addrs := i_addrs x\<rparr>"
proof -
  let ?p = "put_dinode d a x"
  have len: "length (i_addrs x) = Suc NDIRECT" and sz: "i_size x < 4294967296" using assms by (simp_all add: inode_wf_def)
  have "s16 (rd16 ?p a) = i_type x" "s16 (rd16 ?p (a + 2)) = i_major x" "s16 (rd16 ?p (a + 4)) = i_minor x"
    "s16 (rd16 ?p (a + 6)) = i_nlink x"
    using assms by (simp_all add: put_dinode_def rd16_put_addrs rd16_wr32 rd16_wr16_other s16_u16_of inode_wf_def)
  moreover have "rd32 ?p (a + 8) = i_size x"
  proof -
    have "rd32 ?p (a + 8) = rd32 (wr32 (wr16 (wr16 (wr16 (wr16 d a (u16_of (i_type x))) (a + 2) (u16_of (i_major x)))
     (a + 4) (u16_of (i_minor x))) (a + 6) (u16_of (i_nlink x))) (a + 8) (i_size x)) (a + 8)"
      unfolding put_dinode_def by (rule rd32_cong) (simp add: put_addrs_outside)
    then show ?thesis using sz by (simp add: u32_id)
  qed
  moreover have "map (\<lambda>j. rd32 ?p (a + 12 + 4 * j)) [0..<NDIRECT + 1] = i_addrs x"
  proof (rule nth_equalityI)
    fix j assume "j < length (map (\<lambda>j. rd32 ?p (a + 12 + 4 * j)) [0..<NDIRECT + 1])"
    then have j: "j < NDIRECT + 1" by simp
    then have "i_addrs x ! j < 4294967296" using assms len by (simp add: inode_wf_def)
    then show "map (\<lambda>j. rd32 ?p (a + 12 + 4 * j)) [0..<NDIRECT + 1] ! j = i_addrs x ! j"
      using j len put_addrs_nth [of j "i_addrs x"] by (simp add: put_dinode_def u32_id del: upt_Suc)
  qed (simp add: len)
  ultimately show ?thesis by (simp add: get_dinode_def)
qed

lemma dinode_off_bound: "dinode_off n + DINODE_SIZE \<le> BSIZE"
proof -
  have "n mod IPB < 8" by (simp add: IPB_def BSIZE_def DINODE_SIZE_def)
  then show ?thesis by (simp add: dinode_off_def BSIZE_def DINODE_SIZE_def)
qed

lemma put_addrs_inside:
  "(a \<le> k \<longrightarrow> k < a + 4 * length xs) \<Longrightarrow> (k < a \<longrightarrow> e k = e' k) \<Longrightarrow> put_addrs e a xs k = put_addrs e' a xs k"
proof (induction xs arbitrary: e e' a)
  case (Cons v xs)
  show ?case by (simp, rule Cons.IH) (use Cons.prems in \<open>auto simp: wr32_def wr16_def\<close>)
qed auto

lemma blk_put_dinode:
  assumes "length (i_addrs x) = NDIRECT + 1" "C b = blk d"
  shows "blk (put_dinode d (dinode_off n) x) = put_dinode (C b) (dinode_off n) x"
proof
  fix k
  show "blk (put_dinode d (dinode_off n) x) k = put_dinode (C b) (dinode_off n) x k"
  proof (cases "k < dinode_off n \<or> dinode_off n + DINODE_SIZE \<le> k")
    case True
    then show ?thesis using assms by (simp add: put_dinode_outside) (simp add: blk_def put_dinode_outside)
  next
    case False
    then have k: "dinode_off n \<le> k" "k < dinode_off n + DINODE_SIZE" "k < BSIZE" using dinode_off_bound [of n] by auto
    have "put_dinode d (dinode_off n) x k = put_dinode (blk d) (dinode_off n) x k" unfolding put_dinode_def
      by (rule put_addrs_inside) (use k assms(1) in \<open>auto simp: wr32_def wr16_def DINODE_SIZE_def NDIRECT_def blk_def\<close>)
    then show ?thesis using k assms(2) by (simp add: blk_def)
  qed
qed

section \<open>Writing and loading an inode\<close>

lemma inodes_of_more:
  assumes "log_st.more x = log_st.more y"
  shows "inodes x = inodes y" "inode_st.more x = inode_st.more y"
  using assms by (cases x, cases y, simp)+

lemma untouched_inodes: "untouched s t \<Longrightarrow> inodes t = inodes s"
  using untouched_log(8) inodes_of_more(1) by blast

lemma logframe_inodes: "logframe s t \<Longrightarrow> inodes t = inodes s \<and> sb t = sb s"
  using inodes_of_more(1) [of t s] sb_of_more(1) [of t s] by (simp add: logframe_def)

lemma cache_inodes [simp]: "cache p (s\<lparr>inodes := x\<rparr>) H C D X = cache p s H C D X"
  by (rule cache_cong) (simp_all add: quiet_def on_cpu_def the_cpu_def table_ok_def sched_inv_defs)

text \<open>Reading a block and giving it back at once, outside of a transaction.\<close>

lemma cache_bread_release:
  assumes c: "cache p s H C D X" and b: "b < disksize s" "b \<notin> ran H" "card (dom H) + card X < NBUF"
  shows "\<exists>i u v. bread 1 b s = Ok i u \<and> untouched s u \<and> C b = blk (b_data (bufs u ! i)) \<and>
    brelse i u = Ok () v \<and> cache p v H C D X \<and> untouched s v \<and> H i = None \<and> cache p u (H(i \<mapsto> b)) C D X"
proof -
  obtain i u where u: "bread 1 b s = Ok i u" "H i = None" "cache p u (H(i \<mapsto> b)) C D X" "untouched s u"
    using cache_bread [OF c b(1,2)] b(3) by blast
  have "b \<in> X \<or> C b = D b" using cache_clean [OF c, of b] b(2) by blast
  moreover have "(H(i \<mapsto> b))(i := None) = H" using u(2) by auto
  ultimately obtain v where "brelse i u = Ok () v" "cache p v H C D X" "untouched u v"
    using cache_brelse [OF u(3), of i b] by auto
  moreover have "C b = blk (b_data (bufs u ! i))" using cache_data [OF u(3), of i b] by simp
  ultimately show ?thesis using u untouched_trans by blast
qed

lemma iupdate_run:
  assumes t: "txn p s H C D X k" and x: "x = inodes s ! ip" "i_dev x = 1" "length (i_addrs x) = NDIRECT + 1"
    and b: "b = IBLOCK (i_inum x) (sb s)" "b < disksize s" "b \<notin> ran H" "card (dom H) \<le> 1" "b \<notin> log_region s" "b \<in> X \<or> 0 < k"
  shows "\<exists>t. iupdate ip s = Ok () t \<and> logframe s t \<and>
    txn p t H (C(b := put_dinode (C b) (dinode_off (i_inum x)) x)) D (insert b X) (k - 1)"
proof -
  obtain i u where u: "bread 1 b s = Ok i u" "H i = None" "txn p u (H(i \<mapsto> b)) C D X k" "untouched s u"
    using txn_bread [OF t b(2-4)] by blast
  have C: "C b = blk (b_data (bufs u ! i))" using cache_data [OF txn_cache [OF u(3)], of i b] by simp
  have "b \<notin> log_region u" using b(5) untouched_log [OF u(4)] by (simp add: log_region_def)
  from txn_write_release [OF u(3) _ _ this, of i "\<lambda>d. put_dinode d (dinode_off (i_inum x)) x"] b(6)
  obtain v where v: "run [upd_buf i (\<lambda>y. y\<lparr>b_data := put_dinode (b_data y) (dinode_off (i_inum x)) x\<rparr>), log_write i, brelse i] u = Ok () v"
    "txn p v ((H(i \<mapsto> b))(i := None)) (C(b := blk (put_dinode (b_data (bufs u ! i)) (dinode_off (i_inum x)) x))) D (insert b X) (k - 1)"
    "logframe u v" by auto
  have "(H(i \<mapsto> b))(i := None) = H" using u(2) by auto
  moreover have "logframe s v" using logframe_trans [OF untouched_logframe [OF u(4)] v(3)] .
  ultimately show ?thesis using u(1) v x b(1) untouched_inodes [OF u(4)] blk_put_dinode [where C = C and b = b, OF x(3) C]
    by (simp add: iupdate_def exec_simps)
qed

lemma iload_run:
  assumes c: "cache p s H C D X" and x: "x = inodes s ! ip" "ip < length (inodes s)" "i_dev x = 1"
    and b: "b = IBLOCK (i_inum x) (sb s)" "b < disksize s" "b \<notin> ran H" "card (dom H) + card X < NBUF"
    and y: "y = (get_dinode (C b) (dinode_off (i_inum x)) x)\<lparr>i_valid := True\<rparr>" "i_type y \<noteq> 0"
  shows "\<exists>t. iload ip s = Ok () t \<and> cache p t H C D X \<and> inodes t = (inodes s)[ip := y]"
proof -
  obtain i u v where u: "bread 1 b s = Ok i u" "untouched s u" "C b = blk (b_data (bufs u ! i))"
    "H i = None" "cache p u (H(i \<mapsto> b)) C D X" using cache_bread_release [OF c b(2-4)] by blast
  let ?d = "b_data (bufs u ! i)" let ?z = "get_dinode ?d (dinode_off (i_inum x)) x"
  let ?u = "u\<lparr>inodes := (inodes s)[ip := ?z]\<rparr>"
  have "b \<in> X \<or> C b = D b" using cache_clean [OF c, of b] b(3) by blast
  moreover have "(H(i \<mapsto> b))(i := None) = H" using u(4) by auto
  ultimately obtain w where w: "brelse i ?u = Ok () w" "cache p w H C D X" "untouched ?u w"
    using cache_brelse [of p ?u "H(i \<mapsto> b)" C D X i b] u(5) by auto
  have off: "dinode_off (i_inum x) + 64 \<le> BSIZE" using dinode_off_bound by (simp add: DINODE_SIZE_def)
  have rd: "rd16 (blk d) a = rd16 d a" if "a + 2 \<le> BSIZE" for d a using that by (simp add: rd16_def blk_def)
  have z: "?z = get_dinode (C b) (dinode_off (i_inum x)) x"
    using u(3) off by (auto simp: get_dinode_def rd rd32_blk NDIRECT_def)
  have "iload ip s = Ok () (w\<lparr>inodes := (inodes s)[ip := y]\<rparr>)"
    using u(1) w(1) untouched_inodes [OF u(2)] untouched_inodes [OF w(3)] x b(1) z y
    by (simp add: iload_def exec_simps upd_inode_def)
  then show ?thesis using w(2) by auto
qed

lemma txn_room: "txn p s Map.empty C D X k \<Longrightarrow> card (dom (Map.empty :: nat \<rightharpoonup> nat)) + card X < NBUF"
  using txn_card by fastforce

text \<open>C19. What \<open>iupdate\<close> writes into the inode's block, a later \<open>ilock\<close> of any cache entry for the inode loads back: type,
  device numbers, link count, size and all block addresses. The rest of the entry, and all other entries, stay as they are.\<close>

theorem iupdate_iload_roundtrip:
  assumes t: "txn p s Map.empty C D X k" "0 < k" and x: "x = inodes s ! ip" "inode_wf x" "i_dev x = 1" "i_type x \<noteq> 0"
    and j: "j < length (inodes s)" "i_dev (inodes s ! j) = 1" "i_inum (inodes s ! j) = i_inum x"
    and b: "IBLOCK (i_inum x) (sb s) < disksize s" "IBLOCK (i_inum x) (sb s) \<notin> log_region s"
  shows "\<exists>t. run [iupdate ip, iload j] s = Ok () t \<and> inodes t = (inodes s)[j := (inodes s ! j)
    \<lparr>i_type := i_type x, i_major := i_major x, i_minor := i_minor x, i_nlink := i_nlink x, i_size := i_size x,
     i_addrs := i_addrs x, i_valid := True\<rparr>]"
proof -
  let ?b = "IBLOCK (i_inum x) (sb s)" let ?C = "C(?b := put_dinode (C ?b) (dinode_off (i_inum x)) x)"
  have len: "length (i_addrs x) = NDIRECT + 1" using x(2) by (simp add: inode_wf_def)
  obtain u where u: "iupdate ip s = Ok () u" "logframe s u" "txn p u Map.empty ?C D (insert ?b X) (k - 1)"
    using iupdate_run [OF t(1) x(1,3) len refl b(1) _ _ b(2)] t(2) by auto
  have f: "inodes u = inodes s" "sb u = sb s" "disksize u = disksize s"
    using logframe_inodes [OF u(2)] u(2) by (simp_all add: logframe_def)
  note g = get_put_dinode [OF x(2), of "C ?b" "dinode_off (i_inum x)" "inodes s ! j"]
  obtain v where "iload j u = Ok () v" "inodes v = (inodes u)[j := (inodes s ! j)
    \<lparr>i_type := i_type x, i_major := i_major x, i_minor := i_minor x, i_nlink := i_nlink x, i_size := i_size x,
     i_addrs := i_addrs x, i_valid := True\<rparr>]"
    using iload_run [OF txn_cache [OF u(3)] refl _ _ refl _ _ txn_room [OF u(3)] refl, of j] f j b(1) g x(4) by auto
  then show ?thesis using u(1) f(1) by (auto simp: exec_simps)
qed

section \<open>Reading a file\<close>

text \<open>The disk block of block \<open>bn\<close> of a file, and byte \<open>i\<close> of the file, as the cache shows them.\<close>

definition fblock :: "inode \<Rightarrow> (nat \<Rightarrow> memory) \<Rightarrow> nat \<Rightarrow> nat" where
  "fblock x C bn = (if bn < NDIRECT then i_addrs x ! bn else rd32 (C (i_addrs x ! NDIRECT)) (4 * (bn - NDIRECT)))"

definition fbyte :: "inode \<Rightarrow> (nat \<Rightarrow> memory) \<Rightarrow> nat \<Rightarrow> byte" where
  "fbyte x C i = C (fblock x C (i div BSIZE)) (i mod BSIZE)"

text \<open>The first \<open>n\<close> bytes of the file have blocks on the disk.\<close>

definition fmapped :: "nat \<Rightarrow> inode \<Rightarrow> (nat \<Rightarrow> memory) \<Rightarrow> nat \<Rightarrow> bool" where
  "fmapped N x C n \<longleftrightarrow> n \<le> MAXFILE * BSIZE \<and> (\<forall>bn. bn * BSIZE < n \<longrightarrow> 0 < fblock x C bn \<and> fblock x C bn < N \<and>
     (NDIRECT \<le> bn \<longrightarrow> 0 < i_addrs x ! NDIRECT \<and> i_addrs x ! NDIRECT < N))"

lemma fmapped_le: "fmapped N x C n \<Longrightarrow> m \<le> n \<Longrightarrow> fmapped N x C m"
  by (force simp: fmapped_def)

lemma BSIZE_pos [simp]: "0 < BSIZE"
  by (simp add: BSIZE_def)

lemma bmap_mapped:
  assumes c: "cache p s Map.empty C D X" "card X < NBUF" and x: "x = inodes s ! ip" "i_dev x = 1"
    and m: "fmapped (disksize s) x C n" "bn * BSIZE < n"
  shows "\<exists>t. bmap ip bn s = Ok (fblock x C bn) t \<and> cache p t Map.empty C D X \<and> untouched s t"
proof (cases "bn < NDIRECT")
  case True
  then have "i_addrs (inodes s ! ip) ! bn = fblock x C bn" "0 < fblock x C bn"
    using m x by (auto simp: fblock_def fmapped_def)
  then show ?thesis using c(1) True by (auto simp: bmap_def bmap_slot_def exec_simps Let_def)
next
  case False
  let ?a = "i_addrs x ! NDIRECT"
  have "bn * BSIZE < MAXFILE * BSIZE" using m unfolding fmapped_def by linarith
  then have bn: "bn - NDIRECT < NINDIRECT" using False by (simp add: MAXFILE_def)
  have a: "0 < ?a" "?a < disksize s" "0 < fblock x C bn" using m False by (auto simp: fmapped_def)
  obtain i u v where u: "bread 1 ?a s = Ok i u" "C ?a = blk (b_data (bufs u ! i))" "brelse i u = Ok () v"
    "cache p v Map.empty C D X" "untouched s v"
    using cache_bread_release [OF c(1) a(2)] c(2) by auto
  have "4 * (bn - NDIRECT) + 4 \<le> BSIZE" using bn by (simp add: NINDIRECT_def BSIZE_def)
  then have "rd32 (b_data (bufs u ! i)) (4 * (bn - NDIRECT)) = fblock x C bn"
    using u(2) False by (simp add: fblock_def rd32_blk)
  then show ?thesis using False bn a u x
    by (simp add: bmap_def bmap_indirect_def bmap_slot_def exec_simps Let_def)
qed

lemma block_step:
  assumes "0 < n" "m = min n (BSIZE - off mod BSIZE)"
  shows "0 < m" "m \<le> n" "off div BSIZE * BSIZE < off + n"
    "k < m \<Longrightarrow> (off + k) div BSIZE = off div BSIZE \<and> (off + k) mod BSIZE = off mod BSIZE + k"
proof -
  have "off mod BSIZE < BSIZE" by simp
  then show "0 < m" "m \<le> n" using assms by (simp_all)
  have "off div BSIZE * BSIZE \<le> off" by simp
  then show "off div BSIZE * BSIZE < off + n" using assms(1) by linarith
  show "(off + k) div BSIZE = off div BSIZE \<and> (off + k) mod BSIZE = off mod BSIZE + k" if "k < m"
  proof -
    have "off + k = off div BSIZE * BSIZE + (off mod BSIZE + k)" by simp
    moreover have "off mod BSIZE + k < BSIZE" using that assms(2) \<open>off mod BSIZE < BSIZE\<close> by linarith
    ultimately show ?thesis by (metis BSIZE_pos div_less div_mult_self3 mod_less mod_mult_self3 neq0_conv add_0_right)
  qed
qed

lemma readi_loop_run:
  "cache p s Map.empty C D X \<Longrightarrow> card X < NBUF \<Longrightarrow> x = inodes s ! ip \<Longrightarrow> i_dev x = 1 \<Longrightarrow> fmapped (disksize s) x C (off + n) \<Longrightarrow>
   \<exists>t. readi_loop ip off n bs s = Ok (bs @ map (fbyte x C) [off..<off + n]) t \<and> cache p t Map.empty C D X \<and> untouched s t"
proof (induction n arbitrary: off bs s rule: less_induct)
  case (less n)
  show ?case
  proof (cases "n = 0")
    case True
    then show ?thesis using less.prems(1) by (subst readi_loop.simps) (simp add: exec_simps)
  next
    case False
    define m where "m = min n (BSIZE - off mod BSIZE)"
    let ?b = "fblock x C (off div BSIZE)"
    note st = block_step [OF _ m_def]
    have st': "0 < m" "m \<le> n" "off div BSIZE * BSIZE < off + n" using st False by auto
    obtain u where u: "bmap ip (off div BSIZE) s = Ok ?b u" "cache p u Map.empty C D X" "untouched s u"
      using bmap_mapped [OF less.prems(1-5) st'(3)] by blast
    have fu: "inodes u = inodes s" "disksize u = disksize s" using untouched_inodes [OF u(3)] untouched_log [OF u(3)] by simp_all
    have "?b < disksize u" using less.prems(5) st'(3) fu by (simp add: fmapped_def)
    then obtain i v w where v: "bread 1 ?b u = Ok i v" "untouched u v" "C ?b = blk (b_data (bufs v ! i))" "brelse i v = Ok () w"
      "cache p w Map.empty C D X" "untouched u w"
      using cache_bread_release [OF u(2), of ?b] less.prems(2) by auto
    have fw: "inodes w = inodes s" "disksize w = disksize s"
      using untouched_inodes [OF v(6)] untouched_log [OF v(6)] fu by simp_all
    have bytes: "map (\<lambda>k. b_data (bufs v ! i) (off mod BSIZE + k)) [0..<m] = map (fbyte x C) [off..<off + m]"
    proof (rule nth_equalityI)
      fix k assume "k < length (map (\<lambda>k. b_data (bufs v ! i) (off mod BSIZE + k)) [0..<m])"
      then have k: "k < m" by simp
      have "off mod BSIZE + k < BSIZE" using st(4) [of k] k False mod_less_divisor [OF BSIZE_pos, of "off + k"] by simp
      then show "map (\<lambda>k. b_data (bufs v ! i) (off mod BSIZE + k)) [0..<m] ! k = map (fbyte x C) [off..<off + m] ! k"
        using k st(4) [of k] False v(3) by (simp add: fbyte_def blk_def)
    qed simp
    have "n - m < n" "off + m + (n - m) = off + n" using st' by auto
    then obtain t where t: "readi_loop ip (off + m) (n - m) (bs @ map (fbyte x C) [off..<off + m]) w =
        Ok ((bs @ map (fbyte x C) [off..<off + m]) @ map (fbyte x C) [off + m..<off + n]) t"
      "cache p t Map.empty C D X" "untouched w t"
      using less.IH [of "n - m" w "off + m" "bs @ map (fbyte x C) [off..<off + m]"] less.prems v(5) fw by auto
    have "[off..<off + n] = [off..<off + m] @ [off + m..<off + n]"
      using st'(2) upt_add_eq_append [of off "off + m" "n - m"] by simp
    moreover have "readi_loop ip off n bs s = readi_loop ip (off + m) (n - m) (bs @ map (fbyte x C) [off..<off + m]) w"
      using False u(1) v(1,4) fu less.prems(3,4) bytes
      by (subst readi_loop.simps) (simp add: exec_simps Let_def flip: m_def)
    ultimately show ?thesis using t untouched_trans [OF u(3) untouched_trans [OF v(6) t(3)]] by simp
  qed
qed

lemma readi_run:
  assumes c: "cache p s Map.empty C D X" "card X < NBUF" and x: "x = inodes s ! ip" "i_dev x = 1" "i_type x \<noteq> T_DEV"
    and f: "fmapped (disksize s) x C (i_size x)" and n: "off \<le> i_size x" "off + n < 4294967296" and m: "m = min n (i_size x - off)"
  shows "\<exists>t. readi ip off n s = Ok (int m, map (fbyte x C) [off..<off + m]) t \<and> cache p t Map.empty C D X \<and> untouched s t"
proof -
  have "i_size x \<le> 71680" using f by (simp add: fmapped_def MAXFILE_def NDIRECT_def NINDIRECT_def BSIZE_def)
  then have s32: "s32 m = int m" by (auto simp: s32_def m)
  have m': "(if i_size x < u32 (off + n) then i_size x - off else n) = m" using n by (auto simp: m u32_id)
  have "off + m \<le> i_size x" using n unfolding m by linarith
  then obtain t where t: "readi_loop ip off m [] s = Ok ([] @ map (fbyte x C) [off..<off + m]) t"
    "cache p t Map.empty C D X" "untouched s t"
    using readi_loop_run [OF c x(1,2) fmapped_le [OF f]] by blast
  have "\<not> (i_size x < off \<or> u32 (off + n) < off)" using n by (simp add: u32_id)
  then have "readi ip off n s = Ok (int m, map (fbyte x C) [off..<off + m]) t"
    using t(1) s32 x(3) unfolding readi_def exec_simps(6) x(1) [symmetric] Let_def m' by (simp add: exec_simps)
  then show ?thesis using t by simp
qed

text \<open>C4. \<open>readi\<close> on a file whose blocks are on the disk: it returns exactly the bytes \<open>[off, off + n)\<close> of the file as the
  buffer cache shows it, cut at the file's size, and how many there are; an offset behind the end or a range that wraps around
  32 bits is refused. Nothing but the buffers in the cache moves.\<close>

theorem readi_reads:
  assumes c: "cache p s Map.empty C D X" "card X < NBUF" and x: "x = inodes s ! ip" "i_dev x = 1" "i_type x \<noteq> T_DEV"
    and f: "fmapped (disksize s) x C (i_size x)" and n: "off < 4294967296" "n < 4294967296"
  shows "if off \<le> i_size x \<and> off + n < 4294967296
    then (let m = min n (i_size x - off) in
      \<exists>t. readi ip off n s = Ok (int m, map (fbyte x C) [off..<off + m]) t \<and> cache p t Map.empty C D X \<and> untouched s t)
    else readi ip off n s = Ok (-1, []) s"
proof (cases "off \<le> i_size x \<and> off + n < 4294967296")
  case True
  then show ?thesis using readi_run [OF c x f _ _ refl, of off n] by (simp only: Let_def if_True simp_thms)
next
  case False
  then have "i_size x < off \<or> u32 (off + n) < off" using n by (auto simp: u32_def not_less le_mod_geq)
  then have "readi ip off n s = Ok (-1, []) s" using x by (auto simp add: readi_def exec_simps Let_def)
  then show ?thesis using False by (simp only: if_False)
qed

section \<open>Writing over a file\<close>

text \<open>No disk block carries two blocks of the file, and none of them is the file's block of addresses.\<close>

definition fdistinct :: "inode \<Rightarrow> (nat \<Rightarrow> memory) \<Rightarrow> nat \<Rightarrow> bool" where
  "fdistinct x C n \<longleftrightarrow> (\<forall>bn bn'. bn * BSIZE < n \<longrightarrow> bn' * BSIZE < n \<longrightarrow> fblock x C bn = fblock x C bn' \<longrightarrow> bn = bn') \<and>
     (\<forall>bn. bn * BSIZE < n \<longrightarrow> NDIRECT * BSIZE < n \<longrightarrow> fblock x C bn \<noteq> i_addrs x ! NDIRECT)"

definition same_blocks :: "inode \<Rightarrow> (nat \<Rightarrow> memory) \<Rightarrow> (nat \<Rightarrow> memory) \<Rightarrow> nat \<Rightarrow> bool" where
  "same_blocks x C C' n \<longleftrightarrow> (\<forall>bn. bn * BSIZE < n \<longrightarrow> fblock x C' bn = fblock x C bn)"

definition overlaid :: "inode \<Rightarrow> (nat \<Rightarrow> memory) \<Rightarrow> (nat \<Rightarrow> memory) \<Rightarrow> nat \<Rightarrow> byte list \<Rightarrow> nat \<Rightarrow> bool" where
  "overlaid x C C' off src n \<longleftrightarrow>
     (\<forall>i < n. fbyte x C' i = (if off \<le> i \<and> i < off + length src then src ! (i - off) else fbyte x C i))"

lemma same_blocks_keeps:
  assumes "same_blocks x C C' n"
  shows "fmapped N x C' n = fmapped N x C n" "fdistinct x C' n = fdistinct x C n"
  using assms by (auto simp: same_blocks_def fmapped_def fdistinct_def)

lemma same_blocks_trans: "same_blocks x C C' n \<Longrightarrow> same_blocks x C' C'' n \<Longrightarrow> same_blocks x C C'' n"
  by (simp add: same_blocks_def)

lemma overlaid_append:
  assumes "overlaid x C C' off a n" "overlaid x C' C'' (off + length a) b n"
  shows "overlaid x C C'' off (a @ b) n"
  using assms by (auto simp: overlaid_def nth_append)

lemma file_block_lt: "i < n \<Longrightarrow> i div BSIZE * BSIZE < n"
  using div_times_less_eq_dividend [of i BSIZE] by linarith

lemma overlay_block:
  assumes d: "fdistinct x C n" and b: "b = fblock x C (off div BSIZE)" "C b = blk d" and m: "off mod BSIZE + m \<le> BSIZE" "off < n"
    and len: "m \<le> length src" and C': "C' = C(b := blk (copy_bytes d (off mod BSIZE) (\<lambda>k. src ! k) 0 m))"
  shows "same_blocks x C C' n" "overlaid x C C' off (take m src) n"
proof -
  note ob = file_block_lt [OF m(2)]
  show sb: "same_blocks x C C' n" unfolding same_blocks_def
  proof (intro allI impI)
    fix bn assume bn: "bn * BSIZE < n"
    show "fblock x C' bn = fblock x C bn"
    proof (cases "bn < NDIRECT")
      case False
      then have "NDIRECT * BSIZE \<le> bn * BSIZE" by (simp add: mult_le_mono1)
      then have "b \<noteq> i_addrs x ! NDIRECT" using d ob bn b(1) unfolding fdistinct_def by (meson le_less_trans)
      then show ?thesis using False C' by (simp add: fblock_def)
    qed (simp add: fblock_def)
  qed
  show "overlaid x C C' off (take m src) n" unfolding overlaid_def
  proof (intro allI impI)
    fix i assume i: "i < n"
    have same: "fblock x C' (i div BSIZE) = fblock x C (i div BSIZE)"
      using sb file_block_lt [OF i] by (simp add: same_blocks_def)
    have at: "off \<le> i \<and> i < off + m \<longleftrightarrow> i div BSIZE = off div BSIZE \<and> off mod BSIZE \<le> i mod BSIZE \<and> i mod BSIZE < off mod BSIZE + m"
      (is "?L \<longleftrightarrow> ?R")
    proof
      assume ?L
      then have "i = off div BSIZE * BSIZE + (off mod BSIZE + (i - off))" by simp
      moreover have "off mod BSIZE + (i - off) < BSIZE" using \<open>?L\<close> m by linarith
      ultimately have "i div BSIZE = off div BSIZE" "i mod BSIZE = off mod BSIZE + (i - off)"
        by (metis BSIZE_pos div_less div_mult_self3 neq0_conv add_0_right, metis mod_less mod_mult_self3)
      then show ?R using \<open>?L\<close> by linarith
    next
      assume R: ?R
      then have "off div BSIZE * BSIZE + i mod BSIZE = i" by (metis div_mult_mod_eq)
      then show ?L using R div_mult_mod_eq [of off BSIZE] by linarith
    qed
    show "fbyte x C' i = (if off \<le> i \<and> i < off + length (take m src) then take m src ! (i - off) else fbyte x C i)"
    proof (cases "i div BSIZE = off div BSIZE")
      case True
      have "i mod BSIZE - off mod BSIZE = i - off" if "off mod BSIZE \<le> i mod BSIZE"
        using that True div_mult_mod_eq [of i BSIZE] div_mult_mod_eq [of off BSIZE] by (metis add_diff_cancel_left)
      then show ?thesis using at True same len b C' by (auto simp: fbyte_def blk_def copy_bytes_def min_def)
    next
      case False
      then have "fblock x C (i div BSIZE) \<noteq> b" using d b(1) ob file_block_lt [OF i] by (auto simp: fdistinct_def)
      then show ?thesis using at False same C' len by (auto simp: fbyte_def)
    qed
  qed
qed

text \<open>One turn of \<open>writei\<close>'s loop, and the loop. \<open>k\<close> more blocks may be logged, and that is enough for the range.\<close>

lemma writei_block:
  assumes t: "txn p s Map.empty C D X k" "0 < k" and x: "x = inodes s ! ip" "i_dev x = 1"
    and f: "fmapped (disksize s) x C n" "fdistinct x C n" "\<forall>bn. bn * BSIZE < n \<longrightarrow> fblock x C bn \<notin> log_region s"
    and off: "off < n" and m: "src \<noteq> []" "m = min (length src) (BSIZE - off mod BSIZE)"
  shows "\<exists>w C' X'. writei_loop ip off src s = writei_loop ip (off + m) (drop m src) w \<and> logframe s w \<and>
    txn p w Map.empty C' D X' (k - 1) \<and> same_blocks x C C' n \<and> overlaid x C C' off (take m src) n"
proof -
  let ?b = "fblock x C (off div BSIZE)" let ?f = "\<lambda>d. copy_bytes d (off mod BSIZE) (\<lambda>k. src ! k) 0 m"
  note ob = file_block_lt [OF off]
  have om: "off mod BSIZE < BSIZE" by simp
  have m': "m \<le> length src" "off mod BSIZE + m \<le> BSIZE" using om m(2) by linarith+
  have cX: "card X < NBUF" using txn_card [OF t(1)] by simp
  obtain u where u: "bmap ip (off div BSIZE) s = Ok ?b u" "cache p u Map.empty C D X" "untouched s u"
    using bmap_mapped [OF txn_cache [OF t(1)] cX x f(1) ob] by blast
  note tu = txn_untouched [OF t(1) u(2,3)]
  have "?b < disksize u" using f(1) ob untouched_log [OF u(3)] by (simp add: fmapped_def)
  then obtain i v where v: "bread 1 ?b u = Ok i v" "txn p v (Map.empty(i \<mapsto> ?b)) C D X k" "untouched u v"
    using txn_bread [OF tu, of ?b] by auto
  have Cb: "C ?b = blk (b_data (bufs v ! i))" using cache_data [OF txn_cache [OF v(2)], of i ?b] by simp
  have sv: "untouched s v" using untouched_trans [OF u(3) v(3)] .
  then have "?b \<notin> log_region v" using f(3) ob untouched_log [OF sv] by (simp add: log_region_def)
  from txn_write_release [OF v(2) _ _ this, of i ?f] t(2)
  obtain w where w: "run [upd_buf i (\<lambda>x. x\<lparr>b_data := ?f (b_data x)\<rparr>), log_write i, brelse i] v = Ok () w"
    "txn p w Map.empty (C(?b := blk (?f (b_data (bufs v ! i))))) D (insert ?b X) (k - 1)" "logframe v w" by auto
  have "writei_loop ip off src s = writei_loop ip (off + m) (drop m src) w"
    using m u(1) v(1) x untouched_inodes [OF u(3)] w(1)
    by (subst writei_loop.simps) (simp add: andthen_def Let_def exec_simps(6) del: run.simps)
  moreover have "logframe s w" using logframe_trans [OF untouched_logframe [OF sv] w(3)] .
  ultimately show ?thesis using w(2) overlay_block [OF f(2) refl Cb m'(2) off m'(1) refl] by blast
qed

lemma blocks_left:
  assumes "off mod BSIZE + l \<le> k * BSIZE" "m = min l (BSIZE - off mod BSIZE)" "m < l"
  shows "(off + m) mod BSIZE + (l - m) \<le> (k - 1) * BSIZE"
proof -
  have "off mod BSIZE < BSIZE" by simp
  then have m: "off mod BSIZE + m = BSIZE" using assms(2,3) by simp
  then have "(off + m) mod BSIZE = 0" by (metis mod_add_left_eq mod_self)
  moreover have "BSIZE + (l - m) \<le> k * BSIZE" using assms(1,3) m by linarith
  ultimately show ?thesis by (simp add: diff_mult_distrib)
qed

lemma writei_loop_run:
  "txn p s Map.empty C D X k \<Longrightarrow> x = inodes s ! ip \<Longrightarrow> i_dev x = 1 \<Longrightarrow> fmapped (disksize s) x C n \<Longrightarrow> fdistinct x C n \<Longrightarrow>
   \<forall>bn. bn * BSIZE < n \<longrightarrow> fblock x C bn \<notin> log_region s \<Longrightarrow> off + length src \<le> n \<Longrightarrow> off mod BSIZE + length src \<le> k * BSIZE \<Longrightarrow>
   \<exists>t C' X' j. writei_loop ip off src s = Ok () t \<and> logframe s t \<and> txn p t Map.empty C' D X' j \<and>
     same_blocks x C C' n \<and> overlaid x C C' off src n"
proof (induction src arbitrary: off s C X k rule: length_induct)
  case (1 src)
  have stop_here: "\<exists>t C' X' j. writei_loop ip o' [] w = Ok () t \<and> logframe w t \<and> txn p t Map.empty C' D X' j \<and>
     same_blocks x B C' n \<and> overlaid x B C' o' [] n" if "txn p w Map.empty B D Y l" for w B Y l o'
    using that by (subst writei_loop.simps) (fastforce simp: exec_simps same_blocks_def overlaid_def)
  show ?case
  proof (cases "src = []")
    case True
    then show ?thesis using stop_here [OF 1(2)] by simp
  next
    case False
    define m where "m = min (length src) (BSIZE - off mod BSIZE)"
    have l: "0 < length src" using False by simp
    then have off: "off < n" "0 < m" using 1(8) by (linarith, simp add: m_def)
    have k: "0 < k" using 1(9) False by (cases k) auto
    obtain w C' X' where w: "writei_loop ip off src s = writei_loop ip (off + m) (drop m src) w" "logframe s w"
      "txn p w Map.empty C' D X' (k - 1)" "same_blocks x C C' n" "overlaid x C C' off (take m src) n"
      using writei_block [OF 1(2) k 1(3-7) off(1) False m_def] by blast
    have fw: "inodes w = inodes s" "disksize w = disksize s" "log_region w = log_region s"
      using logframe_inodes [OF w(2)] w(2) by (simp_all add: logframe_def log_region_def)
    have "\<exists>t C'' X' j. writei_loop ip (off + m) (drop m src) w = Ok () t \<and> logframe w t \<and> txn p t Map.empty C'' D X' j \<and>
      same_blocks x C' C'' n \<and> overlaid x C' C'' (off + m) (drop m src) n"
    proof (cases "m < length src")
      case True
      note left = blocks_left [OF 1(9) m_def True]
      show ?thesis using 1(1) [rule_format, OF _ w(3)] True left off(2) 1(3-8) fw same_blocks_keeps [OF w(4)] w(4)
        by (simp add: same_blocks_def)
    qed (use stop_here [OF w(3)] in simp)
    then obtain t C'' X'' j where t: "writei_loop ip (off + m) (drop m src) w = Ok () t" "logframe w t"
      "txn p t Map.empty C'' D X'' j" "same_blocks x C' C'' n" "overlaid x C' C'' (off + m) (drop m src) n" by blast
    have "length (take m src) = m" by (simp add: m_def)
    then have "overlaid x C C'' off (take m src @ drop m src) n" using overlaid_append [OF w(5)] t(5) by metis
    then show ?thesis using t(1,3) w(1) logframe_trans [OF w(2) t(2)] same_blocks_trans [OF w(4) t(4)] by auto
  qed
qed

text \<open>C3. \<open>writei\<close> over a part of a file that has its blocks: it reports all bytes written, every byte of the range has the
  new value and every other byte of the file its old one; no block changes its place, and a \<open>readi\<close> of the range gives the
  bytes back. The writes are part of the open transaction: the disk behind the log is as before. The transaction needs room for
  as many blocks as the range touches.\<close>

theorem writei_overwrites:
  assumes t: "txn p s Map.empty C D X k" and x: "x = inodes s ! ip" "i_dev x = 1" "i_type x \<noteq> T_DEV"
    and f: "fmapped (disksize s) x C (i_size x)" "fdistinct x C (i_size x)"
      "\<forall>bn. bn * BSIZE < i_size x \<longrightarrow> fblock x C bn \<notin> log_region s"
    and n: "off + length src \<le> i_size x" "off mod BSIZE + length src \<le> k * BSIZE"
  shows "\<exists>t C' X' j. writei ip src off s = Ok (int (length src)) t \<and> logframe s t \<and> txn p t Map.empty C' D X' j \<and>
    (\<forall>i < i_size x. fbyte x C' i = (if off \<le> i \<and> i < off + length src then src ! (i - off) else fbyte x C i)) \<and>
    (\<forall>bn. bn * BSIZE < i_size x \<longrightarrow> fblock x C' bn = fblock x C bn) \<and>
    (\<exists>v. readi ip off (length src) t = Ok (int (length src), src) v)"
proof -
  obtain u C' X' j where u: "writei_loop ip off src s = Ok () u" "logframe s u" "txn p u Map.empty C' D X' j"
    "same_blocks x C C' (i_size x)" "overlaid x C C' off src (i_size x)"
    using writei_loop_run [OF t x(1,2) f n] by blast
  have fu: "inodes u = inodes s" "disksize u = disksize s" using logframe_inodes [OF u(2)] u(2) by (simp_all add: logframe_def)
  have sz: "i_size x \<le> MAXFILE * BSIZE" "MAXFILE * BSIZE = 71680" using f(1)
    by (simp_all add: fmapped_def MAXFILE_def NDIRECT_def NINDIRECT_def BSIZE_def)
  have len: "off + length src < 4294967296" "s32 (length src) = int (length src)" using n(1) sz by (simp_all add: s32_def)
  have "\<not> MAXFILE * BSIZE < u32 (off + length src)" "\<not> i_size x < off" "\<not> u32 (off + length src) < off"
    "\<not> i_size x < off + length src" using n(1) sz len by (simp_all add: u32_id)
  then have w: "writei ip src off s = Ok (int (length src)) u"
    using x u(1) fu len(2) by (simp add: writei_def exec_simps Let_def)
  have "card X' < NBUF" using txn_card [OF u(3)] by simp
  moreover have "map (fbyte x C') [off..<off + length src] = src"
    using u(5) n(1) by (intro nth_equalityI) (simp_all add: overlaid_def)
  ultimately have "\<exists>v. readi ip off (length src) u = Ok (int (length src), src) v"
    using readi_run [OF txn_cache [OF u(3)] _ _ x(2,3) _ _ len(1), where ip = ip and m = "length src"]
      x(1) fu f(1) n(1) same_blocks_keeps(1) [OF u(4)] by auto
  then show ?thesis using w u
    by (intro exI [of _ u] exI [of _ C'] exI [of _ X'] exI [of _ j]) (simp add: overlaid_def same_blocks_def)
qed

section \<open>The inode cache\<close>

text \<open>No count is negative, and an inode that is in use has one entry: the cache is what makes processes share it.\<close>

definition icache_ok :: "inode list \<Rightarrow> bool" where
  "icache_ok xs \<longleftrightarrow> (\<forall>x \<in> set xs. 0 \<le> i_ref x) \<and>
     (\<forall>i < length xs. \<forall>j < length xs. 0 < i_ref (xs ! i) \<longrightarrow> 0 < i_ref (xs ! j) \<longrightarrow>
        i_dev (xs ! i) = i_dev (xs ! j) \<longrightarrow> i_inum (xs ! i) = i_inum (xs ! j) \<longrightarrow> i = j)"

lemma icache_ok_update:
  assumes "icache_ok xs" "i < length xs" "0 < i_ref x"
    "\<forall>j < length xs. j \<noteq> i \<longrightarrow> 0 < i_ref (xs ! j) \<longrightarrow> \<not> (i_dev (xs ! j) = i_dev x \<and> i_inum (xs ! j) = i_inum x)"
  shows "icache_ok (xs[i := x])"
  using assms unfolding icache_ok_def
  by (auto simp: nth_list_update dest!: subsetD [OF set_update_subset_insert])

lemma table_ok_inodes [simp]: "table_ok (s\<lparr>inodes := x\<rparr>) = table_ok s"
  by (simp add: table_ok_def sched_inv_defs)

lemma icache_section:
  assumes "quiet s p"
  shows "\<exists>t. release LIcache ((acquired LIcache s)\<lparr>inodes := xs\<rparr>) = Ok () t \<and> quiet t p \<and> inodes t = xs"
proof -
  have "crit s p LIcache ((acquired LIcache s)\<lparr>inodes := xs\<rparr>)"
    by (rule crit_same [OF crit_enter(2) [OF assms]]) (simp_all add: quiet_table [OF assms])
  from crit_release [OF this] show ?thesis by (auto simp: released_def)
qed

text \<open>C20. \<open>iget\<close> keeps the inode cache's invariant: an inode in use has exactly one entry and no reference count is negative. It
  returns the entry of the wanted inode, with one more reference if the inode was in use, and otherwise in the first free
  entry with one reference and its contents marked as not yet read; no other entry changes. It panics exactly if the inode is
  not in use and every entry is.\<close>

theorem iget_invariant:
  assumes q: "quiet s p" and inv: "icache_ok (inodes s)"
  shows "case iget dev inum s of
      Ok ip t \<Rightarrow> quiet t p \<and> icache_ok (inodes t) \<and> ip < length (inodes s) \<and>
        (let x = inodes s ! ip in inodes t = (inodes s)[ip :=
          if 0 < i_ref x then x\<lparr>i_ref := i_ref x + 1\<rparr> else x\<lparr>i_dev := dev, i_inum := inum, i_ref := 1, i_valid := False\<rparr>]) \<and>
        i_dev (inodes t ! ip) = dev \<and> i_inum (inodes t ! ip) = inum
    | Stop r t \<Rightarrow> r = Panic ''iget: no inodes'' \<and> (\<forall>x \<in> set (inodes s). 0 < i_ref x \<and> (i_dev x, i_inum x) \<noteq> (dev, inum))"
proof -
  note e = crit_enter(1) [OF q, of LIcache]
  have a: "inodes (acquired LIcache s) = inodes s" by (simp add: acquired_def)
  let ?P = "\<lambda>x. 0 < i_ref x \<and> i_dev x = dev \<and> i_inum x = inum"
  show ?thesis
  proof (cases "first_idx ?P (inodes s)")
    case (Some ip)
    let ?x = "inodes s ! ip"
    note i = first_idx_Some [OF Some]
    have "icache_ok ((inodes s)[ip := ?x\<lparr>i_ref := i_ref ?x + 1\<rparr>])"
      using i(1,2) inv by (intro icache_ok_update) (auto simp: icache_ok_def)
    then show ?thesis using icache_section [OF q, of "(inodes s)[ip := ?x\<lparr>i_ref := i_ref ?x + 1\<rparr>]"] Some i(1,2) e a
      by (auto simp: iget_def exec_simps upd_inode_def Let_def)
  next
    case None
    then have n: "\<And>x. x \<in> set (inodes s) \<Longrightarrow> \<not> ?P x" by (simp add: first_idx_from_None)
    show ?thesis
    proof (cases "first_idx (\<lambda>x. i_ref x = 0) (inodes s)")
      case (Some ip)
      let ?x = "(inodes s ! ip)\<lparr>i_dev := dev, i_inum := inum, i_ref := 1, i_valid := False\<rparr>"
      note i = first_idx_Some [OF Some]
      have "icache_ok ((inodes s)[ip := ?x])"
        using i(1) inv n nth_mem by (intro icache_ok_update) auto
      then show ?thesis using icache_section [OF q, of "(inodes s)[ip := ?x]"] None Some i(1,2) e a
        by (auto simp: iget_def exec_simps upd_inode_def Let_def)
    next
      case none: None
      then have "\<forall>x \<in> set (inodes s). i_ref x \<noteq> 0" by (simp add: first_idx_from_None)
      then have "\<forall>x \<in> set (inodes s). 0 < i_ref x" using inv by (force simp: icache_ok_def)
      then show ?thesis using None none e a n by (auto simp: iget_def exec_simps)
    qed
  qed
qed

section \<open>A file on a disk\<close>

text \<open>A file of 600 bytes in blocks 110 and 111, open in entry 0; entry 1 is a fresh reference to the same inode.\<close>

definition inode0 :: inode where
  "inode0 = \<lparr>i_dev = 1, i_inum = 7, i_ref = 1, i_valid = True, i_type = T_FILE, i_major = 0, i_minor = 0, i_nlink = 1,
     i_size = 600, i_addrs = 110 # 111 # replicate 11 0\<rparr>"

definition content0 :: cons_st where
  "content0 = cons0\<lparr>lg_outstanding := 1, memdisk := (\<lambda>i. if i = 110 * BSIZE + 2 then 65 else 0),
     inodes := [inode0, inode0\<lparr>i_valid := False, i_type := 0, i_size := 0, i_addrs := []\<rparr>]\<rparr>"

lemma content0_fields: "sb content0 = sb0" "disksize content0 = 1000" "lg_start content0 = 2" "lh_n content0 = 0"
  "lg_dev content0 = 1" "lg_outstanding content0 = 1" "lg_size content0 = LOGSIZE" "lh_block content0 = replicate LOGSIZE 0"
  "bufs content0 = bufs0" "slocks content0 = slocks bio0"
  "inodes content0 = [inode0, inode0\<lparr>i_valid := False, i_type := 0, i_size := 0, i_addrs := []\<rparr>]"
  "memdisk content0 = (\<lambda>i. if i = 110 * BSIZE + 2 then 65 else 0)"
  by (simp_all add: content0_def cons0_defs)

lemma txn_content0: "txn 1 content0 Map.empty (on_disk content0) (on_disk content0) {} 5"
proof -
  have "quiet content0 1" using quiet_boot [of "()"]
    by (simp add: quiet_def table_ok_def on_cpu_def the_cpu_def content0_def cons0_defs)
  then have "cache 1 content0 Map.empty (on_disk content0) (on_disk content0) {}"
    using cache_empty content0_fields by blast
  then show ?thesis unfolding txn_def
    by (intro exI [of _ 0]) (simp add: content0_fields log_wf_def LOGSIZE_def MAXOPBLOCKS_def NBUF_def)
qed

lemma blocks_content0: "bn * BSIZE < 600 \<Longrightarrow> bn = 0 \<or> bn = Suc 0"
  by (simp add: BSIZE_def) linarith

lemma fblock_content0: "fblock inode0 C 0 = 110" "fblock inode0 C (Suc 0) = 111"
  by (simp_all add: fblock_def inode0_def NDIRECT_def)

lemma file_content0: "fmapped 1000 inode0 C 600" "fdistinct inode0 C 600"
  "\<forall>bn. bn * BSIZE < 600 \<longrightarrow> fblock inode0 C bn \<notin> log_region content0"
proof -
  show "fmapped 1000 inode0 C 600" using blocks_content0
    by (fastforce simp: fmapped_def fblock_content0 MAXFILE_def NDIRECT_def NINDIRECT_def BSIZE_def)
  have "bn = bn'" if "bn * BSIZE < 600" "bn' * BSIZE < 600" "fblock inode0 C bn = fblock inode0 C bn'" for bn bn'
    using that blocks_content0 [of bn] blocks_content0 [of bn'] by (auto simp: fblock_content0)
  then show "fdistinct inode0 C 600" by (simp add: fdistinct_def) (simp add: NDIRECT_def BSIZE_def)
  show "\<forall>bn. bn * BSIZE < 600 \<longrightarrow> fblock inode0 C bn \<notin> log_region content0" using blocks_content0
    by (fastforce simp: fblock_content0 log_region_def content0_fields LOGSIZE_def MAXOPBLOCKS_def)
qed

theorem iupdate_iload_roundtrip_witness:
  "\<exists>t. run [iupdate 0, iload 1] content0 = Ok () t \<and> inodes t = [inode0, inode0]"
proof -
  have "inode_wf inode0" by (simp add: inode_wf_def inode0_def short_ok_def T_FILE_def NDIRECT_def)
  moreover have "IBLOCK 7 sb0 = 34" by (simp add: IBLOCK_def sb0_def IPB_def BSIZE_def DINODE_SIZE_def)
  ultimately show ?thesis
    using iupdate_iload_roundtrip [OF txn_content0 _ refl, of 0 1]
    by (simp add: content0_fields inode0_def log_region_def LOGSIZE_def MAXOPBLOCKS_def T_FILE_def)
qed

lemma inode0_fields: "i_dev inode0 = 1" "i_type inode0 \<noteq> T_DEV" "i_size inode0 = 600"
  by (simp_all add: inode0_def T_FILE_def T_DEV_def)

theorem readi_reads_witness: "\<exists>t. readi 0 1 3 content0 = Ok (3, [0, 65, 0]) t"
proof -
  have "map (fbyte inode0 (on_disk content0)) [1..<4] = [0, 65, 0]"
    by (simp add: upt_rec fbyte_def on_disk_def content0_fields BSIZE_def fblock_content0)
  then show ?thesis
    using readi_reads [OF txn_cache [OF txn_content0] _ refl, of 0 1 3] file_content0(1)
    by (auto simp: content0_fields inode0_fields NBUF_def MAXOPBLOCKS_def simp del: upt_Suc)
qed

theorem writei_overwrites_witness:
  "\<exists>t. writei 0 [1, 2, 3, 4] 510 content0 = Ok 4 t \<and> (\<exists>v. readi 0 510 4 t = Ok (4, [1, 2, 3, 4]) v)"
proof -
  have "inodes content0 ! 0 = inode0" by (simp add: content0_fields)
  moreover have "510 mod BSIZE + length [1, 2, 3, 4 :: byte] \<le> 5 * BSIZE" by (simp add: BSIZE_def)
  ultimately obtain t v where "writei 0 [1, 2, 3, 4] 510 content0 = Ok (int (length [1, 2, 3, 4 :: byte])) t"
    "readi 0 510 (length [1, 2, 3, 4 :: byte]) t = Ok (int (length [1, 2, 3, 4 :: byte]), [1, 2, 3, 4]) v"
    using writei_overwrites [OF txn_content0 refl, of 0 510 "[1, 2, 3, 4]"] file_content0
    by (auto simp: content0_fields(2) inode0_fields)
  moreover have "length [1, 2, 3, 4 :: byte] = 4" by simp
  ultimately show ?thesis by (metis of_nat_numeral)
qed

theorem iget_invariant_witness:
  "\<exists>ip t. iget 1 9 (content0\<lparr>inodes := [inode0, inode0\<lparr>i_inum := 8, i_ref := 0\<rparr>]\<rparr>) = Ok ip t \<and> i_inum (inodes t ! ip) = 9 \<and>
    icache_ok (inodes t)"
proof -
  let ?s = "content0\<lparr>inodes := [inode0, inode0\<lparr>i_inum := 8, i_ref := 0\<rparr>]\<rparr>"
  have "quiet ?s 1" using cache_quiet [OF txn_cache [OF txn_content0]] by (simp add: quiet_def on_cpu_def the_cpu_def)
  moreover have "icache_ok (inodes ?s)" by (simp add: icache_ok_def inode0_def less_Suc_eq)
  ultimately show ?thesis using iget_invariant [of ?s 1, where dev = 1 and inum = 9]
    by (auto simp: inode0_def split: outcome.splits)
qed

end
