(* ===== verification/Pagetable.thy ===== *)
theory Pagetable
  imports Vm
begin

text \<open>
  What \<open>vm.c\<close> does to an address space. \<open>vm s d ps E\<close> is the view of a page directory \<open>d\<close> that the proofs use: the free
  pages are \<open>ps\<close>, the directory and its page tables are pages of their own that are not free, and the page table entry
  for page number \<open>n\<close> is \<open>E n\<close>, 0 if there is no page table for it.
\<close>

section \<open>Entries\<close>

lemma PTE_ADDR_div: "e < 4294967296 \<Longrightarrow> PTE_ADDR e = e div PGSIZE * PGSIZE"
proof -
  assume e: "e < 4294967296"
  have eq: "(0xFFFFF000 :: nat) = push_bit 12 (mask 20)" by (simp add: mask_eq_exp_minus_1 push_bit_eq_mult)
  have "PTE_ADDR e = push_bit 12 (take_bit 20 (drop_bit 12 e))"
    unfolding PTE_ADDR_def eq by (rule bit_eqI) (auto simp add: bit_simps)
  then show ?thesis using e by (simp add: take_bit_eq_mod drop_bit_eq_div push_bit_eq_mult PGSIZE_def)
qed

lemma PTE_FLAGS_mod: "PTE_FLAGS e = e mod PGSIZE"
proof -
  have eq: "(0xFFF :: nat) = mask 12" by (simp add: mask_eq_exp_minus_1)
  show ?thesis unfolding PTE_FLAGS_def eq take_bit_eq_mask [symmetric] by (simp add: take_bit_eq_mod PGSIZE_def)
qed

lemma PTX_mod: "PTX va = va div PGSIZE mod 1024"
proof -
  have eq: "(0x3FF :: nat) = mask 10" by (simp add: mask_eq_exp_minus_1)
  show ?thesis unfolding PTX_def eq take_bit_eq_mask [symmetric] by (simp add: take_bit_eq_mod drop_bit_eq_div PGSIZE_def)
qed

lemma PDX_div: "va < 4294967296 \<Longrightarrow> PDX va = va div PGSIZE div 1024"
proof -
  assume va: "va < 4294967296"
  have eq: "(0x3FF :: nat) = mask 10" by (simp add: mask_eq_exp_minus_1)
  have "PDX va = va div 4194304 mod 1024"
    unfolding PDX_def eq take_bit_eq_mask [symmetric] by (simp add: take_bit_eq_mod drop_bit_eq_div)
  moreover have "va div 4194304 = va div PGSIZE div 1024" by (simp add: PGSIZE_def flip: div_mult2_eq)
  ultimately show ?thesis using va by (simp add: PGSIZE_def)
qed

lemma PGSIZE_pos [simp]: "0 < PGSIZE"
  by (simp add: PGSIZE_def)

lemma or_page:
  assumes "pa mod PGSIZE = 0" "f < PGSIZE"
  shows "pa OR f = pa + f"
proof -
  have "pa AND f = 0"
  proof (rule bit_eqI)
    fix i
    have t: "take_bit 12 pa = 0" "take_bit 12 f = f" using assms by (simp_all add: take_bit_eq_mod PGSIZE_def)
    have "\<not> (bit pa i \<and> bit f i)" using t by (metis bit_take_bit_iff bit_0_eq bot_apply bot_bool_def)
    then show "bit (pa AND f) i = bit 0 i" by (simp add: bit_and_iff)
  qed
  then show ?thesis using disjunctive_add_eq_or by metis
qed

definition present :: "nat \<Rightarrow> bool" where
  "present e \<longleftrightarrow> e AND PTE_P \<noteq> 0"

lemma present_odd: "present e \<longleftrightarrow> odd e"
  by (simp add: present_def PTE_P_def and_one_eq odd_iff_mod_2_eq_one)

text \<open>The entry \<open>mappages\<close> writes: a page frame and its permissions.\<close>

definition entry :: "nat \<Rightarrow> nat \<Rightarrow> nat" where
  "entry pa perm = (pa OR perm OR PTE_P)"

lemma entry_fields:
  assumes "pa mod PGSIZE = 0" "pa < 4294967296" "perm < PGSIZE"
  shows "present (entry pa perm)" "entry pa perm < 4294967296" "PTE_ADDR (entry pa perm) = pa"
    "PTE_FLAGS (entry pa perm) = (perm OR PTE_P)"
proof -
  have "even perm \<Longrightarrow> perm \<noteq> 4095" by auto
  then have f: "perm OR PTE_P < PGSIZE"
    using assms(3) or_one_eq [of perm] by (cases "even perm") (auto simp: PTE_P_def PGSIZE_def)
  then have e: "entry pa perm = pa + (perm OR PTE_P)" using or_page [OF assms(1)] by (simp add: entry_def or.assoc)
  obtain k where k: "pa = PGSIZE * k" using assms(1) by auto
  then have "k < 1048576" using assms(2) by (simp add: PGSIZE_def)
  then have "pa + PGSIZE \<le> 4294967296" using k by (simp add: PGSIZE_def)
  then show lt: "entry pa perm < 4294967296" using e f by linarith
  show "present (entry pa perm)" by (simp add: present_odd entry_def PTE_P_def even_or_iff)
  have "entry pa perm div PGSIZE * PGSIZE = pa" "entry pa perm mod PGSIZE = (perm OR PTE_P)"
    using f unfolding e by (simp_all add: k)
  then show "PTE_ADDR (entry pa perm) = pa" "PTE_FLAGS (entry pa perm) = (perm OR PTE_P)"
    by (simp_all add: PTE_ADDR_div [OF lt] PTE_FLAGS_mod)
qed

section \<open>A page directory in memory\<close>

text \<open>Kernel addresses of pages of the physical memory.\<close>

definition ram_page :: "nat \<Rightarrow> bool" where
  "ram_page p \<longleftrightarrow> p mod PGSIZE = 0 \<and> KERNBASE \<le> p \<and> p < KERNBASE + PHYSTOP"

definition has_ptab :: "memory \<Rightarrow> nat \<Rightarrow> nat \<Rightarrow> bool" where
  "has_ptab m d i \<longleftrightarrow> i < NPDENTRIES \<and> present (rd32 m (d + 4 * i))"

definition ptab :: "memory \<Rightarrow> nat \<Rightarrow> nat \<Rightarrow> nat" where
  "ptab m d i = P2V (PTE_ADDR (rd32 m (d + 4 * i)))"

definition pte :: "memory \<Rightarrow> nat \<Rightarrow> nat \<Rightarrow> nat" where
  "pte m d n = (if has_ptab m d (n div 1024) then rd32 m (ptab m d (n div 1024) + 4 * (n mod 1024)) else 0)"

definition tables :: "memory \<Rightarrow> nat \<Rightarrow> nat set" where
  "tables m d = ptab m d ` {i. has_ptab m d i}"

definition pgdir_ok :: "memory \<Rightarrow> nat \<Rightarrow> nat set \<Rightarrow> bool" where
  "pgdir_ok m d F \<longleftrightarrow> ram_page d \<and> d \<notin> F \<and> (\<forall>q \<in> tables m d. ram_page q \<and> q \<noteq> d \<and> q \<notin> F) \<and>
     inj_on (ptab m d) {i. has_ptab m d i}"

text \<open>Two memories that agree on a page.\<close>

definition same_page :: "memory \<Rightarrow> memory \<Rightarrow> nat \<Rightarrow> bool" where
  "same_page m m' q \<longleftrightarrow> (\<forall>i < PGSIZE. m' (q + i) = m (q + i))"

lemma same_page_rd32: "same_page m m' q \<Longrightarrow> i < 1024 \<Longrightarrow> rd32 m' (q + 4 * i) = rd32 m (q + 4 * i)"
proof (rule rd32_cong)
  fix j assume a: "same_page m m' q" "i < 1024" "q + 4 * i \<le> j" "j < q + 4 * i + 4"
  then have "j - q < PGSIZE" "q + (j - q) = j" by (simp_all add: PGSIZE_def)
  then show "m' j = m j" using a(1) unfolding same_page_def by metis
qed

lemma same_page_trans: "same_page m m' q \<Longrightarrow> same_page m' m'' q \<Longrightarrow> same_page m m'' q"
  by (simp add: same_page_def)

lemma same_page_dir:
  assumes "same_page m m' d"
  shows "has_ptab m' d i = has_ptab m d i" "i < NPDENTRIES \<Longrightarrow> ptab m' d i = ptab m d i" "tables m' d = tables m d"
proof -
  show h: "has_ptab m' d i = has_ptab m d i" for i
    using same_page_rd32 [OF assms, of i] by (auto simp: has_ptab_def NPDENTRIES_def)
  show p: "i < NPDENTRIES \<Longrightarrow> ptab m' d i = ptab m d i" for i
    using same_page_rd32 [OF assms, of i] by (simp add: ptab_def NPDENTRIES_def)
  show "tables m' d = tables m d" unfolding tables_def h
    by (rule image_cong) (auto simp: p has_ptab_def)
qed

lemma same_page_pgdir:
  assumes "same_page m m' d"
  shows "pgdir_ok m' d F = pgdir_ok m d F"
proof -
  note s = same_page_dir [OF assms]
  have lt: "has_ptab m d i \<Longrightarrow> i < NPDENTRIES" for i by (simp add: has_ptab_def)
  have "inj_on (ptab m' d) {i. has_ptab m d i} = inj_on (ptab m d) {i. has_ptab m d i}"
    by (rule inj_on_cong) (use s(2) lt in auto)
  then show ?thesis using s by (simp add: pgdir_ok_def)
qed

lemma good_page_ram: "good_page s p \<Longrightarrow> ram_page p"
proof -
  assume g: "good_page s p"
  have "KERNBASE \<le> p"
  proof (rule ccontr)
    assume "\<not> KERNBASE \<le> p"
    then have "(int p - int KERNBASE) mod 4294967296 = int p - int KERNBASE + 4294967296"
      by (subst mod_add_self2 [symmetric], subst mod_pos_pos_trivial) (simp_all add: KERNBASE_def)
    then show False using g by (auto simp: good_page_def bad_page_def V2P_def u32_of_def layout_defs le_nat_iff)
  qed
  then show "ram_page p" using g
    by (auto simp: good_page_def bad_page_def ram_page_def V2P_def u32_of_def layout_defs le_nat_iff mod_pos_pos_trivial)
qed

lemma ram_page_V2P:
  assumes "ram_page p"
  shows "V2P p mod PGSIZE = 0" "V2P p < PHYSTOP" "P2V (V2P p) = p" "p < 4294967296" "V2P p < 4294967296"
proof -
  show l: "p < 4294967296" using assms by (simp add: ram_page_def layout_defs)
  have v: "V2P p = p - KERNBASE" using assms l by (simp add: V2P_def u32_of_def ram_page_def layout_defs nat_diff_distrib)
  obtain k where "p = PGSIZE * k" using assms by (auto simp: ram_page_def)
  moreover have "KERNBASE = PGSIZE * 524288" by (simp add: layout_defs)
  ultimately have "V2P p = PGSIZE * (k - 524288)" by (metis v diff_mult_distrib2)
  then show "V2P p mod PGSIZE = 0" by simp
  show "V2P p < PHYSTOP" "V2P p < 4294967296" using assms v l by (auto simp: ram_page_def)
  show "P2V (V2P p) = p" using assms l by (simp add: P2V_V2P ram_page_def)
qed

lemma ram_pages_apart: "ram_page p \<Longrightarrow> ram_page q \<Longrightarrow> p \<noteq> q \<Longrightarrow> p + PGSIZE \<le> q \<or> q + PGSIZE \<le> p"
  by (rule pages_apart) (simp_all add: ram_page_def)

lemma same_page_fill: "ram_page p \<Longrightarrow> ram_page q \<Longrightarrow> p \<noteq> q \<Longrightarrow> same_page m (mem_fill m p b PGSIZE) q"
  using ram_pages_apart [of p q] by (auto simp: same_page_def mem_fill_def)

lemma same_page_wr32: "ram_page p \<Longrightarrow> ram_page q \<Longrightarrow> p \<noteq> q \<Longrightarrow> i < 1024 \<Longrightarrow> same_page m (wr32 m (p + 4 * i) v) q"
  using ram_pages_apart [of p q] by (auto simp: same_page_def PGSIZE_def intro!: wr32_apply_other)

lemma rd32_word: "i < 1024 \<Longrightarrow> j < 1024 \<Longrightarrow> rd32 (wr32 m (p + 4 * i) v) (p + 4 * j) = (if j = i then u32 v else rd32 m (p + 4 * j))"
  by (auto intro!: rd32_wr32_other)

lemma rd32_fill: "i < 1024 \<Longrightarrow> rd32 (mem_fill m p 0 PGSIZE) (p + 4 * i) = 0"
  by (simp add: rd32_def rd16_def mem_fill_def PGSIZE_def)

text \<open>A fresh page as a new page table, and a new entry in a page table.\<close>

lemma new_table:
  assumes d: "pgdir_ok m d F" and i: "i < 1024" "\<not> has_ptab m d i" and p: "ram_page p" "p \<in> F"
    and m': "m' = wr32 (mem_fill m p 0 PGSIZE) (d + 4 * i) (entry (V2P p) (PTE_W OR PTE_U))"
  shows "pgdir_ok m' d (F - {p})" "tables m' d = insert p (tables m d)" "has_ptab m' d i" "ptab m' d i = p"
    "\<And>n. pte m' d n = pte m d n" "\<And>q. ram_page q \<Longrightarrow> q \<noteq> d \<Longrightarrow> q \<noteq> p \<Longrightarrow> same_page m m' q"
proof -
  let ?m = "mem_fill m p 0 PGSIZE"
  have dp: "ram_page d" "p \<noteq> d" "p \<notin> tables m d" using d p by (auto simp: pgdir_ok_def)
  have "PTE_W OR PTE_U < PGSIZE" by (simp add: PTE_W_def PTE_U_def PGSIZE_def)
  note e = entry_fields [OF ram_page_V2P(1,5) [OF p(1)] this]
  have r: "rd32 m' (d + 4 * j) = (if j = i then entry (V2P p) (PTE_W OR PTE_U) else rd32 m (d + 4 * j))" if "j < 1024" for j
    using rd32_word [OF i(1) that] same_page_rd32 [OF same_page_fill [OF p(1) dp(1,2)] that] e(2) by (simp add: m' u32_id)
  have h: "has_ptab m' d j \<longleftrightarrow> j = i \<or> has_ptab m d j" for j using r e(1) i by (auto simp: has_ptab_def NPDENTRIES_def)
  have t: "ptab m' d j = (if j = i then p else ptab m d j)" if "j < 1024" for j
    using r [OF that] e(3) ram_page_V2P(3) [OF p(1)] by (simp add: ptab_def)
  have lt: "has_ptab m d j \<Longrightarrow> j < 1024" for j by (simp add: has_ptab_def NPDENTRIES_def)
  show "has_ptab m' d i" "ptab m' d i = p" using h t i by auto
  have "{j. has_ptab m' d j} = insert i {j. has_ptab m d j}" using h by auto
  moreover have im: "ptab m' d ` {j. has_ptab m d j} = ptab m d ` {j. has_ptab m d j}"
    using t i lt by (intro image_cong) auto
  ultimately show ta: "tables m' d = insert p (tables m d)" using t i(1) by (simp add: tables_def)
  have "inj_on (ptab m' d) {j. has_ptab m' d j}"
  proof -
    have "inj_on (ptab m' d) {j. has_ptab m d j}"
      using d t lt i by (subst inj_on_cong [where g = "ptab m d"]) (auto simp: pgdir_ok_def)
    then show ?thesis using \<open>{j. has_ptab m' d j} = _\<close> t i dp(3) im by (auto simp: tables_def)
  qed
  then show "pgdir_ok m' d (F - {p})" using d p dp ta by (auto simp: pgdir_ok_def)
  show sp: "same_page m m' q" if "ram_page q" "q \<noteq> d" "q \<noteq> p" for q
    using same_page_trans [OF same_page_fill [OF p(1) that(1)] same_page_wr32 [OF dp(1) that(1) _ i(1)]] that m' by auto
  show "pte m' d n = pte m d n" for n
  proof (cases "n div 1024 = i")
    case True
    have "rd32 m' (p + 4 * (n mod 1024)) = rd32 ?m (p + 4 * (n mod 1024))"
      unfolding m' using dp i by (intro same_page_rd32 same_page_wr32 p) auto
    then show ?thesis using True h t i rd32_fill [of "n mod 1024" m p] by (simp add: pte_def)
  next
    case False
    have "has_ptab m d (n div 1024) \<Longrightarrow> ptab m d (n div 1024) \<noteq> p" using dp(3) by (auto simp: tables_def)
    then show ?thesis using False h t lt d sp [of "ptab m d (n div 1024)"] same_page_rd32 [of m m' "ptab m d (n div 1024)" "n mod 1024"]
      by (auto simp: pte_def pgdir_ok_def tables_def)
  qed
qed

lemma new_entry:
  assumes d: "pgdir_ok m d F" and h: "has_ptab m d (n div 1024)"
    and m': "m' = wr32 m (ptab m d (n div 1024) + 4 * (n mod 1024)) e" and e: "e < 4294967296"
  shows "pgdir_ok m' d F" "tables m' d = tables m d" "pte m' d = (pte m d)(n := e)"
    "\<And>q. ram_page q \<Longrightarrow> q \<notin> tables m d \<Longrightarrow> same_page m m' q"
proof -
  let ?p = "ptab m d (n div 1024)"
  have p: "ram_page ?p" "?p \<in> tables m d" "?p \<noteq> d" "ram_page d" using d h by (auto simp: pgdir_ok_def tables_def)
  show sp: "same_page m m' q" if "ram_page q" "q \<notin> tables m d" for q
    unfolding m' using that p by (intro same_page_wr32) auto
  have sd: "same_page m m' d" unfolding m' using p by (intro same_page_wr32) auto
  note s = same_page_dir [OF sd]
  show "tables m' d = tables m d" by (rule s(3))
  show "pgdir_ok m' d F" using d same_page_pgdir [OF sd] by simp
  show "pte m' d = (pte m d)(n := e)"
  proof
    fix k
    show "pte m' d k = ((pte m d)(n := e)) k"
    proof (cases "has_ptab m d (k div 1024)")
      case True
      have lt: "k div 1024 < NPDENTRIES" using True by (simp add: has_ptab_def)
      show ?thesis
      proof (cases "k div 1024 = n div 1024")
        case same: True
        then have "k = n \<longleftrightarrow> k mod 1024 = n mod 1024" by (metis div_mult_mod_eq)
        then show ?thesis using True same s lt rd32_word [of "n mod 1024" "k mod 1024" m ?p e] e
          by (simp add: pte_def m' u32_id)
      next
        case False
        then have "ptab m d (k div 1024) \<noteq> ?p" using d h True by (auto simp: pgdir_ok_def inj_on_def)
        moreover have "ram_page (ptab m d (k div 1024))" using d True by (auto simp: pgdir_ok_def tables_def)
        ultimately have "same_page m m' (ptab m d (k div 1024))" unfolding m' using p by (intro same_page_wr32) auto
        then show ?thesis using False True s lt same_page_rd32 [of m m' _ "k mod 1024"] by (auto simp: pte_def)
      qed
    next
      case False
      then show ?thesis using s h by (auto simp: pte_def)
    qed
  qed
qed

section \<open>The address space\<close>

definition vm :: "'z kalloc_st_scheme \<Rightarrow> nat \<Rightarrow> nat list \<Rightarrow> (nat \<Rightarrow> nat) \<Rightarrow> bool" where
  "vm s d ps E \<longleftrightarrow> freepages s ps \<and> pgdir_ok (mem s) d (set ps) \<and> pte (mem s) d = E"

text \<open>A page that is neither free nor part of the page table, and what an operation on the page table keeps of such pages.\<close>

definition owned :: "'z kalloc_st_scheme \<Rightarrow> nat \<Rightarrow> nat list \<Rightarrow> nat \<Rightarrow> bool" where
  "owned s d ps q \<longleftrightarrow> ram_page q \<and> q \<notin> set ps \<and> q \<noteq> d \<and> q \<notin> tables (mem s) d"

definition spares :: "nat \<Rightarrow> 'z kalloc_st_scheme \<Rightarrow> nat list \<Rightarrow> 'z kalloc_st_scheme \<Rightarrow> nat list \<Rightarrow> bool" where
  "spares d s ps t ps' \<longleftrightarrow> set ps' \<subseteq> set ps \<and> km_end t = km_end s \<and> (\<forall>q. owned s d ps q \<longrightarrow> owned t d ps' q \<and> same_page (mem s) (mem t) q)"

lemma spares_refl: "spares d s ps s ps"
  by (simp add: spares_def same_page_def)

lemma spares_trans: "spares d s ps t ps' \<Longrightarrow> spares d t ps' u ps'' \<Longrightarrow> spares d s ps u ps''"
  unfolding spares_def by (metis same_page_trans subset_trans)

text \<open>No page gets lost: what was free or a page table still is one of both.\<close>

definition kept :: "nat \<Rightarrow> 'z kalloc_st_scheme \<Rightarrow> nat list \<Rightarrow> 'z kalloc_st_scheme \<Rightarrow> nat list \<Rightarrow> bool" where
  "kept d s ps t ps' \<longleftrightarrow> set ps \<union> tables (mem s) d \<subseteq> set ps' \<union> tables (mem t) d"

lemma freepages_mem:
  assumes "freepages s ps" "\<And>p. p \<in> set ps \<Longrightarrow> same_page (mem s) m p"
  shows "freepages (s\<lparr>mem := m\<rparr>) ps"
proof -
  have "rd32 m p = rd32 (mem s) p" if "p \<in> set ps" for p using same_page_rd32 [OF assms(2) [OF that], of 0] by simp
  then show ?thesis using assms(1) flist_cong [of ps m "mem s"]
    by (auto simp: freepages_def lock_ready_def the_cpu_def good_page_def bad_page_def)
qed

lemma freepages_ram: "freepages s ps \<Longrightarrow> p \<in> set ps \<Longrightarrow> ram_page p"
  using good_page_ram by (auto simp: freepages_def)

lemma memset_zero: "memset m p 0 n = mem_fill m p 0 n"
  by (simp add: memset_fill)

text \<open>\<open>walkpgdir\<close> with allocation, for page number \<open>n\<close>: a page becomes a page table, or there is one or no page for one.\<close>

lemma walkpgdir_new:
  assumes v: "vm s d (p # ps) E" and va: "va < 4294967296" "n = va div PGSIZE" and np: "\<not> has_ptab (mem s) d (n div 1024)"
  shows "\<exists>t. walkpgdir d va True s = Ok (p + 4 * (n mod 1024)) t \<and> p \<noteq> 0 \<and> vm t d ps E \<and> spares d s (p # ps) t ps \<and> kept d s (p # ps) t ps \<and>
    has_ptab (mem t) d (n div 1024) \<and> p = ptab (mem t) d (n div 1024)"
proof -
  have i: "n div 1024 < 1024" using va by (simp add: PGSIZE_def)
  have f: "freepages s (p # ps)" and d: "pgdir_ok (mem s) d (set (p # ps))" using v by (simp_all add: vm_def)
  obtain t where t: "kalloc s = Ok p t" "freepages t ps" "mem t = mem s" "km_end t = km_end s"
    using kmem.alloc_head [OF f] kalloc_run [of s] f by (auto simp: freepages_def)
  have p: "ram_page p" "p \<noteq> 0" "p \<notin> set ps" using freepages_ram [OF f] kmem.pages_distinct [OF f] by auto
  let ?m = "wr32 (mem_fill (mem s) p 0 PGSIZE) (d + 4 * (n div 1024)) (entry (V2P p) (PTE_W OR PTE_U))"
  have pi: "p \<in> set (p # ps)" by simp
  note nt = new_table [OF d i np p(1) pi refl]
  have "rd32 (mem s) (d + 4 * (va div PGSIZE div 1024)) AND PTE_P = 0"
    using np i by (simp add: has_ptab_def present_def NPDENTRIES_def va(2))
  then have "walkpgdir d va True s = Ok (p + 4 * (n mod 1024)) (t\<lparr>mem := ?m\<rparr>)" using t p(2)
    by (simp add: walkpgdir_def exec_simps PDX_div [OF va(1)] PTX_mod va(2) upd_mem_def memset_zero entry_def ac_simps)
  moreover have "vm (t\<lparr>mem := ?m\<rparr>) d ps E"
  proof -
    have "same_page (mem t) ?m q" if "q \<in> set ps" for q
      using nt(6) [of q] freepages_ram [OF f, of q] that d p(3) t(3) by (auto simp: pgdir_ok_def)
    moreover have "pgdir_ok ?m d (set ps)" using nt(1) p(3) by simp
    moreover have "pte ?m d = E" using nt(5) v by (auto simp: vm_def)
    ultimately show ?thesis using freepages_mem [OF t(2)] by (simp add: vm_def)
  qed
  moreover have "spares d s (p # ps) (t\<lparr>mem := ?m\<rparr>) ps" unfolding spares_def owned_def using nt(2,6) t(4) by auto
  moreover have "kept d s (p # ps) (t\<lparr>mem := ?m\<rparr>) ps" using nt(2) by (auto simp: kept_def)
  ultimately show ?thesis using nt(3,4) p(2) by (intro exI [of _ "t\<lparr>mem := ?m\<rparr>"]) simp
qed

lemma walkpgdir_alloc:
  assumes v: "vm s d ps E" and va: "va < 4294967296" "n = va div PGSIZE"
  shows "\<exists>r t ps'. walkpgdir d va True s = Ok r t \<and> vm t d ps' E \<and> spares d s ps t ps' \<and> kept d s ps t ps' \<and> length ps \<le> Suc (length ps') \<and>
    (if r = 0 then ps = [] \<and> ps' = [] \<and> E n = 0
     else has_ptab (mem t) d (n div 1024) \<and> r = ptab (mem t) d (n div 1024) + 4 * (n mod 1024))"
proof -
  note px = PDX_div [OF va(1)] PTX_mod [of va]
  have f: "freepages s ps" and d: "pgdir_ok (mem s) d (set ps)" using v by (simp_all add: vm_def)
  consider "has_ptab (mem s) d (n div 1024)" | "\<not> has_ptab (mem s) d (n div 1024)" "ps = []"
    | p ps' where "\<not> has_ptab (mem s) d (n div 1024)" "ps = p # ps'" by (cases ps) auto
  then show ?thesis
  proof cases
    case 1
    then have "ptab (mem s) d (n div 1024) \<noteq> 0" using d by (auto simp: pgdir_ok_def tables_def ram_page_def KERNBASE_def)
    moreover have "walkpgdir d va True s = Ok (ptab (mem s) d (n div 1024) + 4 * (n mod 1024)) s"
      using 1 by (simp add: walkpgdir_def exec_simps px va(2) has_ptab_def present_def ptab_def)
    ultimately show ?thesis using 1 v spares_refl [of d s ps]
      by (intro exI [of _ "ptab (mem s) d (n div 1024) + 4 * (n mod 1024)"] exI [of _ s] exI [of _ ps]) (simp add: kept_def)
  next
    case 2
    then have np: "rd32 (mem s) (d + 4 * (va div PGSIZE div 1024)) AND PTE_P = 0"
      using va by (simp add: has_ptab_def present_def NPDENTRIES_def PGSIZE_def)
    obtain t where t: "kalloc s = Ok 0 t" "freepages t []" "mem t = mem s" "km_end t = km_end s"
      using kmem.alloc_empty [of s] kalloc_run [of s] f 2(2) by (auto simp: freepages_def)
    then have "walkpgdir d va True s = Ok 0 t" using np by (simp add: walkpgdir_def exec_simps px)
    moreover have "vm t d [] E" "spares d s ps t []" "kept d s ps t []" using t v 2(2)
      by (simp_all add: vm_def spares_def kept_def owned_def same_page_def)
    moreover have "E n = 0" using v 2(1) by (auto simp: vm_def pte_def)
    ultimately show ?thesis using 2(2) by auto
  next
    case 3
    then show ?thesis using walkpgdir_new [of s d p ps' E va n] v va
      by (auto intro!: exI [of _ "p + 4 * (n mod 1024)"])
  qed
qed

section \<open>Mapping pages\<close>

text \<open>One turn of the loop of \<open>mappages\<close> up to the test for the end.\<close>

definition map_page :: "nat \<Rightarrow> nat \<Rightarrow> nat \<Rightarrow> nat \<Rightarrow> ('z kalloc_st_scheme, int) cmd \<Rightarrow> ('z kalloc_st_scheme, int) cmd" where
  "map_page d a pa perm rest = bnd (walkpgdir d a True) (\<lambda>pte.
     if pte = 0 then ret (-1)
     else andthen
       [panic_if (\<lambda>s. rd32 (mem s) pte AND PTE_P \<noteq> 0) ''remap'',
        upd_mem (\<lambda>m. wr32 m pte (pa OR perm OR PTE_P))]
       rest)"

lemma mappages_loop_map_page:
  "mappages_loop d lastp perm 0 a pa = map_page d a pa perm (ret 0)"
  "mappages_loop d lastp perm (Suc k) a pa = map_page d a pa perm
     (if a = lastp then ret 0 else mappages_loop d lastp perm k (u32 (a + PGSIZE)) (u32 (pa + PGSIZE)))"
  by (simp_all add: map_page_def)

lemma map_page_run:
  assumes v: "vm s d ps E" and n: "n < 1048576" and pa: "pa mod PGSIZE = 0" "pa < 4294967296" "perm < PGSIZE"
  shows "(\<exists>t. map_page d (n * PGSIZE) pa perm rest s = Ok (-1) t \<and> vm t d [] E \<and> spares d s ps t [] \<and> kept d s ps t [] \<and> ps = [] \<and> \<not> present (E n)) \<or>
    (present (E n) \<and> (\<exists>t. map_page d (n * PGSIZE) pa perm rest s = Stop (Panic ''remap'') t)) \<or>
    (\<not> present (E n) \<and> (\<exists>t ps'. map_page d (n * PGSIZE) pa perm rest s = rest t \<and> vm t d ps' (E(n := entry pa perm)) \<and>
      spares d s ps t ps' \<and> kept d s ps t ps' \<and> length ps \<le> Suc (length ps')))"
proof -
  note e = entry_fields [OF pa]
  have va: "n * PGSIZE < 4294967296" "n = n * PGSIZE div PGSIZE" using n by (simp_all add: PGSIZE_def)
  obtain r t ps' where w: "walkpgdir d (n * PGSIZE) True s = Ok r t" "vm t d ps' E" "spares d s ps t ps'"
    "length ps \<le> Suc (length ps')" "kept d s ps t ps'" "if r = 0 then ps = [] \<and> ps' = [] \<and> E n = 0
     else has_ptab (mem t) d (n div 1024) \<and> r = ptab (mem t) d (n div 1024) + 4 * (n mod 1024)"
    using walkpgdir_alloc [OF v va] by blast
  show ?thesis
  proof (cases "r = 0")
    case True
    then show ?thesis using w by (auto simp: map_page_def exec_simps present_def)
  next
    case False
    then have r: "has_ptab (mem t) d (n div 1024)" "r = ptab (mem t) d (n div 1024) + 4 * (n mod 1024)" using w(6) by simp_all
    have En: "rd32 (mem t) r = E n" using w(2) r by (auto simp: vm_def pte_def)
    have t: "freepages t ps'" "pgdir_ok (mem t) d (set ps')" "pte (mem t) d = E" using w(2) by (simp_all add: vm_def)
    let ?m = "wr32 (mem t) r (entry pa perm)"
    note ne = new_entry [OF t(2) r(1) _ e(2), of ?m, unfolded r(2) [symmetric], OF refl]
    have "vm (t\<lparr>mem := ?m\<rparr>) d ps' (E(n := entry pa perm))"
    proof -
      have "q \<notin> tables (mem t) d" if "q \<in> set ps'" for q using that t(2) by (auto simp: pgdir_ok_def)
      then have "freepages (t\<lparr>mem := ?m\<rparr>) ps'" using ne(4) freepages_ram [OF t(1)] by (intro freepages_mem [OF t(1)]) auto
      then show ?thesis using ne(1,3) t(3) by (simp add: vm_def)
    qed
    moreover have "spares d s ps (t\<lparr>mem := ?m\<rparr>) ps'"
      by (rule spares_trans [OF w(3)]) (use ne(2,4) in \<open>auto simp: spares_def owned_def\<close>)
    moreover have "kept d s ps (t\<lparr>mem := ?m\<rparr>) ps'" using w(5) ne(2) by (simp add: kept_def)
    moreover have "map_page d (n * PGSIZE) pa perm rest s =
      (if present (E n) then Stop (Panic ''remap'') t else rest (t\<lparr>mem := ?m\<rparr>))"
      using w(1) False En by (simp add: map_page_def exec_simps upd_mem_def present_def entry_def)
    ultimately show ?thesis using w(4) by auto
  qed
qed

definition mapped_range :: "(nat \<Rightarrow> nat) \<Rightarrow> nat \<Rightarrow> nat \<Rightarrow> nat \<Rightarrow> nat \<Rightarrow> nat \<Rightarrow> nat" where
  "mapped_range E n j pa perm = (\<lambda>i. if n \<le> i \<and> i < n + j then entry (pa + (i - n) * PGSIZE) perm else E i)"

lemma mapped_range_simps: "mapped_range E n 0 pa perm = E"
  "mapped_range (E(n := entry pa perm)) (Suc n) j (pa + PGSIZE) perm = mapped_range E n (Suc j) pa perm"
proof -
  show "mapped_range E n 0 pa perm = E" by (auto simp: mapped_range_def)
  have "pa + PGSIZE + (i - Suc n) * PGSIZE = pa + (i - n) * PGSIZE" if "Suc n \<le> i" for i
  proof -
    have "i - n = Suc (i - Suc n)" using that by simp
    then show ?thesis by simp
  qed
  then show "mapped_range (E(n := entry pa perm)) (Suc n) j (pa + PGSIZE) perm = mapped_range E n (Suc j) pa perm"
    by (auto simp: mapped_range_def fun_eq_iff add.assoc)
qed

lemma map_page_cases:
  assumes "vm s d ps E" "n < 1048576" "pa mod PGSIZE = 0" "pa < 4294967296" "perm < PGSIZE" "\<not> present (E n)"
  obtains t where "map_page d (n * PGSIZE) pa perm rest s = Ok (-1) t" "vm t d [] E" "spares d s ps t []" "ps = []" "kept d s ps t []"
  | t ps' where "map_page d (n * PGSIZE) pa perm rest s = rest t" "vm t d ps' (E(n := entry pa perm))"
      "spares d s ps t ps'" "length ps \<le> Suc (length ps')" "kept d s ps t ps'"
  using map_page_run [OF assms(1-5), of rest] assms(6) by blast

lemma mappages_loop_run:
  "vm s d ps E \<Longrightarrow> n + k < 1048576 \<Longrightarrow> pa mod PGSIZE = 0 \<Longrightarrow> pa + k * PGSIZE < 4294967296 \<Longrightarrow> perm < PGSIZE \<Longrightarrow>
   \<forall>i \<le> k. \<not> present (E (n + i)) \<Longrightarrow> lastp = (n + k) * PGSIZE \<Longrightarrow>
   \<exists>j r t ps'. mappages_loop d lastp perm k (n * PGSIZE) pa s = Ok r t \<and> (r = 0 \<and> j = Suc k \<or> r = -1 \<and> j \<le> k \<and> ps' = []) \<and>
     vm t d ps' (mapped_range E n j pa perm) \<and> spares d s ps t ps' \<and> length ps \<le> length ps' + j"
proof (induction k arbitrary: n pa s ps E)
  case 0
  have p: "pa < 4294967296" "n < 1048576" "\<not> present (E n)" using 0 by simp_all
  from 0(1) p(2) 0(3) p(1) 0(5) p(3) show ?case
  proof (cases rule: map_page_cases [where rest = "ret 0"])
    case (1 t)
    then show ?thesis unfolding mappages_loop_map_page
      by (intro exI [of _ 0] exI [of _ "-1"] exI [of _ t] exI [of _ "[]"]) (simp add: mapped_range_simps)
  next
    case (2 t ps')
    then show ?thesis unfolding mappages_loop_map_page
      by (intro exI [of _ "Suc 0"] exI [of _ 0] exI [of _ t] exI [of _ ps'])
        (simp add: exec_simps mapped_range_simps fun_upd_def flip: mapped_range_simps(2))
  qed
next
  case (Suc k)
  have p: "pa < 4294967296" "n < 1048576" "\<not> present (E n)" using Suc by auto
  have "n * PGSIZE \<noteq> lastp" using Suc(8) by (simp add: PGSIZE_def)
  let ?rest = "mappages_loop d lastp perm k (u32 (n * PGSIZE + PGSIZE)) (u32 (pa + PGSIZE))"
  have l: "mappages_loop d lastp perm (Suc k) (n * PGSIZE) pa = map_page d (n * PGSIZE) pa perm ?rest"
    using \<open>n * PGSIZE \<noteq> lastp\<close> by (simp only: mappages_loop_map_page if_False)
  from Suc(2) p(2) Suc(4) p(1) Suc(6) p(3) show ?case
  proof (cases rule: map_page_cases [where rest = ?rest])
    case (1 t)
    then show ?thesis unfolding l
      by (intro exI [of _ 0] exI [of _ "-1"] exI [of _ t] exI [of _ "[]"]) (simp add: mapped_range_simps)
  next
    case (2 t ps')
    have u: "u32 (n * PGSIZE + PGSIZE) = Suc n * PGSIZE" "u32 (pa + PGSIZE) = pa + PGSIZE"
      using Suc(3,5) by (simp_all add: u32_def PGSIZE_def)
    have "\<exists>j r t' ps''. ?rest t = Ok r t' \<and> (r = 0 \<and> j = Suc k \<or> r = -1 \<and> j \<le> k \<and> ps'' = []) \<and>
     vm t' d ps'' (mapped_range (E(n := entry pa perm)) (Suc n) j (pa + PGSIZE) perm) \<and> spares d t ps' t' ps'' \<and> length ps' \<le> length ps'' + j"
      unfolding u
    proof (rule Suc.IH [OF 2(2)])
      show "\<forall>i\<le>k. \<not> present ((E(n := entry pa perm)) (Suc n + i))" using Suc(7) by (auto simp: Suc_le_mono dest: spec [of _ "Suc _"])
    qed (use Suc.prems in \<open>simp_all add: algebra_simps\<close>)
    then obtain j r t' ps'' where w: "?rest t = Ok r t'" "r = 0 \<and> j = Suc k \<or> r = -1 \<and> j \<le> k \<and> ps'' = []"
      "vm t' d ps'' (mapped_range E n (Suc j) pa perm)" "spares d t ps' t' ps''" "length ps' \<le> length ps'' + j"
      unfolding mapped_range_simps(2) by blast
    then show ?thesis unfolding l using 2(1,4) spares_trans [OF 2(3) w(4)]
      by (intro exI [of _ "Suc j"] exI [of _ r] exI [of _ t'] exI [of _ ps'']) auto
  qed
qed

text \<open>The first page of the range that is mapped already is \<open>n + i\<close>.\<close>

lemma mappages_loop_remap:
  "vm s d ps E \<Longrightarrow> n + k < 1048576 \<Longrightarrow> pa mod PGSIZE = 0 \<Longrightarrow> pa + k * PGSIZE < 4294967296 \<Longrightarrow> perm < PGSIZE \<Longrightarrow>
   i \<le> k \<Longrightarrow> present (E (n + i)) \<Longrightarrow> \<forall>h < i. \<not> present (E (n + h)) \<Longrightarrow> lastp = (n + k) * PGSIZE \<Longrightarrow>
   (\<exists>t. mappages_loop d lastp perm k (n * PGSIZE) pa s = Stop (Panic ''remap'') t) \<or>
   (\<exists>j t. mappages_loop d lastp perm k (n * PGSIZE) pa s = Ok (-1) t \<and> j < i \<and> length ps \<le> j \<and>
     vm t d [] (mapped_range E n j pa perm) \<and> spares d s ps t [])"
proof (induction i arbitrary: k n pa s ps E)
  case 0
  have "pa < 4294967296" "n < 1048576" "present (E n)" using 0 by simp_all
  then show ?case using map_page_run [OF 0(1) _ 0(3) _ 0(5)] by (cases k) (auto simp only: mappages_loop_map_page)
next
  case (Suc i)
  then obtain k' where k: "k = Suc k'" by (cases k) auto
  have p: "pa < 4294967296" "n < 1048576" "\<not> present (E n)" using Suc.prems(2,4) spec [OF Suc.prems(8), of 0] by simp_all
  have "n * PGSIZE \<noteq> lastp" using Suc.prems(9) k by (simp add: PGSIZE_def)
  let ?rest = "mappages_loop d lastp perm k' (u32 (n * PGSIZE + PGSIZE)) (u32 (pa + PGSIZE))"
  have l: "mappages_loop d lastp perm k (n * PGSIZE) pa = map_page d (n * PGSIZE) pa perm ?rest"
    using \<open>n * PGSIZE \<noteq> lastp\<close> by (simp only: k mappages_loop_map_page if_False)
  from Suc.prems(1) p(2) Suc.prems(3) p(1) Suc.prems(5) p(3) show ?case
  proof (cases rule: map_page_cases [where rest = ?rest])
    case (1 t)
    then show ?thesis unfolding l by (intro disjI2 exI [of _ 0] exI [of _ t]) (simp add: mapped_range_simps)
  next
    case (2 t ps')
    have u: "u32 (n * PGSIZE + PGSIZE) = Suc n * PGSIZE" "u32 (pa + PGSIZE) = pa + PGSIZE"
      using Suc.prems(2,4) k by (simp_all add: u32_def PGSIZE_def)
    have "(\<exists>t'. ?rest t = Stop (Panic ''remap'') t') \<or> (\<exists>j t'. ?rest t = Ok (-1) t' \<and> j < i \<and> length ps' \<le> j \<and>
      vm t' d [] (mapped_range (E(n := entry pa perm)) (Suc n) j (pa + PGSIZE) perm) \<and> spares d t ps' t' [])"
      unfolding u
    proof (rule Suc.IH [OF 2(2)])
      show "\<forall>h<i. \<not> present ((E(n := entry pa perm)) (Suc n + h))" using Suc.prems(8) by (auto dest: spec [of _ "Suc _"])
    qed (use Suc.prems k in \<open>simp_all add: algebra_simps\<close>)
    then show ?thesis
    proof (elim disjE exE conjE)
      fix t' assume "?rest t = Stop (Panic ''remap'') t'"
      then show ?thesis unfolding l using 2(1) by auto
    next
      fix j t' assume w: "?rest t = Ok (-1) t'" "j < i" "length ps' \<le> j"
        "vm t' d [] (mapped_range (E(n := entry pa perm)) (Suc n) j (pa + PGSIZE) perm)" "spares d t ps' t' []"
      then show ?thesis unfolding l mapped_range_simps(2) using 2(1,4) spares_trans [OF 2(3) w(5)]
        by (intro disjI2 exI [of _ "Suc j"] exI [of _ t']) auto
    qed
  qed
qed

lemma mappages_args:
  assumes "0 < sz" "va + sz \<le> 4294967296" "n = va div PGSIZE" "k = (va + sz - 1) div PGSIZE - n"
  shows "mappages d va sz pa perm = mappages_loop d ((n + k) * PGSIZE) perm k (n * PGSIZE) pa" "n + k < 1048576"
proof -
  have "n \<le> (va + sz - 1) div PGSIZE" unfolding assms(3) by (rule div_le_mono) (use assms(1) in simp)
  then have k: "n + k = (va + sz - 1) div PGSIZE" by (simp add: assms(4))
  then show "n + k < 1048576" using assms(1,2) by (simp add: PGSIZE_def)
  have "u32_of (int va + int sz - 1) = va + sz - 1" using assms(1,2)
    by (simp add: u32_of_def nat_diff_distrib nat_add_distrib of_nat_diff)
  moreover have "u32_of (int ((n + k) * PGSIZE) - int (n * PGSIZE)) div PGSIZE = k"
    using \<open>n + k < 1048576\<close> by (simp add: u32_of_def algebra_simps PGSIZE_def nat_mult_distrib)
  ultimately show "mappages d va sz pa perm = mappages_loop d ((n + k) * PGSIZE) perm k (n * PGSIZE) pa"
    by (simp only: mappages_def PGROUNDDOWN_def k [symmetric] assms(3) [symmetric] Let_def)
qed

text \<open>C15. \<open>mappages\<close> on a range of addresses whose pages are not mapped: it enters the consecutive page frames from \<open>pa\<close> on with the
  given permissions for exactly these pages, makes page tables out of free pages where there are none, and changes no other
  entry of the address space and no page outside the page table. It fails only when the free pages run out, with a prefix of the
  range mapped, and there is no failure when there is a free page for every page of the range. A page of the range that is mapped
  already, wherever it is, makes it panic, unless the free pages run out on the pages before it.\<close>

theorem mappages_maps:
  assumes v: "vm s d ps E" and va: "0 < sz" "va + sz \<le> 4294967296" "n = va div PGSIZE" "k = (va + sz - 1) div PGSIZE - n"
    and pa: "pa mod PGSIZE = 0" "pa + k * PGSIZE < 4294967296" "perm < PGSIZE"
  shows "((\<forall>i \<le> k. \<not> present (E (n + i))) \<longrightarrow>
      (\<exists>j r t ps'. mappages d va sz pa perm s = Ok r t \<and> (r = 0 \<and> j = Suc k \<or> r = -1 \<and> j \<le> k \<and> length ps \<le> k) \<and>
        vm t d ps' (\<lambda>i. if n \<le> i \<and> i < n + j then entry (pa + (i - n) * PGSIZE) perm else E i) \<and> spares d s ps t ps')) \<and>
    (\<forall>i \<le> k. present (E (n + i)) \<and> (\<forall>h < i. \<not> present (E (n + h))) \<longrightarrow>
      (\<exists>t. mappages d va sz pa perm s = Stop (Panic ''remap'') t) \<or>
      (\<exists>j t. mappages d va sz pa perm s = Ok (-1) t \<and> j < i \<and> length ps \<le> j \<and>
        vm t d [] (\<lambda>h. if n \<le> h \<and> h < n + j then entry (pa + (h - n) * PGSIZE) perm else E h) \<and> spares d s ps t []))"
    (is "(?free \<longrightarrow> ?maps) \<and> (\<forall>i \<le> k. ?first i \<longrightarrow> ?panics i)")
proof -
  note a = mappages_args [OF va]
  have "?free \<longrightarrow> ?maps"
    using mappages_loop_run [OF v a(2) pa _ refl] unfolding a(1) mapped_range_def by fastforce
  moreover have "?panics i" if "i \<le> k" "?first i" for i
    using mappages_loop_remap [OF v a(2) pa that(1) _ _ refl] that(2) unfolding a(1) mapped_range_def by blast
  ultimately show ?thesis by blast
qed

section \<open>Shrinking a process\<close>

lemma vm_own:
  assumes v: "vm s d ps E" "owned s d ps p" and m: "\<And>q. ram_page q \<Longrightarrow> q \<noteq> p \<Longrightarrow> same_page (mem s) m q"
  shows "vm (s\<lparr>mem := m\<rparr>) d ps E" "tables m d = tables (mem s) d"
proof -
  have ok: "freepages s ps" "pgdir_ok (mem s) d (set ps)" "pte (mem s) d = E" using v(1) by (simp_all add: vm_def)
  have p: "p \<notin> set ps" "p \<noteq> d" "p \<notin> tables (mem s) d" using v(2) by (simp_all add: owned_def)
  have "ram_page d" using ok(2) by (simp add: pgdir_ok_def)
  then have sd: "same_page (mem s) m d" using m p(2) by auto
  note s = same_page_dir [OF sd]
  show "tables m d = tables (mem s) d" by (rule s(3))
  have "freepages (s\<lparr>mem := m\<rparr>) ps" using m freepages_ram [OF ok(1)] p(1) by (intro freepages_mem [OF ok(1)]) auto
  moreover have "pgdir_ok m d (set ps)" using ok(2) same_page_pgdir [OF sd] by simp
  moreover have "pte m d n = E n" for n
  proof (cases "has_ptab (mem s) d (n div 1024)")
    case True
    then have "ptab (mem s) d (n div 1024) \<in> tables (mem s) d" "n div 1024 < NPDENTRIES"
      by (auto simp: tables_def has_ptab_def)
    moreover from this have "same_page (mem s) m (ptab (mem s) d (n div 1024))" using ok(2) p(3) m by (auto simp: pgdir_ok_def)
    ultimately show ?thesis using True s ok(3) same_page_rd32 [of "mem s" m _ "n mod 1024"] by (auto simp: pte_def)
  qed (use s ok(3) in \<open>auto simp: pte_def\<close>)
  ultimately show "vm (s\<lparr>mem := m\<rparr>) d ps E" by (auto simp: vm_def)
qed

definition pages_upto :: "nat \<Rightarrow> nat" where
  "pages_upto sz = (sz + PGSIZE - 1) div PGSIZE"

lemma pages_upto_less: "n < pages_upto sz \<longleftrightarrow> n * PGSIZE < sz"
proof -
  have "n < pages_upto sz \<longleftrightarrow> Suc n * PGSIZE \<le> sz + PGSIZE - 1"
    unfolding pages_upto_def less_eq_div_iff_mult_less_eq [OF PGSIZE_pos, symmetric] by (simp add: Suc_le_eq)
  then show ?thesis by (auto simp: PGSIZE_def)
qed

lemma walkpgdir_present:
  assumes v: "vm s d ps E" and n: "n < 1048576" "present (E n)"
  shows "\<exists>r. walkpgdir d (n * PGSIZE) alloc s = Ok r s \<and> r \<noteq> 0 \<and> has_ptab (mem s) d (n div 1024) \<and>
    r = ptab (mem s) d (n div 1024) + 4 * (n mod 1024) \<and> rd32 (mem s) r = E n"
proof -
  have va: "n * PGSIZE < 4294967296" "n * PGSIZE div PGSIZE = n" using n(1) by (simp_all add: PGSIZE_def)
  have E: "pte (mem s) d n = E n" and d: "pgdir_ok (mem s) d (set ps)" using v by (auto simp: vm_def)
  then have h: "has_ptab (mem s) d (n div 1024)" using n(2) by (auto simp: pte_def present_def split: if_splits)
  then have "ptab (mem s) d (n div 1024) \<noteq> 0" using d by (auto simp: pgdir_ok_def tables_def ram_page_def KERNBASE_def)
  then show ?thesis using h E
    by (simp add: walkpgdir_def exec_simps PDX_div [OF va(1)] PTX_mod va(2) pte_def) (simp add: has_ptab_def present_def ptab_def)
qed

lemma kfree_vm:
  assumes v: "vm s d ps E" "owned s d ps p" "good_page s p"
  shows "\<exists>t. kfree p s = Ok () t \<and> vm t d (p # ps) E \<and> km_end t = km_end s \<and> tables (mem t) d = tables (mem s) d \<and>
    (\<forall>q. ram_page q \<longrightarrow> q \<noteq> p \<longrightarrow> same_page (mem s) (mem t) q)"
proof -
  have f: "freepages s ps" "p \<notin> set ps" "lock_ready LKmem s" "\<not> bad_page p s"
    using v by (auto simp: vm_def owned_def freepages_def good_page_def)
  obtain t where t: "kfree p s = Ok () t" "mem t = wr32 (mem_fill (mem s) p 1 PGSIZE) p (km_freelist s)" "km_end t = km_end s"
    using kfree_run [OF f(3,4)] by blast
  have ft: "freepages t (p # ps)" using kmem.free_page [OF f(1) v(3) f(2)] t(1) by auto
  have p: "ram_page p" using v(2) by (simp add: owned_def)
  have sp: "same_page (mem s) (mem t) q" if "ram_page q" "q \<noteq> p" for q
    using same_page_trans [OF same_page_fill [OF p that(1)] same_page_wr32 [OF p that(1), of 0]] that t(2) by auto
  note vo = vm_own [OF v(1,2) sp]
  have "vm t d (p # ps) E" using vo ft v(2) by (auto simp: vm_def pgdir_ok_def owned_def)
  then show ?thesis using t vo(2) sp by blast
qed

lemma clear_entry:
  assumes v: "vm s d ps E" and n: "has_ptab (mem s) d (n div 1024)" "r = ptab (mem s) d (n div 1024) + 4 * (n mod 1024)"
    and t: "t = s\<lparr>mem := wr32 (mem s) r 0\<rparr>"
  shows "vm t d ps (E(n := 0))" "spares d s ps t ps" "tables (mem t) d = tables (mem s) d"
proof -
  have ok: "freepages s ps" "pgdir_ok (mem s) d (set ps)" "pte (mem s) d = E" using v by (simp_all add: vm_def)
  note ne = new_entry [OF ok(2) n(1) refl, of 0, folded n(2)]
  have "freepages t ps" unfolding t
    by (rule freepages_mem [OF ok(1)]) (use ne(4) freepages_ram [OF ok(1)] ok(2) in \<open>auto simp: pgdir_ok_def\<close>)
  then show "vm t d ps (E(n := 0))" using ne(1,3) ok(3) t by (simp add: vm_def)
  show "spares d s ps t ps" "tables (mem t) d = tables (mem s) d" using ne(2,4) t by (simp_all add: spares_def owned_def)
qed

definition unmapped :: "(nat \<Rightarrow> nat) \<Rightarrow> nat \<Rightarrow> nat \<Rightarrow> nat \<Rightarrow> nat" where
  "unmapped E n k = (\<lambda>i. if n \<le> i \<and> i < n + k then 0 else E i)"

text \<open>Pages of a process: entries from page number \<open>n\<close> on for the pages \<open>fs\<close>, which belong to it alone.\<close>

definition maps_pages :: "'z kalloc_st_scheme \<Rightarrow> nat \<Rightarrow> nat list \<Rightarrow> (nat \<Rightarrow> nat) \<Rightarrow> nat \<Rightarrow> nat list \<Rightarrow> bool" where
  "maps_pages s d ps E n fs \<longleftrightarrow> distinct fs \<and> KERNBASE < km_end s \<and> (\<forall>q \<in> set fs. owned s d ps q \<and> good_page s q) \<and>
     (\<forall>i < length fs. present (E (n + i)) \<and> P2V (PTE_ADDR (E (n + i))) = fs ! i)"

text \<open>Pages in use other than \<open>fs\<close> stay in use with their content, and the page tables are the same.\<close>

definition released_to :: "'z kalloc_st_scheme \<Rightarrow> 'z kalloc_st_scheme \<Rightarrow> nat \<Rightarrow> nat list \<Rightarrow> nat list \<Rightarrow> nat list \<Rightarrow> bool" where
  "released_to s t d ps ps' fs \<longleftrightarrow> tables (mem t) d = tables (mem s) d \<and> km_end t = km_end s \<and>
     (\<forall>q. owned s d ps q \<longrightarrow> q \<notin> set fs \<longrightarrow> owned t d ps' q \<and> same_page (mem s) (mem t) q)"

lemma deallocuvm_step:
  assumes v: "vm s d ps E" "maps_pages s d ps E n (p # fs)" and n: "n < 1048576" "n * PGSIZE < oldsz"
  shows "\<exists>t. deallocuvm_loop d oldsz newsz (n * PGSIZE) s = deallocuvm_loop d oldsz newsz (Suc n * PGSIZE) t \<and>
    vm t d (p # ps) (E(n := 0)) \<and> maps_pages t d (p # ps) (E(n := 0)) (Suc n) fs \<and> released_to s t d ps (p # ps) [p]"
proof -
  have p: "owned s d ps p" "good_page s p" "p \<notin> set fs" "present (E n)" "P2V (PTE_ADDR (E n)) = p"
    using v(2) by (force simp: maps_pages_def)+
  obtain r where r: "walkpgdir d (n * PGSIZE) False s = Ok r s" "r \<noteq> 0" "has_ptab (mem s) d (n div 1024)"
    "r = ptab (mem s) d (n div 1024) + 4 * (n mod 1024)" "rd32 (mem s) r = E n"
    using walkpgdir_present [OF v(1) n(1) p(4)] by blast
  obtain t where t: "kfree p s = Ok () t" "vm t d (p # ps) E" "km_end t = km_end s" "tables (mem t) d = tables (mem s) d"
    "\<And>q. ram_page q \<Longrightarrow> q \<noteq> p \<Longrightarrow> same_page (mem s) (mem t) q" using kfree_vm [OF v(1) p(1,2)] by blast
  have "same_page (mem s) (mem t) d" using t(5) p(1) v(1) by (auto simp: vm_def pgdir_ok_def owned_def)
  note sd = same_page_dir [OF this]
  have r': "has_ptab (mem t) d (n div 1024)" "r = ptab (mem t) d (n div 1024) + 4 * (n mod 1024)"
    using sd r(3,4) by (auto simp: has_ptab_def)
  define u where "u = t\<lparr>mem := wr32 (mem t) r 0\<rparr>"
  note ce = clear_entry [OF t(2) r' u_def]
  have ow: "owned u d (p # ps) q \<and> same_page (mem s) (mem u) q" if "owned s d ps q" "q \<noteq> p" for q
  proof -
    have "owned t d (p # ps) q" "same_page (mem s) (mem t) q" using that t(4,5) by (auto simp: owned_def)
    then show ?thesis using ce(2) same_page_trans [of "mem s" "mem t" q] by (simp add: spares_def)
  qed
  have "km_end u = km_end s" using t(3) by (simp add: u_def)
  with v(2) have mp: "maps_pages u d (p # ps) (E(n := 0)) (Suc n) fs"
    using v(2) p(3) ow unfolding maps_pages_def good_page_def bad_page_def by (auto dest: spec [of _ "Suc _"])
  have "PTE_ADDR (E n) \<noteq> 0"
    using p(2,5) v(2) by (auto simp: maps_pages_def good_page_def bad_page_def P2V_def u32_def KERNBASE_def)
  then have "deallocuvm_loop d oldsz newsz (n * PGSIZE) s = deallocuvm_loop d oldsz newsz (Suc n * PGSIZE) u"
    using n(2) r(1,2,5) p(4,5) t(1) by (subst deallocuvm_loop.simps) (simp add: exec_simps present_def upd_mem_def u_def add.commute)
  moreover have "released_to s u d ps (p # ps) [p]"
    using ow \<open>km_end u = km_end s\<close> ce(3) t(4) by (simp add: released_to_def)
  ultimately show ?thesis using ce(1) mp by blast
qed

lemma deallocuvm_rest:
  assumes v: "vm s d ps E" and sz: "oldsz \<le> KERNBASE"
  shows "\<forall>i \<ge> n. i * PGSIZE < oldsz \<longrightarrow> \<not> present (E i) \<Longrightarrow> deallocuvm_loop d oldsz newsz (n * PGSIZE) s = Ok newsz s"
proof (induction "oldsz - n * PGSIZE" arbitrary: n rule: less_induct)
  case less
  show ?case
  proof (cases "n * PGSIZE < oldsz")
    case True
    then have va: "n * PGSIZE < 4294967296" "n * PGSIZE div PGSIZE = n" "n div 1024 < NPDENTRIES"
      using sz by (simp_all add: layout_defs NPDENTRIES_def)
    have E: "pte (mem s) d n = E n" and d: "pgdir_ok (mem s) d (set ps)" using v by (auto simp: vm_def)
    have np: "E n AND PTE_P = 0" using less(2) True by (simp add: present_def)
    have go: "deallocuvm_loop d oldsz newsz ((n + k) * PGSIZE) s = Ok newsz s" if "0 < k" for k
    proof (rule less(1))
      have "0 < k * PGSIZE" using that by simp
      then show "oldsz - (n + k) * PGSIZE < oldsz - n * PGSIZE" using True unfolding add_mult_distrib by linarith
    qed (use less(2) in auto)
    show ?thesis
    proof (cases "has_ptab (mem s) d (n div 1024)")
      case h: True
      then have "ptab (mem s) d (n div 1024) \<noteq> 0" using d by (auto simp: pgdir_ok_def tables_def ram_page_def KERNBASE_def)
      moreover have "walkpgdir d (n * PGSIZE) False s = Ok (ptab (mem s) d (n div 1024) + 4 * (n mod 1024)) s"
        using h by (simp add: walkpgdir_def exec_simps PDX_div [OF va(1)] PTX_mod va(2)) (simp add: has_ptab_def present_def ptab_def)
      moreover have "rd32 (mem s) (ptab (mem s) d (n div 1024) + 4 * (n mod 1024)) = E n" using E h by (simp add: pte_def)
      ultimately show ?thesis using True np go [of 1]
        by (subst deallocuvm_loop.simps) (simp add: exec_simps add_mult_distrib add.commute)
    next
      case False
      then have "walkpgdir d (n * PGSIZE) False s = Ok 0 s"
        using va(3) by (simp add: walkpgdir_def exec_simps PDX_div [OF va(1)] va(2)) (simp add: has_ptab_def present_def)
      moreover have "n * PGSIZE + (NPTENTRIES - 1) * PGSIZE + PGSIZE = (n + 1024) * PGSIZE" by (simp add: NPTENTRIES_def PGSIZE_def)
      ultimately show ?thesis using True go [of 1024] by (subst deallocuvm_loop.simps) (simp add: exec_simps)
    qed
  next
    case False
    then show ?thesis by (subst deallocuvm_loop.simps) (simp add: exec_simps)
  qed
qed

lemma deallocuvm_loop_run:
  "vm s d ps E \<Longrightarrow> maps_pages s d ps E n fs \<Longrightarrow> \<forall>i < length fs. (n + i) * PGSIZE < oldsz \<Longrightarrow> oldsz \<le> KERNBASE \<Longrightarrow>
   \<forall>i \<ge> n + length fs. i * PGSIZE < oldsz \<longrightarrow> \<not> present (E i) \<Longrightarrow>
   \<exists>t. deallocuvm_loop d oldsz newsz (n * PGSIZE) s = Ok newsz t \<and> vm t d (rev fs @ ps) (unmapped E n (length fs)) \<and>
     released_to s t d ps (rev fs @ ps) fs"
proof (induction fs arbitrary: n s ps E)
  case Nil
  have "deallocuvm_loop d oldsz newsz (n * PGSIZE) s = Ok newsz s" using deallocuvm_rest [OF Nil(1,4)] Nil(5) by simp
  moreover have "unmapped E n 0 = E" by (auto simp: unmapped_def)
  ultimately show ?case using Nil(1) by (intro exI [of _ s]) (simp add: released_to_def same_page_def)
next
  case (Cons p fs)
  have n: "n * PGSIZE < oldsz" using Cons(4) by force
  then have n20: "n < 1048576" using Cons(5) by (simp add: layout_defs)
  obtain t where t: "deallocuvm_loop d oldsz newsz (n * PGSIZE) s = deallocuvm_loop d oldsz newsz (Suc n * PGSIZE) t"
    "vm t d (p # ps) (E(n := 0))" "maps_pages t d (p # ps) (E(n := 0)) (Suc n) fs" "released_to s t d ps (p # ps) [p]"
    using deallocuvm_step [OF Cons(2,3) n20 n] by blast
  have "\<forall>i < length fs. (Suc n + i) * PGSIZE < oldsz" using Cons(4) by (auto dest: spec [of _ "Suc _"])
  moreover have "\<forall>i \<ge> Suc n + length fs. i * PGSIZE < oldsz \<longrightarrow> \<not> present ((E(n := 0)) i)" using Cons(6) by auto
  ultimately obtain u where u: "deallocuvm_loop d oldsz newsz (Suc n * PGSIZE) t = Ok newsz u"
    "vm u d (rev fs @ p # ps) (unmapped (E(n := 0)) (Suc n) (length fs))" "released_to t u d (p # ps) (rev fs @ p # ps) fs"
    using Cons.IH [OF t(2,3) _ Cons(5)] by blast
  have "unmapped (E(n := 0)) (Suc n) (length fs) = unmapped E n (length (p # fs))" by (auto simp: unmapped_def)
  moreover have "released_to s u d ps (rev fs @ p # ps) (p # fs)"
    using t(4) u(3) same_page_trans unfolding released_to_def by fastforce
  ultimately show ?case using t(1) u(1,2) by auto
qed

text \<open>C14. \<open>deallocuvm\<close> shrinks a process whose pages between the two sizes are its own: it returns the new size, exactly the entries of
  these pages are cleared, the pages go to the free list, each once, and every other page in use keeps its content. Together
  with \<open>allocuvm\<close>, no page is lost.\<close>

theorem deallocuvm_frees:
  assumes v: "vm s d ps E" "maps_pages s d ps E n fs"
    and sz: "newsz < oldsz" "oldsz \<le> KERNBASE" "n = pages_upto newsz" "length fs = pages_upto oldsz - n"
  shows "\<exists>t. deallocuvm d oldsz newsz s = Ok newsz t \<and> vm t d (rev fs @ ps) (\<lambda>i. if n \<le> i \<and> i < pages_upto oldsz then 0 else E i) \<and>
    (\<forall>q. owned s d ps q \<longrightarrow> q \<notin> set fs \<longrightarrow> owned t d (rev fs @ ps) q \<and> same_page (mem s) (mem t) q)"
proof -
  have up: "PGROUNDUP newsz = n * PGSIZE" using sz by (simp add: PGROUNDUP_def pages_upto_def u32_def layout_defs)
  have "newsz + PGSIZE - 1 \<le> oldsz + PGSIZE - 1" using sz(1) by simp
  then have "n \<le> pages_upto oldsz" unfolding sz(3) pages_upto_def by (rule div_le_mono)
  then have l: "n + length fs = pages_upto oldsz" using sz(4) by simp
  have "\<forall>i < length fs. (n + i) * PGSIZE < oldsz" using l by (auto simp flip: pages_upto_less)
  moreover have "\<forall>i \<ge> n + length fs. i * PGSIZE < oldsz \<longrightarrow> \<not> present (E i)" using l by (auto simp flip: pages_upto_less)
  moreover have "unmapped E n (length fs) = (\<lambda>i. if n \<le> i \<and> i < pages_upto oldsz then 0 else E i)" using l by (auto simp: unmapped_def)
  ultimately show ?thesis using deallocuvm_loop_run [OF v _ sz(2), of newsz] sz(1) up by (auto simp: deallocuvm_def released_to_def)
qed

section \<open>Growing a process\<close>

lemma mappages_single: "n < 1048576 \<Longrightarrow> mappages d (n * PGSIZE) PGSIZE pa perm = map_page d (n * PGSIZE) pa perm (ret 0)"
proof -
  assume "n < 1048576"
  then have a: "n * PGSIZE + PGSIZE \<le> 4294967296" "n = n * PGSIZE div PGSIZE" "0 = (n * PGSIZE + PGSIZE - 1) div PGSIZE - n"
    by (simp_all add: PGSIZE_def)
  show ?thesis unfolding mappages_args(1) [OF PGSIZE_pos a] mappages_loop_map_page ..
qed

text \<open>A page of zeros out of the free list.\<close>

definition zero_page :: "memory \<Rightarrow> nat \<Rightarrow> bool" where
  "zero_page m q \<longleftrightarrow> (\<forall>i < PGSIZE. m (q + i) = 0)"

lemma alloc_zero:
  assumes v: "vm s d (p # ps) E"
  shows "\<exists>t. kalloc s = Ok p t \<and> p \<noteq> 0 \<and> (let u = t\<lparr>mem := memset (mem t) p 0 PGSIZE\<rparr> in
    vm u d ps E \<and> owned u d ps p \<and> zero_page (mem u) p \<and> spares d s (p # ps) u ps \<and> tables (mem u) d = tables (mem s) d)"
proof -
  have f: "freepages s (p # ps)" "pgdir_ok (mem s) d (set (p # ps))" using v by (simp_all add: vm_def)
  obtain t where t: "kalloc s = Ok p t" "freepages t ps" "mem t = mem s" "km_end t = km_end s"
    using kmem.alloc_head [OF f(1)] kalloc_run [of s] f(1) by (auto simp: freepages_def)
  have p: "ram_page p" "p \<noteq> 0" "p \<notin> set ps" using freepages_ram [OF f(1)] kmem.pages_distinct [OF f(1)] by auto
  have vt: "vm t d ps E" "owned t d ps p" using v t f(2) p by (auto simp: vm_def pgdir_ok_def owned_def)
  let ?m = "mem_fill (mem t) p 0 PGSIZE"
  have sp: "same_page (mem t) ?m q" if "ram_page q" "q \<noteq> p" for q using same_page_fill [OF p(1) that(1)] that(2) by auto
  note vo = vm_own [OF vt sp]
  have "owned (t\<lparr>mem := ?m\<rparr>) d ps p" using vt(2) vo(2) by (simp add: owned_def)
  moreover have "zero_page ?m p" by (simp add: zero_page_def mem_fill_def)
  moreover have "spares d s (p # ps) (t\<lparr>mem := ?m\<rparr>) ps" using sp vo(2) t(3,4) by (auto simp: spares_def owned_def)
  ultimately show ?thesis using t(1,3) p(2) vo by (simp add: memset_zero Let_def)
qed

text \<open>The pages \<open>fs\<close> from page number \<open>n\<close> on, writable and for the user.\<close>

definition user_pages :: "(nat \<Rightarrow> nat) \<Rightarrow> nat \<Rightarrow> nat list \<Rightarrow> nat \<Rightarrow> nat" where
  "user_pages E n fs = (\<lambda>i. if n \<le> i \<and> i < n + length fs then entry (V2P (fs ! (i - n))) (PTE_W OR PTE_U) else E i)"

lemma user_pages_Cons:
  "user_pages (E(n := entry (V2P p) (PTE_W OR PTE_U))) (Suc n) fs = user_pages E n (p # fs)"
  by (auto simp: user_pages_def fun_eq_iff nth_Cons split: nat.splits) (metis Suc_diff_le diff_Suc_Suc nat.inject)+

lemma vm_cons_out [simp]: "vm (s\<lparr>cons_out := c\<rparr>) d ps E = vm s d ps E"
  by (simp add: vm_def freepages_def lock_ready_def the_cpu_def good_page_def bad_page_def)

lemma maps_pages_cons_out [simp]: "maps_pages (s\<lparr>cons_out := c\<rparr>) d ps E n fs = maps_pages s d ps E n fs"
  by (simp add: maps_pages_def owned_def good_page_def bad_page_def)

text \<open>Pages that an operation spares stay the process's own.\<close>

lemma maps_pages_spares:
  assumes "maps_pages s d ps E n fs" "spares d s ps t ps'" "\<forall>i < length fs. E' (n + i) = E (n + i)"
  shows "maps_pages t d ps' E' n fs"
  using assms unfolding maps_pages_def spares_def good_page_def bad_page_def by simp

lemma maps_pages_snoc:
  assumes "maps_pages s d ps E n fs" "owned s d ps p" "good_page s p" "p \<notin> set fs"
    "present (E (n + length fs))" "P2V (PTE_ADDR (E (n + length fs))) = p"
  shows "maps_pages s d ps E n (fs @ [p])"
  using assms unfolding maps_pages_def by (auto simp: nth_append less_Suc_eq)

text \<open>The way back when memory runs out with the pages \<open>gs\<close> mapped so far.\<close>

lemma rollback:
  assumes v: "vm s d ps E" "maps_pages s d ps E n gs"
    and sz: "n = pages_upto oldsz" "(n + length gs) * PGSIZE < newsz" "newsz < KERNBASE" "oldsz \<le> newsz"
    and r: "\<forall>i \<ge> n + length gs. i * PGSIZE < newsz \<longrightarrow> \<not> present (E i)"
  shows "\<exists>t. run [cprintf msg [], call (deallocuvm d newsz oldsz)] s = Ok () t \<and> vm t d (rev gs @ ps) (unmapped E n (length gs)) \<and>
    released_to s t d ps (rev gs @ ps) gs"
proof -
  let ?s = "s\<lparr>cons_out := cons_out s @ [(msg, [])]\<rparr>"
  have "(n + i) * PGSIZE \<le> (n + length gs) * PGSIZE" if "i < length gs" for i by (rule mult_le_mono1) (use that in simp)
  then have lt: "\<forall>i < length gs. (n + i) * PGSIZE < newsz" using sz(2) by (meson le_less_trans)
  obtain t where t: "deallocuvm_loop d newsz oldsz (n * PGSIZE) ?s = Ok oldsz t" "vm t d (rev gs @ ps) (unmapped E n (length gs))"
    "released_to ?s t d ps (rev gs @ ps) gs"
    using deallocuvm_loop_run [of ?s d ps E n gs newsz oldsz] v lt r sz(3) by auto
  have up: "PGROUNDUP oldsz = n * PGSIZE" using sz by (simp add: PGROUNDUP_def pages_upto_def u32_def layout_defs)
  have "n * PGSIZE \<le> (n + length gs) * PGSIZE" "oldsz \<le> n * PGSIZE" using pages_upto_less [of n oldsz] sz(1) by simp_all
  then have "oldsz < newsz" using sz(2) by linarith
  then show ?thesis using t up by (auto simp: deallocuvm_def cprintf_def exec_simps released_to_def owned_def)
qed

text \<open>The outcomes of \<open>allocuvm\<close> after the pages \<open>gs\<close>: \<open>k\<close> more pages, or everything given back.\<close>

definition alloc_ok :: "('z kalloc_st_scheme, nat) outcome \<Rightarrow> nat \<Rightarrow> 'z kalloc_st_scheme \<Rightarrow> nat list \<Rightarrow> (nat \<Rightarrow> nat) \<Rightarrow> nat \<Rightarrow> nat \<Rightarrow> nat \<Rightarrow> bool" where
  "alloc_ok r d s ps E n k newsz \<longleftrightarrow> (\<exists>t ps' fs. r = Ok newsz t \<and> length fs = k \<and> distinct fs \<and> set fs \<subseteq> set ps \<and>
     (\<forall>q \<in> set fs. owned t d ps' q \<and> zero_page (mem t) q) \<and> vm t d ps' (user_pages E n fs) \<and> spares d s ps t ps')"

definition alloc_fail :: "('z kalloc_st_scheme, nat) outcome \<Rightarrow> nat \<Rightarrow> 'z kalloc_st_scheme \<Rightarrow> nat list \<Rightarrow> (nat \<Rightarrow> nat) \<Rightarrow> nat \<Rightarrow> nat list \<Rightarrow> bool" where
  "alloc_fail r d s ps E n gs \<longleftrightarrow> (\<exists>t ps'. r = Ok 0 t \<and> vm t d ps' (unmapped E n (length gs)) \<and>
     set ps \<union> set gs \<union> tables (mem s) d \<subseteq> set ps' \<union> tables (mem t) d \<and>
     (\<forall>q. owned s d ps q \<longrightarrow> q \<notin> set gs \<longrightarrow> owned t d ps' q \<and> same_page (mem s) (mem t) q))"

lemma alloc_fail_pass:
  assumes "alloc_fail r d w ps2 E' n (gs @ [p])" "kept d u ps1 w ps2" "spares d u ps1 w ps2" "set ps \<union> tables (mem s) d \<subseteq> insert p (set ps1 \<union> tables (mem u) d)"
    "\<forall>q. owned s d ps q \<longrightarrow> q \<noteq> p \<and> owned u d ps1 q \<and> same_page (mem s) (mem u) q" "unmapped E' n (length (gs @ [p])) = unmapped E n (length gs)"
  shows "alloc_fail r d s ps E n gs"
proof -
  obtain t ps' where t: "r = Ok 0 t" "vm t d ps' (unmapped E n (length gs))" "set ps2 \<union> set (gs @ [p]) \<union> tables (mem w) d \<subseteq> set ps' \<union> tables (mem t) d"
    "\<And>q. owned w d ps2 q \<Longrightarrow> q \<notin> set (gs @ [p]) \<Longrightarrow> owned t d ps' q \<and> same_page (mem w) (mem t) q"
    using assms(1) unfolding alloc_fail_def assms(6) by blast
  have "set ps \<union> set gs \<union> tables (mem s) d \<subseteq> set ps' \<union> tables (mem t) d" using t(3) assms(2,4) unfolding kept_def set_append list.set by blast
  moreover have "owned t d ps' q \<and> same_page (mem s) (mem t) q" if "owned s d ps q" "q \<notin> set gs" for q
    using that t(4) assms(3,5) same_page_trans unfolding spares_def by (metis Un_iff empty_iff insert_iff list.set set_append)
  ultimately show ?thesis using t(1,2) by (auto simp: alloc_fail_def)
qed

text \<open>The three ways a turn of the loop goes: no page, no page table, and on to the next page.\<close>

lemma alloc_no_page:
  assumes v: "vm s d [] E" "maps_pages s d [] E n0 gs" "n = n0 + length gs"
    and sz: "n0 = pages_upto oldsz" "n * PGSIZE < newsz" "newsz < KERNBASE" "oldsz \<le> newsz"
    and r: "\<forall>i \<ge> n. i * PGSIZE < newsz \<longrightarrow> E i = 0"
  shows "alloc_fail (allocuvm_loop d oldsz newsz (n * PGSIZE) s) d s [] E n0 gs"
proof -
  have f: "freepages s []" using v(1) by (simp add: vm_def)
  obtain t where t: "kalloc s = Ok 0 t" "freepages t []" "mem t = mem s" "km_end t = km_end s"
    using kmem.alloc_empty [OF f] kalloc_run [of s] f by (auto simp: freepages_def)
  have vt: "vm t d [] E" "maps_pages t d [] E n0 gs" using v t by (simp_all add: vm_def maps_pages_def owned_def good_page_def bad_page_def)
  have np: "\<forall>i \<ge> n0 + length gs. i * PGSIZE < newsz \<longrightarrow> \<not> present (E i)" using r v(3) by (simp add: present_def)
  obtain u where u: "run [cprintf ''allocuvm out of memory\<newline>'' [], call (deallocuvm d newsz oldsz)] t = Ok () u"
    "vm u d (rev gs @ []) (unmapped E n0 (length gs))" "released_to t u d [] (rev gs @ []) gs"
    using rollback [OF vt sz(1) _ sz(3,4) np] sz(2) v(3) by blast
  have "allocuvm_loop d oldsz newsz (n * PGSIZE) s = Ok 0 u"
    using sz(2) t(1) u(1) by (subst allocuvm_loop.simps) (simp add: exec_simps(1,2,8))
  then show ?thesis using u(2,3) t(3) by (auto simp: alloc_fail_def released_to_def owned_def)
qed

lemma alloc_no_table:
  assumes v: "vm s d [p] E" "maps_pages s d [p] E n0 gs" "n = n0 + length gs"
    and sz: "n0 = pages_upto oldsz" "n * PGSIZE < newsz" "newsz < KERNBASE" "oldsz \<le> newsz"
    and r: "\<forall>i \<ge> n. i * PGSIZE < newsz \<longrightarrow> E i = 0"
    and t: "kalloc s = Ok p t" "p \<noteq> 0" and u: "u = t\<lparr>mem := memset (mem t) p 0 PGSIZE\<rparr>" "owned u d [] p"
      "spares d s [p] u []" "tables (mem u) d = tables (mem s) d"
    and w: "mappages d (n * PGSIZE) PGSIZE (V2P p) (PTE_W OR PTE_U) u = Ok (-1) w" "vm w d [] E" "spares d u [] w []" "kept d u [] w []"
  shows "alloc_fail (allocuvm_loop d oldsz newsz (n * PGSIZE) s) d s [p] E n0 gs"
proof -
  note sw = spares_trans [OF u(3) w(3)]
  have mw: "maps_pages w d [] E n0 gs" using maps_pages_spares [OF v(2) sw] by simp
  have np: "\<forall>i \<ge> n0 + length gs. i * PGSIZE < newsz \<longrightarrow> \<not> present (E i)" using r v(3) by (simp add: present_def)
  obtain x where x: "run [cprintf ''allocuvm out of memory (2)\<newline>'' [], call (deallocuvm d newsz oldsz)] w = Ok () x"
    "vm x d (rev gs @ []) (unmapped E n0 (length gs))" "released_to w x d [] (rev gs @ []) gs"
    using rollback [OF w(2) mw sz(1) _ sz(3,4) np] sz(2) v(3) by blast
  have pg: "p \<notin> set gs" using v(2) by (auto simp: maps_pages_def owned_def)
  have "owned w d [] p" using w(3) u(2) by (simp add: spares_def)
  then have px: "owned x d (rev gs) p" using x(3) pg by (simp add: released_to_def)
  have "good_page s p" using v(1) by (simp add: vm_def freepages_def)
  then have gx: "good_page x p" using sw x(3) by (simp add: good_page_def bad_page_def spares_def released_to_def)
  obtain y where y: "kfree p x = Ok () y" "vm y d (p # rev gs) (unmapped E n0 (length gs))" "tables (mem y) d = tables (mem x) d"
    "\<And>q. ram_page q \<Longrightarrow> q \<noteq> p \<Longrightarrow> same_page (mem x) (mem y) q"
    using kfree_vm [OF _ px gx, of "unmapped E n0 (length gs)"] x(2) by auto
  have "run [cprintf ''allocuvm out of memory (2)\<newline>'' [], call (deallocuvm d newsz oldsz), kfree p] w = Ok () y"
    using x(1) y(1) by (auto simp: exec_simps split: outcome.splits)
  then have "allocuvm_loop d oldsz newsz (n * PGSIZE) s = Ok 0 y"
    using sz(2) t w(1) u(1) by (subst allocuvm_loop.simps) (simp add: exec_simps(1,2,4,8) upd_mem_def)
  moreover have "tables (mem s) d \<subseteq> tables (mem y) d" using u(4) w(4) x(3) y(3) by (auto simp: kept_def released_to_def)
  moreover have "owned y d (p # rev gs) q \<and> same_page (mem s) (mem y) q" if "owned s d [p] q" "q \<notin> set gs" for q
  proof -
    have a: "owned w d [] q" "same_page (mem s) (mem w) q" "q \<noteq> p" using that sw by (auto simp: spares_def owned_def)
    then have b: "owned x d (rev gs) q" "same_page (mem w) (mem x) q" using x(3) that(2) by (simp_all add: released_to_def)
    then have c: "same_page (mem x) (mem y) q" "owned y d (p # rev gs) q" using y(3,4) a(3) by (simp_all add: owned_def)
    show ?thesis using same_page_trans [OF same_page_trans [OF a(2) b(2)] c(1)] c(2) by simp
  qed
  ultimately show ?thesis using y(2) by (auto simp: alloc_fail_def)
qed

lemma alloc_ok_step:
  assumes a: "alloc_ok r d w ps2 (E(n := entry (V2P p) (PTE_W OR PTE_U))) (Suc n) k newsz"
    and s: "spares d s (p # ps1) u ps1" "spares d u ps1 w ps2" and p: "owned u d ps1 p" "zero_page (mem u) p"
  shows "alloc_ok r d s (p # ps1) E n (Suc k) newsz"
proof -
  obtain t ps' fs where t: "r = Ok newsz t" "length fs = k" "distinct fs" "set fs \<subseteq> set ps2"
    "\<forall>q \<in> set fs. owned t d ps' q \<and> zero_page (mem t) q" "vm t d ps' (user_pages E n (p # fs))" "spares d w ps2 t ps'"
    using a unfolding alloc_ok_def user_pages_Cons by blast
  have sp: "spares d u ps1 t ps'" using spares_trans [OF s(2) t(7)] .
  then have "owned t d ps' p" "zero_page (mem t) p" using p by (auto simp: spares_def same_page_def zero_page_def)
  moreover have "p \<notin> set fs" "set ps2 \<subseteq> set ps1" using s(2) p(1) t(4) by (auto simp: spares_def owned_def)
  ultimately show ?thesis unfolding alloc_ok_def
    by - (rule exI [of _ t], rule exI [of _ ps'], rule exI [of _ "p # fs"], use t spares_trans [OF s(1) sp] in auto)
qed

lemma alloc_turn:
  assumes v: "vm s d (p # ps1) E" "maps_pages s d (p # ps1) E n0 gs" "n = n0 + length gs"
    and sz: "n0 = pages_upto oldsz" "n * PGSIZE < newsz" "newsz < KERNBASE" "oldsz \<le> newsz"
    and r: "\<forall>i \<ge> n. i * PGSIZE < newsz \<longrightarrow> E i = 0" and E': "E' = E(n := entry (V2P p) (PTE_W OR PTE_U))"
  shows "ps1 = [] \<and> alloc_fail (allocuvm_loop d oldsz newsz (n * PGSIZE) s) d s (p # ps1) E n0 gs \<or>
    (\<exists>u w ps2. allocuvm_loop d oldsz newsz (n * PGSIZE) s = allocuvm_loop d oldsz newsz (Suc n * PGSIZE) w \<and>
      vm w d ps2 E' \<and> maps_pages w d ps2 E' n0 (gs @ [p]) \<and> spares d s (p # ps1) u ps1 \<and> spares d u ps1 w ps2 \<and> kept d u ps1 w ps2 \<and>
      owned u d ps1 p \<and> zero_page (mem u) p \<and> tables (mem u) d = tables (mem s) d \<and> length ps1 \<le> Suc (length ps2))"
proof -
  have n20: "n < 1048576" "\<not> present (E n)" using sz r by (auto simp: layout_defs present_def)
  obtain t where t: "kalloc s = Ok p t" "p \<noteq> 0" and "let u = t\<lparr>mem := memset (mem t) p 0 PGSIZE\<rparr> in vm u d ps1 E \<and> owned u d ps1 p \<and>
    zero_page (mem u) p \<and> spares d s (p # ps1) u ps1 \<and> tables (mem u) d = tables (mem s) d"
    using alloc_zero [OF v(1)] by blast
  moreover define u where "u = t\<lparr>mem := memset (mem t) p 0 PGSIZE\<rparr>"
  ultimately have u: "vm u d ps1 E" "owned u d ps1 p" "zero_page (mem u) p" "spares d s (p # ps1) u ps1" "tables (mem u) d = tables (mem s) d"
    by (simp_all add: Let_def)
  have p: "ram_page p" "PTE_W OR PTE_U < PGSIZE" using u(2) by (auto simp: owned_def PTE_W_def PTE_U_def PGSIZE_def)
  note mp = mappages_single [OF n20(1)]
  from u(1) n20(1) ram_page_V2P(1,5) [OF p(1)] p(2) n20(2) show ?thesis
  proof (cases rule: map_page_cases [where rest = "ret 0"])
    case (1 w)
    have m: "mappages d (n * PGSIZE) PGSIZE (V2P p) (PTE_W OR PTE_U) u = Ok (-1) w" using 1(1) by (simp add: mp)
    have "alloc_fail (allocuvm_loop d oldsz newsz (n * PGSIZE) s) d s [p] E n0 gs"
      by (rule alloc_no_table [OF _ _ v(3) sz r t u_def _ _ u(5) m 1(2)]) (use v u 1(3-5) in simp_all)
    then show ?thesis using 1(4) by simp
  next
    case (2 w ps2)
    have loop: "allocuvm_loop d oldsz newsz (n * PGSIZE) s = allocuvm_loop d oldsz newsz (Suc n * PGSIZE) w"
      using sz(2) t 2(1) by (subst allocuvm_loop.simps) (simp add: exec_simps upd_mem_def add.commute mp flip: u_def)
    have sw: "spares d s (p # ps1) w ps2" using spares_trans [OF u(4) 2(3)] .
    have e: "present (E' (n0 + length gs))" "P2V (PTE_ADDR (E' (n0 + length gs))) = p"
      using entry_fields [OF ram_page_V2P(1,5) [OF p(1)] p(2)] ram_page_V2P(3) [OF p(1)] E' v(3) by simp_all
    have "good_page w p" using v(1) sw by (auto simp: vm_def freepages_def good_page_def bad_page_def spares_def)
    moreover have "maps_pages w d ps2 E' n0 gs" using maps_pages_spares [OF v(2) sw] v(3) E' by auto
    moreover have "owned w d ps2 p" "p \<notin> set gs" using 2(3) u(2) v(2) by (auto simp: spares_def maps_pages_def owned_def)
    ultimately have "maps_pages w d ps2 E' n0 (gs @ [p])" using e by (intro maps_pages_snoc)
    then show ?thesis using loop 2(2-5) u(2-5) E' by blast
  qed
qed

lemma allocuvm_loop_run:
  "vm s d ps E \<Longrightarrow> maps_pages s d ps E n0 gs \<Longrightarrow> n = n0 + length gs \<Longrightarrow> n0 = pages_upto oldsz \<Longrightarrow> newsz < KERNBASE \<Longrightarrow> oldsz \<le> newsz \<Longrightarrow>
   n + k = max n (pages_upto newsz) \<Longrightarrow> \<forall>i \<ge> n. i * PGSIZE < newsz \<longrightarrow> E i = 0 \<Longrightarrow>
   alloc_ok (allocuvm_loop d oldsz newsz (n * PGSIZE) s) d s ps E n k newsz \<or>
   length ps < 2 * k \<and> alloc_fail (allocuvm_loop d oldsz newsz (n * PGSIZE) s) d s ps E n0 gs"
proof (induction k arbitrary: n s ps E gs)
  case 0
  then have "\<not> n * PGSIZE < newsz" by (simp flip: pages_upto_less)
  then have "allocuvm_loop d oldsz newsz (n * PGSIZE) s = Ok newsz s" by (subst allocuvm_loop.simps) (simp add: exec_simps)
  moreover have "user_pages E n [] = E" by (auto simp: user_pages_def)
  ultimately show ?case using 0(1) spares_refl [of d s ps] by (auto simp: alloc_ok_def)
next
  case (Suc k)
  have n: "n * PGSIZE < newsz" using Suc.prems(7) by (simp flip: pages_upto_less)
  consider "ps = []" | p ps1 where "ps = p # ps1" by (cases ps) auto
  then show ?case
  proof cases
    case 1
    then show ?thesis using alloc_no_page [of s d E n0 gs n oldsz newsz] Suc.prems n by simp
  next
    case ps: 2
    let ?E = "E(n := entry (V2P p) (PTE_W OR PTE_U))" let ?r = "allocuvm_loop d oldsz newsz (n * PGSIZE) s"
    consider "ps1 = []" "alloc_fail ?r d s (p # ps1) E n0 gs"
      | u w ps2 where "?r = allocuvm_loop d oldsz newsz (Suc n * PGSIZE) w" "vm w d ps2 ?E" "maps_pages w d ps2 ?E n0 (gs @ [p])"
        "spares d s (p # ps1) u ps1" "spares d u ps1 w ps2" "kept d u ps1 w ps2" "owned u d ps1 p" "zero_page (mem u) p"
        "tables (mem u) d = tables (mem s) d" "length ps1 \<le> Suc (length ps2)"
      using alloc_turn [of s d p ps1 E n0 gs n oldsz newsz] Suc.prems n ps by blast
    then show ?thesis
    proof cases
      case 1
      then show ?thesis using ps by simp
    next
      case 2
      have "alloc_ok ?r d w ps2 ?E (Suc n) k newsz \<or> length ps2 < 2 * k \<and> alloc_fail ?r d w ps2 ?E n0 (gs @ [p])"
        unfolding 2(1) by (rule Suc.IH [OF 2(2,3)]) (use Suc.prems(3-8) in auto)
      moreover have "unmapped ?E n0 (length (gs @ [p])) = unmapped E n0 (length gs)"
        using Suc.prems(3,8) n by (auto simp: unmapped_def fun_eq_iff less_Suc_eq)
      then have "alloc_fail ?r d w ps2 ?E n0 (gs @ [p]) \<Longrightarrow> alloc_fail ?r d s ps E n0 gs"
        by (rule alloc_fail_pass [OF _ 2(6,5), rotated -1]) (use 2(4,9) ps in \<open>auto simp: spares_def owned_def\<close>)
      ultimately show ?thesis using alloc_ok_step [of ?r d w ps2 E n p k newsz s ps1 u] 2(4,5,7,8,10) ps by auto
    qed
  qed
qed

lemma allocuvm_run:
  assumes v: "vm s d ps E" and sz: "oldsz \<le> newsz" "newsz < KERNBASE" "n = pages_upto oldsz" "k = pages_upto newsz - n"
    and free: "KERNBASE < km_end s" "\<forall>i \<ge> n. i * PGSIZE < newsz \<longrightarrow> E i = 0"
  shows "alloc_ok (allocuvm d oldsz newsz s) d s ps E n k newsz \<or>
    length ps < 2 * k \<and> alloc_fail (allocuvm d oldsz newsz s) d s ps E n []"
proof -
  have "PGROUNDUP oldsz = n * PGSIZE" using sz by (simp add: PGROUNDUP_def pages_upto_def u32_def layout_defs)
  then have "allocuvm d oldsz newsz s = allocuvm_loop d oldsz newsz (n * PGSIZE) s" using sz(1,2) by (simp add: allocuvm_def)
  moreover have "n + k = max n (pages_upto newsz)" using sz(4) by (simp add: max_def)
  moreover have "maps_pages s d ps E n []" using free(1) by (simp add: maps_pages_def)
  ultimately show ?thesis using allocuvm_loop_run [OF v _ _ sz(3,2,1) _ free(2), of "[]" k] by simp
qed

text \<open>C5. \<open>allocuvm\<close> grows a process from \<open>oldsz\<close> to \<open>newsz\<close> bytes; a size that reaches into the kernel is refused. If it returns the
  new size, each new page of the process is a page of zeros out of the free list, writable for the user, no two of them are the same
  page, none is left on the free list or used as a page table, and the other entries of the address space stay as they are. If it
  returns 0, the address space is as before and no page is lost: a page that was free is free again or is a page table. It does so
  only when there are fewer than two free pages for each new page, one for the page and one for a page table. All other pages in
  use keep their content in either case.\<close>

theorem allocuvm_fresh:
  assumes v: "vm s d ps E" and sz: "oldsz \<le> newsz" "n = pages_upto oldsz" "k = pages_upto newsz - n"
    and free: "KERNBASE < km_end s" "\<forall>i \<ge> n. i * PGSIZE < newsz \<longrightarrow> E i = 0"
  shows "if KERNBASE \<le> newsz then allocuvm d oldsz newsz s = Ok 0 s else
    (\<exists>t ps' fs. allocuvm d oldsz newsz s = Ok newsz t \<and> length fs = k \<and> distinct fs \<and> set fs \<subseteq> set ps - set ps' \<and>
      (\<forall>q \<in> set fs. owned t d ps' q \<and> zero_page (mem t) q) \<and>
      vm t d ps' (\<lambda>i. if n \<le> i \<and> i < n + k then entry (V2P (fs ! (i - n))) (PTE_W OR PTE_U) else E i) \<and>
      (\<forall>q. owned s d ps q \<longrightarrow> owned t d ps' q \<and> same_page (mem s) (mem t) q)) \<or>
    length ps < 2 * k \<and> (\<exists>t ps'. allocuvm d oldsz newsz s = Ok 0 t \<and> vm t d ps' E \<and>
      set ps \<subseteq> set ps' \<union> tables (mem t) d \<and> (\<forall>q. owned s d ps q \<longrightarrow> owned t d ps' q \<and> same_page (mem s) (mem t) q))"
proof (cases "KERNBASE \<le> newsz")
  case True
  then show ?thesis by (simp add: allocuvm_def exec_simps)
next
  case False
  then consider "alloc_ok (allocuvm d oldsz newsz s) d s ps E n k newsz"
    | "length ps < 2 * k" "alloc_fail (allocuvm d oldsz newsz s) d s ps E n []"
    using allocuvm_run [OF v sz(1) _ sz(2,3) free] by (meson not_le)
  then show ?thesis
  proof cases
    case 1
    then obtain t ps' fs where t: "allocuvm d oldsz newsz s = Ok newsz t" "length fs = k" "distinct fs" "set fs \<subseteq> set ps"
      "\<forall>q \<in> set fs. owned t d ps' q \<and> zero_page (mem t) q" "vm t d ps' (user_pages E n fs)" "spares d s ps t ps'"
      unfolding alloc_ok_def by blast
    have "set fs \<subseteq> set ps - set ps'" using t(4,5) by (auto simp: owned_def)
    then show ?thesis using False t unfolding user_pages_def spares_def
      by (simp only: if_False) (rule disjI1, rule exI [of _ t], rule exI [of _ ps'], rule exI [of _ fs], simp)
  next
    case 2
    have "unmapped E n 0 = E" by (auto simp: unmapped_def)
    then show ?thesis using False 2 unfolding alloc_fail_def by auto
  qed
qed

section \<open>An empty page directory\<close>

text \<open>A directory without page tables at \<open>0x80101000\<close> and two free pages behind it.\<close>

lemma vm_kalloc1: "vm kalloc1 0x80101000 [0x80102000, 0x80103000] (\<lambda>_. 0)"
proof -
  let ?m = "wr32 (\<lambda>_. 0) 0x80102000 0x80103000"
  have r: "ram_page 0x80101000" "ram_page 0x80102000" by (simp_all add: ram_page_def layout_defs)
  have sp: "same_page (\<lambda>_. 0) ?m 0x80101000" using same_page_wr32 [OF r(2,1), of 0] by simp
  have z: "rd32 (\<lambda>_. 0) a = 0" for a by (simp add: rd32_def rd16_def)
  have "rd32 ?m (0x80101000 + 4 * i) = 0" if "i < 1024" for i
    using same_page_rd32 [OF sp that] z by simp
  then have no: "\<not> has_ptab ?m 0x80101000 i" for i by (auto simp: has_ptab_def NPDENTRIES_def present_def)
  have "pgdir_ok (mem kalloc1) 0x80101000 {0x80102000, 0x80103000}"
    using no r by (simp add: pgdir_ok_def tables_def kalloc1_def)
  moreover have "pte (mem kalloc1) 0x80101000 = (\<lambda>_. 0)" using no by (simp add: pte_def kalloc1_def fun_eq_iff)
  ultimately show ?thesis using kalloc1_freepages by (simp add: vm_def)
qed

theorem mappages_maps_witness: "\<exists>t. mappages 0x80101000 0x3000 4096 0x5000 6 kalloc1 = Ok 0 t \<and> pte (mem t) 0x80101000 3 = 0x5007"
proof -
  have "entry 0x5000 6 = 0x5007" by (simp add: entry_def PTE_P_def)
  then show ?thesis
    using mappages_maps [OF vm_kalloc1, of 4096 "0x3000" 3 0 "0x5000" 6]
    by (auto simp: PGSIZE_def present_def vm_def)
qed

text \<open>Growing the empty process to one page.\<close>

lemma pages_upto_small: "pages_upto 0 = 0" "pages_upto 100 = 1"
  by (simp_all add: pages_upto_def PGSIZE_def)

lemma km_end_kalloc1: "KERNBASE < km_end kalloc1"
  by (simp add: kalloc1_def kalloc0_def)

theorem allocuvm_fresh_witness:
  "\<exists>t q. allocuvm 0x80101000 0 100 kalloc1 = Ok 100 t \<and> pte (mem t) 0x80101000 0 = entry (V2P q) 6 \<and> zero_page (mem t) q"
proof -
  have "PTE_W OR PTE_U = 6" by (simp add: PTE_W_def PTE_U_def)
  then obtain t ps' fs where "allocuvm 0x80101000 0 100 kalloc1 = Ok 100 t" "length fs = 1" "\<forall>q \<in> set fs. zero_page (mem t) q"
    "vm t 0x80101000 ps' (\<lambda>i. if i < 1 then entry (V2P (fs ! i)) 6 else 0)"
    using allocuvm_fresh [OF vm_kalloc1, of 0 100 0 1] km_end_kalloc1 pages_upto_small by (simp add: KERNBASE_def cong: if_cong) blast
  then show ?thesis by (auto simp: vm_def)
qed

text \<open>The page that \<open>allocuvm\<close> maps in the directory above, given back.\<close>

theorem deallocuvm_frees_witness:
  "\<exists>t u ps. allocuvm 0x80101000 0 100 kalloc1 = Ok 100 t \<and> deallocuvm 0x80101000 100 0 t = Ok 0 u \<and> freepages u ps \<and> ps \<noteq> []"
proof -
  have "alloc_ok (allocuvm 0x80101000 0 100 kalloc1) 0x80101000 kalloc1 [0x80102000, 0x80103000] (\<lambda>_. 0) 0 1 100"
    using allocuvm_run [OF vm_kalloc1, of 0 100 0 1] km_end_kalloc1 pages_upto_small by (simp add: KERNBASE_def)
  then obtain t ps fs where t: "allocuvm 0x80101000 0 100 kalloc1 = Ok 100 t" "length fs = 1" "distinct fs" "set fs \<subseteq> {0x80102000, 0x80103000}"
    "\<forall>q \<in> set fs. owned t 0x80101000 ps q \<and> zero_page (mem t) q"
    "vm t 0x80101000 ps (user_pages (\<lambda>_. 0) 0 fs)" "spares 0x80101000 kalloc1 [0x80102000, 0x80103000] t ps"
    unfolding alloc_ok_def by auto
  then have km: "km_end t = km_end kalloc1" by (simp add: spares_def)
  have gp: "good_page t q" if "q \<in> set fs" for q
    using that t(4) vm_kalloc1 km by (auto simp: vm_def freepages_def good_page_def bad_page_def)
  note g = gp good_page_ram [OF gp]
  have f0: "fs ! 0 \<in> set fs" using t(2) by simp
  have w: "PTE_W OR PTE_U < PGSIZE" by (simp add: PTE_W_def PTE_U_def PGSIZE_def)
  note e = entry_fields [OF ram_page_V2P(1,5) [OF g(2) [OF f0]] w]
  have "maps_pages t 0x80101000 ps (user_pages (\<lambda>_. 0) 0 fs) 0 fs"
    using t g e ram_page_V2P(3) [OF g(2) [OF f0]] km_end_kalloc1 by (simp add: maps_pages_def user_pages_def km)
  then obtain u where "deallocuvm 0x80101000 100 0 t = Ok 0 u" "vm u 0x80101000 (rev fs @ ps) (\<lambda>i. if i < 1 then 0 else user_pages (\<lambda>_. 0) 0 fs i)"
    using deallocuvm_frees [OF t(6), of 0 fs 0 100] t(2) pages_upto_small by (auto simp: KERNBASE_def)
  then show ?thesis using t(1,2) by (auto simp: vm_def)
qed

end
