(* ===== verification/Sleeping.thy ===== *)
theory Sleeping
  imports Sched
begin

text \<open>
  \<open>sleep\<close> among the steps of other processors. A process of processor \<open>c0\<close> executes the statements of \<open>sleep\<close> one by one; between
  any two of them other processors acquire and release locks, call \<open>wakeup1\<close> under the table lock, and do whatever else the locking
  rules allow. A processor that finds a lock taken spins: it takes its step when the lock is free. The theorem is that a wakeup cannot fall
  between the release of the caller's lock and the moment the process is asleep.
\<close>

section \<open>The steps\<close>

text \<open>The statement of \<open>sleep\<close> that the process executes next, or that it has left its processor.\<close>

datatype phase = At nat | Gone

type_synonym 'z sleep_sys = "phase \<times> 'z ptable_st_scheme"

text \<open>
  What else a processor \<open>c\<close> may do in one step: anything that leaves the locks, the other processors and the state and channel of \<open>p\<close>
  as they are, keeps the scheduling invariant, and touches the process table only with its lock.
\<close>

definition interferes :: "nat \<Rightarrow> nat \<Rightarrow> 'z ptable_st_scheme \<Rightarrow> 'z ptable_st_scheme \<Rightarrow> bool" where
  "interferes c p s t \<longleftrightarrow> locks t = locks s \<and> length (cpus t) = length (cpus s) \<and> (\<forall>d. d \<noteq> c \<longrightarrow> cpus t ! d = cpus s ! d) \<and>
     sched_inv t \<and> (l_cpu (locks s LPtable) \<noteq> Some c \<longrightarrow> procs t = procs s \<and> queue t = queue s) \<and>
     p_state (procs t ! p) = p_state (procs s ! p) \<and> p_chan (procs t ! p) = p_chan (procs s ! p)"

inductive sleep_step :: "chan option \<Rightarrow> lockid \<Rightarrow> nat \<Rightarrow> nat \<Rightarrow> 'z sleep_sys \<Rightarrow> 'z sleep_sys \<Rightarrow> bool"
  for ch :: "chan option" and lk :: lockid and c0 p :: nat where
  own: "k < length (sleep_steps ch lk :: ('z ptable_st_scheme, unit) cmd list) \<Longrightarrow>
    (sleep_steps ch lk ! k) (s\<lparr>cur := c0\<rparr>) = Ok () t \<Longrightarrow> sleep_step ch lk c0 p (At k, s) (At (Suc k), t)"
| switch: "k < length (sleep_steps ch lk :: ('z ptable_st_scheme, unit) cmd list) \<Longrightarrow>
    (sleep_steps ch lk ! k) (s\<lparr>cur := c0\<rparr>) = Stop Switch t \<Longrightarrow> sleep_step ch lk c0 p (At k, s) (Gone, t)"
| acq: "c \<noteq> c0 \<or> ph = Gone \<Longrightarrow> c < length (cpus s) \<Longrightarrow> acquire l (s\<lparr>cur := c\<rparr>) = Ok () t \<Longrightarrow>
    sleep_step ch lk c0 p (ph, s) (ph, t)"
| rel: "c \<noteq> c0 \<or> ph = Gone \<Longrightarrow> c < length (cpus s) \<Longrightarrow> release l (s\<lparr>cur := c\<rparr>) = Ok () t \<Longrightarrow>
    sleep_step ch lk c0 p (ph, s) (ph, t)"
| wake: "c \<noteq> c0 \<or> ph = Gone \<Longrightarrow> holding LPtable (s\<lparr>cur := c\<rparr>) \<Longrightarrow> wakeup1 ch' (s\<lparr>cur := c\<rparr>) = Ok () t \<Longrightarrow>
    sleep_step ch lk c0 p (ph, s) (ph, t)"
| other: "c \<noteq> c0 \<or> ph = Gone \<Longrightarrow> interferes c p s t \<Longrightarrow> sleep_step ch lk c0 p (ph, s) (ph, t)"

text \<open>A process that may call \<open>sleep\<close>: it runs and holds \<open>lk\<close> and no other lock; a lock with an owner is taken.\<close>

definition owners_ok :: "'z mach_scheme \<Rightarrow> bool" where
  "owners_ok s \<longleftrightarrow> (\<forall>l. l_cpu (locks s l) \<noteq> None \<longrightarrow> l_locked (locks s l) \<noteq> 0)"

definition may_sleep :: "lockid \<Rightarrow> nat \<Rightarrow> 'z ptable_st_scheme \<Rightarrow> bool" where
  "may_sleep lk p s \<longleftrightarrow> sched_inv s \<and> lock_ready LPtable s \<and> on_cpu s p \<and> holding lk s \<and> lk \<noteq> LPtable \<and>
     c_ncli (the_cpu s) = 1 \<and> owners_ok s"

definition sleep_from :: "lockid \<Rightarrow> nat \<Rightarrow> 'z ptable_st_scheme \<Rightarrow> 'z sleep_sys \<Rightarrow> bool" where
  "sleep_from lk p s0 x \<longleftrightarrow> x = (At 0, s0) \<and> may_sleep lk p s0"

section \<open>The invariant\<close>

definition sleep_phase :: "chan option \<Rightarrow> lockid \<Rightarrow> nat \<Rightarrow> nat \<Rightarrow> 'z sleep_sys \<Rightarrow> bool" where
  "sleep_phase ch lk c0 p = (\<lambda>(ph, s). case ph of
     At k \<Rightarrow> k \<le> 4 \<and> c_proc (cpus s ! c0) = Some p \<and> (k \<le> 1 \<longrightarrow> l_cpu (locks s lk) = Some c0) \<and>
       (1 \<le> k \<longrightarrow> l_cpu (locks s LPtable) = Some c0) \<and> p_state (procs s ! p) = (if k \<le> 3 then RUNNING else SLEEPING) \<and>
       (3 \<le> k \<longrightarrow> p_chan (procs s ! p) = ch)
   | Gone \<Rightarrow> p_chan (procs s ! p) = ch \<and> p_state (procs s ! p) \<in> {SLEEPING, RUNNABLE})"

definition sleep_inv :: "chan option \<Rightarrow> lockid \<Rightarrow> nat \<Rightarrow> nat \<Rightarrow> 'z sleep_sys \<Rightarrow> bool" where
  "sleep_inv ch lk c0 p x \<longleftrightarrow> sched_inv (snd x) \<and> owners_ok (snd x) \<and> c0 < length (cpus (snd x)) \<and> p < NPROC \<and> lk \<noteq> LPtable \<and>
     sleep_phase ch lk c0 p x"

lemma release_Ok_cases:
  assumes "release l s = Ok () t" "cur s < length (cpus s)"
  shows "holding l s \<and> t = released l s"
proof -
  have h: "holding l s" using assms(1) by (cases "holding l s") (simp_all add: release_Panic)
  moreover have "\<not> c_if (the_cpu s) \<and> 0 < c_ncli (the_cpu s)"
    using assms h by (auto simp: release_def popcli_def exec_simps upd_lock_def upd_cpu_def the_cpu_def split: if_splits)
  ultimately show ?thesis using assms release_Ok [of s l] by simp
qed

lemma owners_acquired: "owners_ok s \<Longrightarrow> owners_ok (acquired l s)"
  and owners_released: "owners_ok s \<Longrightarrow> owners_ok (released l s)"
  by (simp_all add: owners_ok_def acquired_def released_def)

lemma cur_frame [simp]: "owners_ok (s\<lparr>cur := c\<rparr>) = owners_ok s" "the_cpu (s\<lparr>cur := c\<rparr>) = cpus s ! c"
  "holding l (s\<lparr>cur := c\<rparr>) \<longleftrightarrow> l_locked (locks s l) \<noteq> 0 \<and> l_cpu (locks s l) = Some c"
  by (simp_all add: owners_ok_def the_cpu_def holding_def)

text \<open>The effect of taking and giving back a lock on what the invariant speaks of.\<close>

lemma acquired_parts:
  "l_cpu (locks (acquired l s) m) = (if m = l then Some (cur s) else l_cpu (locks s m))"
  "c < length (cpus s) \<Longrightarrow> c_proc (cpus (acquired l s) ! c) = c_proc (cpus s ! c)"
  "length (cpus (acquired l s)) = length (cpus s)"
  by (auto simp: acquired_def the_cpu_def nth_list_update')

lemma released_parts:
  "l_cpu (locks (released l s) m) = (if m = l then None else l_cpu (locks s m))"
  "c < length (cpus s) \<Longrightarrow> c_proc (cpus (released l s) ! c) = c_proc (cpus s ! c)"
  "length (cpus (released l s)) = length (cpus s)" "procs (released l s) = procs s"
  by (auto simp: released_def the_cpu_def nth_list_update')

lemma sleep_steps_nth:
  assumes "lk \<noteq> LPtable"
  shows "sleep_steps ch lk ! 0 = acquire LPtable" "sleep_steps ch lk ! Suc 0 = release lk"
    "sleep_steps ch lk ! 2 = with_proc (\<lambda>p. upd_proc p (\<lambda>x. x\<lparr>p_chan := ch\<rparr>))"
    "sleep_steps ch lk ! 3 = with_proc (\<lambda>p. upd_proc p (\<lambda>x. x\<lparr>p_state := SLEEPING\<rparr>))"
    "sleep_steps ch lk ! 4 = sched" "length (sleep_steps ch lk) = 5"
  using assms by (simp_all add: sleep_steps_def numeral_2_eq_2 numeral_3_eq_3 numeral_nat)

lemma sched_outcomes: "sched s \<noteq> Ok () t" "sched s = Stop Switch t \<Longrightarrow> t = s"
  by (auto simp: sched_def with_proc_def exec_simps split: if_splits option.splits)

text \<open>Only \<open>sched\<close> gives the processor up.\<close>

lemma sleep_steps_switch:
  assumes "lk \<noteq> LPtable" "k < 5" "(sleep_steps ch lk ! k) s = Stop Switch t"
  shows "k = 4 \<and> t = s"
proof -
  have n: "acquire l u \<noteq> Stop Switch v" "release l u \<noteq> Stop Switch v" for l and u v :: "'a ptable_st_scheme"
    by (auto simp: acquire_def release_def pushcli_def popcli_def cli_def sti_def xchg_loop_def exec_simps upd_cpu_def upd_lock_def
        split: if_splits)
  consider "k = 0" | "k = Suc 0" | "k = 2" | "k = 3" | "k = 4" using assms(2) by linarith
  then show ?thesis using assms(3) n sched_outcomes(2)
    by cases (auto simp: sleep_steps_nth [OF assms(1)] with_proc_def upd_proc_def exec_simps split: option.splits)
qed

lemma phase_frame:
  assumes "sleep_phase ch lk c0 p (ph, s)" "p_state (procs t ! p) = p_state (procs s ! p)" "p_chan (procs t ! p) = p_chan (procs s ! p)"
    and "ph = Gone \<or> c_proc (cpus t ! c0) = c_proc (cpus s ! c0) \<and> (\<forall>l. l_cpu (locks s l) = Some c0 \<longrightarrow> l_cpu (locks t l) = Some c0)"
  shows "sleep_phase ch lk c0 p (ph, t)"
  using assms by (cases ph) (auto simp: sleep_phase_def)

lemma sleep_invD:
  assumes "sleep_inv ch lk c0 p (ph, s)"
  shows "sleep_phase ch lk c0 p (ph, s)" "c0 < length (cpus s)"
  using assms by (simp_all add: sleep_inv_def)

text \<open>The process takes a step of its own.\<close>

lemma own_acquire:
  assumes i: "sleep_inv ch lk c0 p (At 0, s)" and t: "acquire LPtable (s\<lparr>cur := c0\<rparr>) = Ok () t"
  shows "sleep_inv ch lk c0 p (At 1, t)"
proof -
  have "t = acquired LPtable (s\<lparr>cur := c0\<rparr>)" using acquire_Ok_cases [OF t] i by (simp add: sleep_inv_def)
  then show ?thesis using i by (simp add: sleep_inv_def sleep_phase_def owners_acquired acquired_parts)
qed

lemma own_release:
  assumes i: "sleep_inv ch lk c0 p (At 1, s)" and t: "release lk (s\<lparr>cur := c0\<rparr>) = Ok () t"
  shows "sleep_inv ch lk c0 p (At 2, t)"
proof -
  have "t = released lk (s\<lparr>cur := c0\<rparr>)" using release_Ok_cases [OF t] i by (simp add: sleep_inv_def)
  then show ?thesis using i by (auto simp: sleep_inv_def sleep_phase_def owners_released released_parts)
qed

lemma own_chan:
  assumes i: "sleep_inv ch lk c0 p (At 2, s)"
    and t: "with_proc (\<lambda>p. upd_proc p (\<lambda>x. x\<lparr>p_chan := ch\<rparr>)) (s\<lparr>cur := c0\<rparr>) = Ok () t"
  shows "sleep_inv ch lk c0 p (At 3, t)"
proof -
  have "p < length (procs s)" "c_proc (cpus s ! c0) = Some p" using i
    by (auto simp: sleep_inv_def sleep_phase_def sched_inv_except_def q_ok_def)
  moreover from this have "t = s\<lparr>cur := c0, procs := (procs s)[p := (procs s ! p)\<lparr>p_chan := ch\<rparr>]\<rparr>"
    using t by (simp add: with_proc_def upd_proc_def exec_simps)
  moreover have "sched_inv (s\<lparr>cur := c0, procs := (procs s)[p := (procs s ! p)\<lparr>p_chan := ch\<rparr>]\<rparr>)"
    using sched_inv_upd_proc [of "{}" "s\<lparr>cur := c0\<rparr>" "\<lambda>x. x\<lparr>p_chan := ch\<rparr>" p] i by (simp add: sleep_inv_def)
  ultimately show ?thesis using i by (simp add: sleep_inv_def sleep_phase_def owners_ok_def)
qed

lemma own_state:
  assumes i: "sleep_inv ch lk c0 p (At 3, s)"
    and t: "with_proc (\<lambda>p. upd_proc p (\<lambda>x. x\<lparr>p_state := SLEEPING\<rparr>)) (s\<lparr>cur := c0\<rparr>) = Ok () t"
  shows "sleep_inv ch lk c0 p (At 4, t)"
proof -
  have p: "p < length (procs s)" "c_proc (cpus s ! c0) = Some p" "p_state (procs s ! p) = RUNNING" using i
    by (auto simp: sleep_inv_def sleep_phase_def sched_inv_except_def q_ok_def)
  moreover from this have "t = s\<lparr>cur := c0, procs := (procs s)[p := (procs s ! p)\<lparr>p_state := SLEEPING\<rparr>]\<rparr>"
    using t by (simp add: with_proc_def upd_proc_def exec_simps)
  moreover have "sched_inv (s\<lparr>cur := c0, procs := (procs s)[p := (procs s ! p)\<lparr>p_state := SLEEPING\<rparr>]\<rparr>)"
    using sched_inv_set_state [of "{}" "s\<lparr>cur := c0\<rparr>" p SLEEPING "{}"] i p by (simp add: sleep_inv_def)
  ultimately show ?thesis using i by (simp add: sleep_inv_def sleep_phase_def owners_ok_def)
qed

lemma own_inv:
  assumes i: "sleep_inv ch lk c0 p (At k, s)" and k: "k < length (sleep_steps ch lk :: ('z ptable_st_scheme, unit) cmd list)"
    and t: "(sleep_steps ch lk ! k) (s\<lparr>cur := c0\<rparr>) = Ok () (t :: 'z ptable_st_scheme)"
  shows "sleep_inv ch lk c0 p (At (Suc k), t)"
proof -
  have lk: "lk \<noteq> LPtable" using i by (simp add: sleep_inv_def)
  note n = sleep_steps_nth [OF lk, of ch]
  have "k < 5" using k by (simp add: n(6))
  then consider "k = 0" | "k = Suc 0" | "k = 2" | "k = 3" | "k = 4" by linarith
  then show ?thesis
  proof cases
    case 1 then show ?thesis using own_acquire i t by (simp add: n)
  next
    case 2 then show ?thesis using own_release i t by (simp add: n numeral_2_eq_2)
  next
    case 3 then show ?thesis using own_chan [of ch lk c0 p s t] i t by (simp add: n)
  next
    case 4 then show ?thesis using own_state [of ch lk c0 p s t] i t by (simp add: n)
  next
    case 5 then show ?thesis using t by (simp add: n sched_outcomes(1))
  qed
qed

text \<open>The steps of the other processors do not interfere.\<close>

lemma acq_inv:
  assumes i: "sleep_inv ch lk c0 p (ph, s)" and c: "c \<noteq> c0 \<or> ph = Gone" "c < length (cpus s)"
    and t: "acquire l (s\<lparr>cur := c\<rparr>) = Ok () t"
  shows "sleep_inv ch lk c0 p (ph, t)"
proof -
  have e: "l_locked (locks s l) = 0" "t = acquired l (s\<lparr>cur := c\<rparr>)" using acquire_Ok_cases [OF t] c by auto
  then have "l_cpu (locks s l) = None" using i by (auto simp: sleep_inv_def owners_ok_def)
  then have "sleep_phase ch lk c0 p (ph, t)" unfolding e(2) using sleep_invD [OF i]
    by (intro phase_frame [OF sleep_invD(1) [OF i]]) (simp_all add: acquired_parts)
  then show ?thesis using i e by (simp add: sleep_inv_def owners_acquired acquired_parts)
qed

lemma rel_inv:
  assumes i: "sleep_inv ch lk c0 p (ph, s)" and c: "c \<noteq> c0 \<or> ph = Gone" "c < length (cpus s)"
    and t: "release l (s\<lparr>cur := c\<rparr>) = Ok () t"
  shows "sleep_inv ch lk c0 p (ph, t)"
proof -
  have e: "l_cpu (locks s l) = Some c" "t = released l (s\<lparr>cur := c\<rparr>)" using release_Ok_cases [OF t] c by auto
  then have "sleep_phase ch lk c0 p (ph, t)" unfolding e(2) using c sleep_invD [OF i]
    by (intro phase_frame [OF sleep_invD(1) [OF i]]) (auto simp: released_parts)
  then show ?thesis using i e by (simp add: sleep_inv_def owners_released released_parts)
qed

lemma wake_inv:
  assumes i: "sleep_inv ch lk c0 p (ph, s)" and c: "c \<noteq> c0 \<or> ph = Gone" "holding LPtable (s\<lparr>cur := c\<rparr>)"
    and t: "wakeup1 ch' (s\<lparr>cur := c\<rparr>) = Ok () t"
  shows "sleep_inv ch lk c0 p (ph, t)"
proof -
  have "sched_inv (s\<lparr>cur := c\<rparr>)" using i by (simp add: sleep_inv_def)
  from wakeup1_run [OF this, of ch'] t have w: "sched_inv t" "procs t = map (woken ch') (procs s)" "cpus t = cpus s" "locks t = locks s"
    by auto
  have p: "p < length (procs s)" using i by (auto simp: sleep_inv_def sched_inv_except_def q_ok_def)
  have "sleep_phase ch lk c0 p (ph, t)" using sleep_invD(1) [OF i] c p unfolding sleep_phase_def prod.case w(2-4)
    by (cases ph) (auto simp: woken_def)
  then show ?thesis using i w by (simp add: sleep_inv_def owners_ok_def)
qed

lemma other_inv:
  assumes i: "sleep_inv ch lk c0 p (ph, s)" and c: "c \<noteq> c0 \<or> ph = Gone" "interferes c p s t"
  shows "sleep_inv ch lk c0 p (ph, t)"
proof -
  have "sleep_phase ch lk c0 p (ph, t)" using c
    by (intro phase_frame [OF sleep_invD(1) [OF i]]) (auto simp: interferes_def)
  then show ?thesis using i c(2) by (simp add: sleep_inv_def interferes_def owners_ok_def)
qed

interpretation sleeper: inductive_invariant "sleep_from lk p s0" "sleep_step ch lk (cur s0) p" "sleep_inv ch lk (cur s0) p"
  for ch lk p s0
proof
  fix x assume "sleep_from lk p s0 x"
  then have x: "x = (At 0, s0)" "may_sleep lk p s0" by (simp_all add: sleep_from_def)
  then show "sleep_inv ch lk (cur s0) p x"
    by (auto simp: may_sleep_def on_cpu_def sleep_inv_def sleep_phase_def holding_def the_cpu_def)
next
  fix x y assume i: "sleep_inv ch lk (cur s0) p x" and "sleep_step ch lk (cur s0) p x y"
  from this(2) show "sleep_inv ch lk (cur s0) p y"
  proof cases
    case (switch k s t)
    have lk: "lk \<noteq> LPtable" using i by (simp add: sleep_inv_def)
    have "k < 5" using switch(3) by (simp add: sleep_steps_nth(6) [OF lk])
    then have "k = 4" "t = s\<lparr>cur := cur s0\<rparr>" using sleep_steps_switch [OF lk _ switch(4)] by auto
    then show ?thesis using i switch by (simp add: sleep_inv_def sleep_phase_def)
  next
    case (own k s t)
    then show ?thesis using own_inv [OF i [unfolded own(1)] own(3,4)] by simp
  next
    case (acq c ph s l t)
    then show ?thesis using acq_inv [OF i [unfolded acq(1)] acq(3-5)] by simp
  next
    case (rel c ph s l t)
    then show ?thesis using rel_inv [OF i [unfolded rel(1)] rel(3-5)] by simp
  next
    case (wake c ph s ch' t)
    then show ?thesis using wake_inv [OF i [unfolded wake(1)] wake(3-5)] by simp
  next
    case (other c ph s t)
    then show ?thesis using other_inv [OF i [unfolded other(1)] other(3,4)] by simp
  qed
qed

section \<open>No lost wakeup\<close>

lemma reach_some_init: "reach ini step x \<Longrightarrow> \<exists>y. ini y"
  by (induction rule: reach.induct) auto

lemma sleep_inv_wakes:
  assumes i: "sleep_inv ch lk c0 p (ph, s)" and g: "ph = Gone \<or> l_cpu (locks s lk) \<noteq> Some c0"
    and c: "c \<noteq> c0 \<or> ph = Gone" "holding LPtable (s\<lparr>cur := c\<rparr>)"
  shows "\<exists>t. wakeup1 ch (s\<lparr>cur := c\<rparr>) = Ok () t \<and> p_state (procs t ! p) = RUNNABLE \<and> queued t p"
proof -
  have "sched_inv (s\<lparr>cur := c\<rparr>)" using i by (simp add: sleep_inv_def)
  from wakeup1_run [OF this, of ch] obtain t where t: "wakeup1 ch (s\<lparr>cur := c\<rparr>) = Ok () t" "sched_inv t"
    "procs t = map (woken ch) (procs s)" by auto
  have p: "p < NPROC" "p < length (procs s)" using i by (auto simp: sleep_inv_def sched_inv_except_def q_ok_def)
  have "ph = Gone" using sleep_invD(1) [OF i] g c by (cases ph) (auto simp: sleep_phase_def)
  then have "p_state (procs t ! p) = RUNNABLE" using sleep_invD(1) [OF i] t(3) p by (auto simp: sleep_phase_def woken_def)
  then show ?thesis using t p by (auto simp: sched_inv_except_def no_lost_def)
qed

text \<open>
  C8. No lost wakeup. A running process \<open>p\<close> that holds \<open>lk\<close> calls \<open>sleep(chan, lk)\<close>, and the other processors take steps between
  its statements. It gives \<open>lk\<close> up only while it holds the process table lock, which it keeps until it is asleep and off its
  processor. So from the moment \<open>lk\<close> is free, whoever gets the table lock and calls \<open>wakeup1(chan)\<close> leaves \<open>p\<close> runnable and in the run
  queue. Left alone, \<open>sleep\<close> does get there: it ends in the switch to the scheduler, with \<open>p\<close> asleep on \<open>chan\<close> and \<open>lk\<close> released.
\<close>

theorem sleep_no_lost_wakeup:
  assumes r: "reach (sleep_from lk p s0) (sleep_step ch lk (cur s0) p) (ph, s)"
  shows "(ph \<noteq> Gone \<and> l_cpu (locks s lk) \<noteq> Some (cur s0) \<longrightarrow> l_cpu (locks s LPtable) = Some (cur s0)) \<and>
    (ph = Gone \<or> l_cpu (locks s lk) \<noteq> Some (cur s0) \<longrightarrow> (\<forall>c. (c \<noteq> cur s0 \<or> ph = Gone) \<and> holding LPtable (s\<lparr>cur := c\<rparr>) \<longrightarrow>
      (\<exists>t. wakeup1 ch (s\<lparr>cur := c\<rparr>) = Ok () t \<and> p_state (procs t ! p) = RUNNABLE \<and> queued t p))) \<and>
    (\<exists>t. sleep ch (Some lk) s0 = Stop Switch t \<and> holding LPtable t \<and> l_locked (locks t lk) = 0 \<and>
      procs t = (procs s0)[p := (procs s0 ! p)\<lparr>p_chan := ch, p_state := SLEEPING\<rparr>])"
proof -
  note i = sleeper.reach_inv [OF r]
  have "ph \<noteq> Gone \<and> l_cpu (locks s lk) \<noteq> Some (cur s0) \<longrightarrow> l_cpu (locks s LPtable) = Some (cur s0)"
    using sleep_invD(1) [OF i] by (cases ph) (auto simp: sleep_phase_def)
  moreover have "may_sleep lk p s0" using reach_some_init [OF r] by (auto simp: sleep_from_def)
  then have "\<exists>t. sleep ch (Some lk) s0 = Stop Switch t \<and> holding LPtable t \<and> l_locked (locks t lk) = 0 \<and>
      procs t = (procs s0)[p := (procs s0 ! p)\<lparr>p_chan := ch, p_state := SLEEPING\<rparr>]"
    using sleep_run [of s0 p lk ch] by (auto simp: may_sleep_def)
  ultimately show ?thesis using sleep_inv_wakes [OF i] by blast
qed

text \<open>The witness: process 1 sleeps on the clock, its processor goes back to the scheduler, which releases the table lock, and processor 1 takes it.\<close>

lemma cur_self: "cur s = c \<Longrightarrow> s\<lparr>cur := c\<rparr> = s" for s :: "'z mach_scheme"
  by simp

lemma sleep_alone:
  fixes s0 :: "'z ptable_st_scheme" and ch :: "chan option"
  assumes m: "may_sleep lk p s0"
  defines "r \<equiv> released lk (acquired LPtable s0)"
  defines "t \<equiv> r\<lparr>procs := (procs s0)[p := (procs s0 ! p)\<lparr>p_chan := ch, p_state := SLEEPING\<rparr>]\<rparr>"
  shows "reach (sleep_from lk p s0) (sleep_step ch lk (cur s0) p) (Gone, t)" "release LPtable t = Ok () (released LPtable t)"
proof -
  let ?reach = "reach (sleep_from lk p s0) (sleep_step ch lk (cur s0) p)" let ?a = "acquired LPtable s0"
  let ?c = "r\<lparr>procs := (procs s0)[p := (procs s0 ! p)\<lparr>p_chan := ch\<rparr>]\<rparr>"
  have s: "sched_inv s0" "lock_ready LPtable s0" "on_cpu s0 p" "holding lk s0" "lk \<noteq> LPtable" "c_ncli (the_cpu s0) = 1"
    using m by (simp_all add: may_sleep_def)
  then have p: "p < length (procs s0)" "c_proc (the_cpu s0) = Some p" and cur: "cur s0 < length (cpus s0)"
    by (auto simp: on_cpu_def sched_inv_except_def q_ok_def)
  note n = sleep_steps_nth [OF s(5), of ch]
  note a = acquired_cpu [OF cur, of LPtable]
  have h: "holding lk ?a" using s by (simp add: holding_def acquired_def)
  have rel: "release lk ?a = Ok () r" unfolding r_def using h a cur s by (intro release_Ok) simp_all
  have r: "the_cpu r = (the_cpu ?a)\<lparr>c_ncli := 1, c_if := False\<rparr>" "holding LPtable r" "cur r = cur s0" "procs r = procs s0"
    "cur r < length (cpus r)"
    using a cur s by (auto simp: r_def released_def the_cpu_def holding_def)
  have "?reach (At 0, s0)" using m by (intro reach_init) (simp add: sleep_from_def)
  moreover have "sleep_step ch lk (cur s0) p (At 0, s0) (At (Suc 0), ?a)"
    by (rule sleep_step.own) (simp_all add: n acquire_ready [OF s(2)])
  moreover have "sleep_step ch lk (cur s0) p (At (Suc 0), ?a) (At (Suc (Suc 0)), r)"
    by (rule sleep_step.own) (simp_all add: n cur_self rel)
  moreover have "sleep_step ch lk (cur s0) p (At 2, r) (At (Suc 2), ?c)"
    by (rule sleep_step.own) (use r p a in \<open>simp_all add: n cur_self with_proc_def upd_proc_def exec_simps\<close>)
  moreover have "sleep_step ch lk (cur s0) p (At 3, ?c) (At (Suc 3), t)"
    by (rule sleep_step.own) (use r p a in \<open>simp_all add: n cur_self with_proc_def upd_proc_def exec_simps t_def\<close>)
  moreover have "sched t = Stop Switch t" using r a p by (intro sched_switch [of _ p]) (simp_all add: t_def)
  then have "sleep_step ch lk (cur s0) p (At 4, t) (Gone, t)"
    by (intro sleep_step.switch) (use r in \<open>simp_all add: n cur_self t_def\<close>)
  ultimately show "?reach (Gone, t)" unfolding numeral_2_eq_2 numeral_3_eq_3 numeral_nat by (meson reach_step)
  show "release LPtable t = Ok () (released LPtable t)" using r by (intro release_Ok) (simp_all add: t_def)
qed

theorem sleep_no_lost_wakeup_witness:
  "\<exists>s t. reach (sleep_from LTicks 1 (acquired LTicks busy0)) (sleep_step (Some ChTicks) LTicks 0 1) (Gone, s) \<and>
    l_cpu (locks s LPtable) = Some 1 \<and> wakeup1 (Some ChTicks) (s\<lparr>cur := 1\<rparr>) = Ok () t \<and> p_state (procs t ! 1) = RUNNABLE"
proof -
  let ?s = "acquired LTicks busy0"
  have b: "cur busy0 = 0" "length (cpus busy0) = 2" "\<And>l. l_cpu (locks busy0 l) = None \<and> l_locked (locks busy0 l) = 0"
    by (simp_all add: busy0_def ptable0_def mach0_def lock0_def)
  note a = acquired_cpu [of busy0 LTicks]
  have "lock_ready LPtable ?s" using busy0_ready a b by (simp add: lock_ready_def) (simp add: acquired_def)
  moreover have "on_cpu ?s 1" using busy0_ready(3) a b by (simp add: on_cpu_def)
  moreover have "owners_ok ?s" using b by (intro owners_acquired) (simp add: owners_ok_def)
  ultimately have m: "may_sleep LTicks 1 ?s" using sched_inv_busy0 a b busy0_ready(2) by (simp add: may_sleep_def)
  let ?reach = "reach (sleep_from LTicks 1 ?s) (sleep_step (Some ChTicks) LTicks 0 1)"
  obtain t where t: "?reach (Gone, t)" "release LPtable t = Ok () (released LPtable t)" "cur t = 0" "length (cpus t) = 2"
    using sleep_alone [OF m, of "Some ChTicks"] b by (auto simp: released_parts acquired_parts)
  let ?u = "released LPtable t" let ?v = "acquired LPtable (?u\<lparr>cur := 1\<rparr>)"
  have "sleep_step (Some ChTicks) LTicks 0 1 (Gone, t) (Gone, ?u)"
    using t by (intro sleep_step.rel [of 0]) (simp_all add: cur_self)
  moreover have "acquire LPtable (?u\<lparr>cur := 1\<rparr>) = Ok () ?v" using t by (intro acquire_Ok) (simp_all add: released_parts released_def)
  then have "sleep_step (Some ChTicks) LTicks 0 1 (Gone, ?u) (Gone, ?v)"
    using t by (intro sleep_step.acq [of 1]) (simp_all add: released_parts)
  ultimately have v: "?reach (Gone, ?v)" using t(1) by (blast intro: reach_step)
  moreover have "l_cpu (locks ?v LPtable) = Some 1" "l_locked (locks ?v LPtable) \<noteq> 0" by (simp_all add: acquired_def)
  ultimately show ?thesis using sleep_no_lost_wakeup [of LTicks 1 ?s "Some ChTicks" Gone ?v] b by auto
qed

end
