(* ===== verification/Keyboard.thy ===== *)
theory Keyboard
  imports Console
begin

text \<open>
  The keyboard decoder \<open>kbdgetc\<close> against what a typist expects of a keyboard with the US layout: keys that are pressed and released,
  in any order, modifier keys, and the characters they produce. The theorem relates the scan codes of any sequence of such events to the
  characters that \<open>consoleintr\<close> gets.
\<close>

section \<open>A keyboard\<close>

datatype arrow = UpArrow | DownArrow | LeftArrow | RightArrow

text \<open>The flag of a shift or control key says whether it is the right one.\<close>

datatype key = CharKey char | ShiftKey bool | CtlKey bool | CapsKey | ArrowKey arrow

datatype event = Press key | Release key

record mods =
  m_shift :: bool
  m_ctl :: bool
  m_caps :: bool

text \<open>The rows of the keyboard, each with the scan code of its first key; Escape, Backspace, Tab and Enter are keys with control characters.\<close>

definition key_rows :: "(nat \<times> string) list" where
  "key_rows = [(0x01, CHR 0x1B # ''1234567890-='' @ [CHR 0x08, CHR 0x09]), (0x10, ''qwertyuiop[]'' @ [CHR 0x0A]), (0x1E, ''asdfghjkl;'' @ [CHR 0x27, CHR 0x60]),
     (0x2B, CHR 0x5C # ''zxcvbnm,./''), (0x39, '' '')]"

definition key_codes :: "(char \<times> nat) list" where
  "key_codes = concat (map (\<lambda>(b, row). zip row [b..<b + length row]) key_rows)"

fun arrow_code :: "arrow \<Rightarrow> nat \<times> nat" where
  "arrow_code UpArrow = (0x48, 0xE2)"
| "arrow_code DownArrow = (0x50, 0xE3)"
| "arrow_code LeftArrow = (0x4B, 0xE4)"
| "arrow_code RightArrow = (0x4D, 0xE5)"

text \<open>The bytes a key sends: an optional prefix \<open>0xE0\<close> and the code, with bit 7 set when the key is released.\<close>

fun key_scan :: "key \<Rightarrow> (bool \<times> nat) option" where
  "key_scan (CharKey c) = map_option (Pair False) (map_of key_codes c)"
| "key_scan (ShiftKey right) = Some (False, if right then 0x36 else 0x2A)"
| "key_scan (CtlKey right) = Some (right, 0x1D)"
| "key_scan CapsKey = Some (False, 0x3A)"
| "key_scan (ArrowKey a) = Some (True, fst (arrow_code a))"

fun event_codes :: "event \<Rightarrow> nat list" where
  "event_codes (Press k) = (case key_scan k of None \<Rightarrow> [] | Some (ext, d) \<Rightarrow> (if ext then [0xE0] else []) @ [d])"
| "event_codes (Release k) = (case key_scan k of None \<Rightarrow> [] | Some (ext, d) \<Rightarrow> (if ext then [0xE0] else []) @ [d + 0x80])"

section \<open>What the typist expects\<close>

definition shift_pairs :: "(char \<times> char) list" where
  "shift_pairs = zip (''1234567890-=[];'' @ [CHR 0x27, CHR 0x60, CHR 0x5C] @ '',./'')
     (''!@#$%^&*()_+{}:'' @ [CHR 0x22, CHR 0x7E, CHR 0x7C] @ ''<>?'')"

definition lower :: "nat \<Rightarrow> bool" where "lower c \<longleftrightarrow> 97 \<le> c \<and> c \<le> 122"
definition upper :: "nat \<Rightarrow> bool" where "upper c \<longleftrightarrow> 65 \<le> c \<and> c \<le> 90"

definition other_case :: "nat \<Rightarrow> nat" where
  "other_case c = (if lower c then c - 32 else if upper c then c + 32 else c)"

definition shifted :: "char \<Rightarrow> nat" where
  "shifted c = (case map_of shift_pairs c of Some d \<Rightarrow> of_char d | None \<Rightarrow> other_case (of_char c))"

text \<open>With the control key a letter gives its number in the alphabet, and Enter a carriage return; \<open>C('/')\<close> is \<open>'/' - '@'\<close> in a byte.\<close>

definition control :: "char \<Rightarrow> nat" where
  "control c = (if lower (of_char c) then of_char c - 96 else if c = CHR 0x5C then 28 else if c = CHR 0x0A then 13 else if c = CHR ''/'' then 239 else 0)"

definition char_typed :: "mods \<Rightarrow> char \<Rightarrow> nat" where
  "char_typed m c = (if m_ctl m then control c
     else (if m_caps m then other_case else id) (if m_shift m then shifted c else of_char c))"

text \<open>What an event types, with no character for zero, and what it does to the modifiers.\<close>

fun event_typed :: "mods \<Rightarrow> event \<Rightarrow> nat list" where
  "event_typed m (Press (CharKey c)) = (if c \<in> fst ` set key_codes \<and> char_typed m c \<noteq> 0 then [char_typed m c] else [])"
| "event_typed m (Press (ArrowKey a)) = [snd (arrow_code a)]"
| "event_typed m _ = []"

fun event_mods :: "event \<Rightarrow> mods \<Rightarrow> mods" where
  "event_mods (Press (ShiftKey r)) m = m\<lparr>m_shift := True\<rparr>"
| "event_mods (Release (ShiftKey r)) m = m\<lparr>m_shift := False\<rparr>"
| "event_mods (Press (CtlKey r)) m = m\<lparr>m_ctl := True\<rparr>"
| "event_mods (Release (CtlKey r)) m = m\<lparr>m_ctl := False\<rparr>"
| "event_mods (Press CapsKey) m = m\<lparr>m_caps := \<not> m_caps m\<rparr>"
| "event_mods _ m = m"

primrec typed :: "mods \<Rightarrow> event list \<Rightarrow> nat list" where
  "typed m [] = []"
| "typed m (e # es) = event_typed m e @ typed (event_mods e m) es"

definition mods_of :: "nat \<Rightarrow> mods" where
  "mods_of shift = \<lparr>m_shift = bit shift 0, m_ctl = bit shift 1, m_caps = bit shift 3\<rparr>"

section \<open>The decoder on one key\<close>

definition at_rest :: "nat \<Rightarrow> bool" where
  "at_rest shift \<longleftrightarrow> shift < 128 \<and> \<not> bit shift 6"

definition key_char :: "nat \<Rightarrow> nat \<Rightarrow> nat" where
  "key_char d shift = (if bit shift 3 then other_case else id)
     (if bit shift 1 then ctlmap d else if bit shift 0 then shiftmap d else normalmap d)"

lemma shift_bits:
  "and sh (or CTL SHIFT) = 0 \<longleftrightarrow> \<not> bit sh 0 \<and> \<not> bit sh 1"
  "and sh (or CTL SHIFT) = SHIFT \<longleftrightarrow> bit sh 0 \<and> \<not> bit sh 1"
  "and sh CAPSLOCK \<noteq> 0 \<longleftrightarrow> bit sh 3"
proof -
  have "or CTL SHIFT = mask 2" by (simp add: CTL_def SHIFT_def mask_eq_exp_minus_1)
  then have "and sh (or CTL SHIFT) = take_bit 2 sh" by (simp add: take_bit_eq_mask)
  also have "\<dots> = of_bool (bit sh 0) + 2 * of_bool (bit sh 1)"
    unfolding take_bit_eq_mod bit_iff_odd by (simp, presburger)
  finally show "and sh (or CTL SHIFT) = 0 \<longleftrightarrow> \<not> bit sh 0 \<and> \<not> bit sh 1" "and sh (or CTL SHIFT) = SHIFT \<longleftrightarrow> bit sh 0 \<and> \<not> bit sh 1"
    by (simp_all add: SHIFT_def)
  show "and sh CAPSLOCK \<noteq> 0 \<longleftrightarrow> bit sh 3" using and_exp_eq_0_iff_not_bit [of sh 3] by (simp add: CAPSLOCK_def)
qed

lemma escaped:
  assumes "at_rest sh"
  shows "bit (or sh E0ESC) 6" "or sh E0ESC - E0ESC = sh"
    "and (or sh E0ESC) (255 - or (shiftcode d) E0ESC) = and sh (255 - or (shiftcode d) E0ESC)"
proof -
  show "bit (or sh E0ESC) 6" by (simp add: bit_simps E0ESC_def)
  have "and sh E0ESC = 0" using assms e0_bit(1) [of sh] by (simp add: at_rest_def)
  then show "or sh E0ESC - E0ESC = sh" by (simp flip: disjunctive_add_eq_or)
  have "bit E0ESC n \<longleftrightarrow> n = 6" for n using bit_exp_iff [of 6 n, where ?'a = nat] by (simp add: E0ESC_def)
  then show "and (or sh E0ESC) (255 - or (shiftcode d) E0ESC) = and sh (255 - or (shiftcode d) E0ESC)"
    using release_mask [of d] by (intro bit_eqI) (auto simp: bit_simps)
qed

abbreviation (input) pressed :: "nat \<Rightarrow> nat \<Rightarrow> nat" where
  "pressed d sh \<equiv> xor (or sh (shiftcode d)) (togglecode d)"

abbreviation (input) let_go :: "nat \<Rightarrow> nat \<Rightarrow> nat" where
  "let_go d sh \<equiv> and sh (255 - or (shiftcode d) E0ESC)"

lemma caps_char: "(if and sh CAPSLOCK \<noteq> 0 then
    (if 97 \<le> c \<and> c \<le> 122 then c - 32 else if 65 \<le> c \<and> c \<le> 90 then c + 32 else c) else c) = (if bit sh 3 then other_case else id) c"
  unfolding shift_bits(3) by (simp add: other_case_def lower_def upper_def)

lemma map_choice: "(if and sh (or CTL SHIFT) = 0 then a else if and sh (or CTL SHIFT) = SHIFT then b else c) =
    (if bit sh 1 then c else if bit sh 0 then b else a)" for a b c :: nat
  by (simp add: shift_bits(1,2))

lemma kbd_press:
  assumes "at_rest sh" "d < 128"
  shows "kbd_chars [d] sh = ([int (key_char d (pressed d sh))], pressed d sh)"
  using assms unfolding at_rest_def
  by (simp only: kbd_chars.simps kbdgetc_def Let_def option.case caps_char map_choice key_char_def e0_bit) simp

lemma kbd_press_ext:
  assumes "at_rest sh" "d < 128"
  shows "kbd_chars [0xE0, d] sh = ([0, int (key_char (d + 128) (pressed (d + 128) sh))], pressed (d + 128) sh)"
  using assms escaped(1,2) [OF assms(1)]
  by (simp only: kbd_chars.simps kbdgetc_def Let_def option.case caps_char map_choice key_char_def e0_bit) simp

lemma kbd_release:
  assumes "at_rest sh" "d < 128" "d \<noteq> 96"
  shows "kbd_chars [d + 128] sh = ([0], let_go d sh)"
  using assms by (simp add: kbdgetc_def Let_def e0_bit at_rest_def)

lemma kbd_release_ext:
  assumes "at_rest sh" "d < 128" "d \<noteq> 96"
  shows "kbd_chars [0xE0, d + 128] sh = ([0, 0], let_go (d + 128) sh)"
  using assms escaped [OF assms(1)] by (simp add: kbdgetc_def Let_def e0_bit)

lemma at_rest_after:
  assumes "at_rest sh"
  shows "at_rest (pressed d sh)" "at_rest (let_go d sh)"
proof -
  show "at_rest (pressed d sh)" using press_shift [of sh d] assms by (simp add: at_rest_def)
  have "take_bit 7 (and sh x) = and (take_bit 7 sh) x" for x by (rule bit_eqI) (auto simp: bit_simps)
  then have "and sh x < 128" for x using assms by (simp add: at_rest_def less_128)
  then show "at_rest (let_go d sh)" using release_mask [of d] by (simp add: at_rest_def bit_simps)
qed

section \<open>Any sequence of keys\<close>

lemma key_codes_maps:
  assumes "(c, d) \<in> set key_codes"
  shows "d < 96 \<and> shiftcode d = 0 \<and> togglecode d = 0 \<and> normalmap d = of_char c \<and> shiftmap d = shifted c \<and> ctlmap d = control c"
proof -
  have "list_all (\<lambda>(c, d). d < 96 \<and> shiftcode d = 0 \<and> togglecode d = 0 \<and> normalmap d = of_char c \<and> shiftmap d = shifted c \<and>
    ctlmap d = control c) key_codes" by code_simp
  then show ?thesis using assms by (auto simp: list_all_iff)
qed

lemma let_go_plain:
  assumes "at_rest sh" "shiftcode d = 0"
  shows "let_go d sh = sh"
proof (rule bit_eqI)
  fix n
  have "bit sh n \<Longrightarrow> n < 7 \<and> n \<noteq> 6" using assms(1) bit_take_bit_iff [of 7 sh n] by (auto simp: at_rest_def less_128)
  moreover have "n < 7 \<Longrightarrow> n \<noteq> 6 \<Longrightarrow> n \<in> {0, 1, 2, 3, 4, 5}" by auto
  moreover have "n \<in> {0, 1, 2, 3, 4, 5} \<Longrightarrow> bit (191 :: nat) n" by auto
  ultimately show "bit (let_go d sh) n = bit sh n" using assms(2) by (auto simp: bit_simps E0ESC_def)
qed

text \<open>The modifiers after a key with a shift code, and the three maps on keys that type nothing or an arrow.\<close>

lemma mods_pressed:
  "mods_of (pressed 0x2A sh) = (mods_of sh)\<lparr>m_shift := True\<rparr>" "mods_of (pressed 0x36 sh) = (mods_of sh)\<lparr>m_shift := True\<rparr>"
  "mods_of (pressed 0x1D sh) = (mods_of sh)\<lparr>m_ctl := True\<rparr>" "mods_of (pressed 0x9D sh) = (mods_of sh)\<lparr>m_ctl := True\<rparr>"
  "mods_of (pressed 0x3A sh) = (mods_of sh)\<lparr>m_caps := \<not> m_caps (mods_of sh)\<rparr>"
  by (simp_all add: mods_of_def shiftcode_def togglecode_def CTL_def SHIFT_def CAPSLOCK_def bit_simps)

lemma mods_let_go:
  "mods_of (let_go 0x2A sh) = (mods_of sh)\<lparr>m_shift := False\<rparr>" "mods_of (let_go 0x36 sh) = (mods_of sh)\<lparr>m_shift := False\<rparr>"
  "mods_of (let_go 0x1D sh) = (mods_of sh)\<lparr>m_ctl := False\<rparr>" "mods_of (let_go 0x9D sh) = (mods_of sh)\<lparr>m_ctl := False\<rparr>"
  by (simp_all add: mods_of_def shiftcode_def CTL_def SHIFT_def E0ESC_def bit_simps)

lemma silent_keys: "key_char 0x2A sh = 0" "key_char 0x36 sh = 0" "key_char 0x1D sh = 0" "key_char 0x9D sh = 0" "key_char 0x3A sh = 0"
proof -
  have "list_all (\<lambda>d. normalmap d = 0 \<and> shiftmap d = 0 \<and> ctlmap d = 0) [0x2A, 0x36, 0x1D, 0x9D, 0x3A]" by code_simp
  then show "key_char 0x2A sh = 0" "key_char 0x36 sh = 0" "key_char 0x1D sh = 0" "key_char 0x9D sh = 0" "key_char 0x3A sh = 0"
    by (simp_all add: key_char_def other_case_def lower_def upper_def)
qed

lemma arrow_keys:
  "key_char (fst (arrow_code a) + 128) sh = snd (arrow_code a) \<and> fst (arrow_code a) < 96 \<and> snd (arrow_code a) \<noteq> 0 \<and>
   shiftcode (fst (arrow_code a) + 128) = 0 \<and> togglecode (fst (arrow_code a) + 128) = 0"
proof -
  have "list_all (\<lambda>a. let d = fst (arrow_code a) + 128; k = snd (arrow_code a) in normalmap d = k \<and> shiftmap d = k \<and> ctlmap d = k \<and>
      other_case k = k \<and> d < 96 + 128 \<and> k \<noteq> 0 \<and> shiftcode d = 0 \<and> togglecode d = 0) [UpArrow, DownArrow, LeftArrow, RightArrow]"
    by code_simp
  then show ?thesis by (cases a) (simp_all add: key_char_def Let_def)
qed

lemma arrow_range: "fst (arrow_code a) < 128" "fst (arrow_code a) \<noteq> 96"
  using arrow_keys [of a 0] by simp_all

lemma other_case_control: "other_case (control c) = control c"
proof -
  have "control c \<le> 28 \<or> control c = 239" by (simp add: control_def lower_def) linarith
  then show ?thesis by (auto simp: other_case_def lower_def upper_def)
qed

lemma char_key_typed:
  assumes "(c, d) \<in> set key_codes"
  shows "key_char d sh = char_typed (mods_of sh) c"
proof -
  have m: "normalmap d = of_char c" "shiftmap d = shifted c" "ctlmap d = control c" using key_codes_maps [OF assms] by simp_all
  show ?thesis unfolding key_char_def char_typed_def m by (simp add: mods_of_def other_case_control)
qed

definition decodes :: "event \<Rightarrow> nat \<Rightarrow> bool" where
  "decodes e sh \<longleftrightarrow> (\<exists>cs sh'. kbd_chars (event_codes e) sh = (cs, sh') \<and> at_rest sh' \<and>
     filter (\<lambda>c. c \<noteq> 0) cs = map int (event_typed (mods_of sh) e) \<and> mods_of sh' = event_mods e (mods_of sh))"

lemma decodes_char:
  assumes "at_rest sh"
  shows "decodes (Press (CharKey c)) sh" "decodes (Release (CharKey c)) sh"
proof -
  have "decodes (Press (CharKey c)) sh \<and> decodes (Release (CharKey c)) sh"
  proof (cases "map_of key_codes c")
    case None
    moreover from this have "c \<notin> fst ` set key_codes" by (simp add: map_of_eq_None_iff)
    ultimately show ?thesis using assms by (simp add: decodes_def)
  next
    case (Some d)
    then have d: "(c, d) \<in> set key_codes" by (rule map_of_SomeD)
    note k = key_codes_maps [OF d]
    have c: "c \<in> fst ` set key_codes" using d by force
    have "decodes (Press (CharKey c)) sh"
      using Some k c kbd_press [OF assms, of d] char_key_typed [OF d, of sh] assms
      by (simp add: decodes_def del: kbd_chars.simps)
    moreover have "decodes (Release (CharKey c)) sh"
      using Some k kbd_release [OF assms, of d] let_go_plain [OF assms, of d] assms
      by (simp add: decodes_def del: kbd_chars.simps)
    ultimately show ?thesis ..
  qed
  then show "decodes (Press (CharKey c)) sh" "decodes (Release (CharKey c)) sh" by simp_all
qed

lemma decodes_press:
  assumes "at_rest sh"
  shows "decodes (Press k) sh"
proof (cases k)
  case (ShiftKey r)
  then show ?thesis using kbd_press [OF assms, of 54] kbd_press [OF assms, of 42] at_rest_after(1) [OF assms] mods_pressed(1,2) [of sh]
    by (cases r) (simp_all add: decodes_def silent_keys del: kbd_chars.simps)
next
  case (CtlKey r)
  then show ?thesis using kbd_press [OF assms, of 29] kbd_press_ext [OF assms, of 29] at_rest_after(1) [OF assms]
      mods_pressed(3,4) [of sh] by (cases r) (simp_all add: decodes_def silent_keys del: kbd_chars.simps)
next
  case CapsKey
  then show ?thesis using kbd_press [OF assms, of 58] at_rest_after(1) [OF assms] mods_pressed(5) [of sh]
    by (simp add: decodes_def silent_keys del: kbd_chars.simps)
next
  case (ArrowKey a)
  then show ?thesis using kbd_press_ext [OF assms arrow_range(1) [of a]] arrow_keys [of a sh] assms
    by (simp add: decodes_def del: kbd_chars.simps)
qed (use decodes_char [OF assms] in simp)

lemma decodes_release:
  assumes "at_rest sh"
  shows "decodes (Release k) sh"
proof (cases k)
  case (ShiftKey r)
  then show ?thesis using kbd_release [OF assms, of 54] kbd_release [OF assms, of 42] at_rest_after(2) [OF assms] mods_let_go(1,2) [of sh]
    by (cases r) (simp_all add: decodes_def del: kbd_chars.simps)
next
  case (CtlKey r)
  then show ?thesis using kbd_release [OF assms, of 29] kbd_release_ext [OF assms, of 29] at_rest_after(2) [OF assms]
      mods_let_go(3,4) [of sh] by (cases r) (simp_all add: decodes_def del: kbd_chars.simps)
next
  case CapsKey
  moreover have "shiftcode 0x3A = 0" by (simp add: shiftcode_def)
  ultimately show ?thesis using kbd_release [OF assms, of 58] let_go_plain [OF assms, of 58] assms
    by (simp add: decodes_def del: kbd_chars.simps)
next
  case (ArrowKey a)
  then show ?thesis using kbd_release_ext [OF assms arrow_range [of a]] arrow_keys [of a sh]
      let_go_plain [OF assms, of "fst (arrow_code a) + 128"] assms by (simp add: decodes_def del: kbd_chars.simps)
qed (use decodes_char [OF assms] in simp)

lemma kbd_chars_append:
  "kbd_chars (xs @ ys) sh = (fst (kbd_chars xs sh) @ fst (kbd_chars ys (snd (kbd_chars xs sh))), snd (kbd_chars ys (snd (kbd_chars xs sh))))"
  by (induction xs arbitrary: sh) (simp_all add: split_beta Let_def)

text \<open>C39. The keyboard decoder types what a keyboard with the US layout should: for any sequence of keys pressed and released, letters,
  digits, punctuation, Enter, Tab, Escape, Backspace, shift, control, Caps Lock and arrows, from any state between two key codes, the characters that \<open>kbdgetc\<close> returns for the
  scan codes are those expected, but for zeros, which \<open>consoleintr\<close> ignores. Shift gives the upper characters, Caps Lock exchanges the
  case of letters, control gives control characters, and the state of the modifiers is what the events make of it.\<close>

theorem kbdgetc_types:
  assumes "shift < 128" "and shift E0ESC = 0"
  shows "case kbd_chars (concat (map event_codes es)) shift of (cs, shift') \<Rightarrow>
    filter (\<lambda>c. c \<noteq> 0) cs = map int (typed (mods_of shift) es) \<and> mods_of shift' = fold event_mods es (mods_of shift) \<and>
    shift' < 128 \<and> and shift' E0ESC = 0"
proof -
  have "at_rest shift" using assms e0_bit(1) [of shift] by (simp add: at_rest_def)
  then show ?thesis
  proof (induction es arbitrary: shift)
    case Nil
    then show ?case using e0_bit(1) [of shift] by (auto simp: at_rest_def)
  next
    case (Cons e es)
    have "decodes e shift" using decodes_press [OF Cons.prems] decodes_release [OF Cons.prems] by (cases e) simp_all
    then obtain cs sh where e: "kbd_chars (event_codes e) shift = (cs, sh)" "at_rest sh"
      "filter (\<lambda>c. c \<noteq> 0) cs = map int (event_typed (mods_of shift) e)" "mods_of sh = event_mods e (mods_of shift)"
      by (auto simp: decodes_def)
    show ?case using Cons.IH [OF e(2)] e by (simp add: kbd_chars_append split_beta)
  qed
qed

text \<open>The witness: \<open>a\<close> with shift, then \<open>c\<close> with the right control key.\<close>

theorem kbdgetc_types_witness:
  "\<exists>cs shift. kbd_chars [0x2A, 0x1E, 0xAA, 0xE0, 0x1D, 0x2E] 0 = (cs, shift) \<and> filter (\<lambda>c. c \<noteq> 0) cs = [65, 3]"
proof -
  let ?es = "[Press (ShiftKey False), Press (CharKey (CHR ''a'')), Release (ShiftKey False), Press (CtlKey True), Press (CharKey (CHR ''c''))]"
  have k: "map_of key_codes (CHR ''a'') = Some 30" "map_of key_codes (CHR ''c'') = Some 46" by code_simp+
  then have "CHR ''a'' \<in> fst ` set key_codes" "CHR ''c'' \<in> fst ` set key_codes" by (force dest: map_of_SomeD)+
  moreover have "shifted (CHR ''a'') = 65" "control (CHR ''c'') = 3" by code_simp+
  ultimately have "typed (mods_of 0) ?es = [65, 3]" by (simp add: char_typed_def mods_of_def)
  then show ?thesis using kbdgetc_types [of 0 ?es] by (simp add: k split_beta del: kbd_chars.simps) (metis prod.collapse)
qed

end
