(* ===== verification/Ulib.thy ===== *)
theory Ulib
  imports Prelude
begin

text \<open>
  The library of the user programs: \<open>ulib.c\<close> and \<open>printf.c\<close>; a name that the kernel uses too has a \<open>u\<close> in front. A \<open>char *\<close> is the list of the characters from where it points to the end of
  its buffer, behind which there is a NUL; a string ends at the first NUL. What \<open>read\<close> delivers is an argument.
\<close>

section \<open>Strings\<close>

abbreviation (input) NUL :: char where "NUL \<equiv> CHR 0x00"

definition at :: "string \<Rightarrow> nat \<Rightarrow> char" where
  "at s i = (if i < length s then s ! i else NUL)"

text \<open>The copy up to and with the NUL; \<open>None\<close> if the destination is too short.\<close>

fun strcpy :: "string \<Rightarrow> string \<Rightarrow> string option" where
  "strcpy [] t = None"
| "strcpy (d # ds) t = (if at t 0 = NUL then Some (NUL # ds) else map_option ((#) (hd t)) (strcpy ds (tl t)))"

function strcmp :: "string \<Rightarrow> string \<Rightarrow> int" where
  "strcmp p q = (if at p 0 \<noteq> NUL \<and> at p 0 = at q 0 then strcmp (tl p) (tl q)
     else int (of_char (at p 0)) - int (of_char (at q 0)))"
  by pat_completeness auto
termination by (relation "measure (length o fst)") (auto simp: at_def split: if_splits)

declare strcmp.simps [simp del]

primrec ustrlen :: "string \<Rightarrow> nat" where
  "ustrlen [] = 0"
| "ustrlen (c # s) = (if c = NUL then 0 else Suc (ustrlen s))"

text \<open>The distance to the character, \<open>None\<close> for a null pointer.\<close>

primrec strchr :: "string \<Rightarrow> char \<Rightarrow> nat option" where
  "strchr [] c = None"
| "strchr (d # s) c = (if d = NUL then None else if d = c then Some 0 else map_option Suc (strchr s c))"

text \<open>Characters before the limit, up to the end of the line or of the input, and the input left.\<close>

fun gets_loop :: "nat \<Rightarrow> string \<Rightarrow> string \<times> string" where
  "gets_loop 0 inp = ([], inp)"
| "gets_loop (Suc n) [] = ([], [])"
| "gets_loop (Suc n) (c # inp) = (if c = CHR 0x0A \<or> c = CHR 0x0D then ([c], inp)
     else (let (s, r) = gets_loop n inp in (c # s, r)))"

definition ugets :: "int \<Rightarrow> string \<Rightarrow> string \<times> string" where
  "ugets lim inp = (let (s, r) = gets_loop (nat (lim - 1)) inp in (s @ [NUL], r))"

definition is_digit :: "char \<Rightarrow> bool" where
  "is_digit c \<longleftrightarrow> 48 \<le> (of_char c :: nat) \<and> (of_char c :: nat) \<le> 57"

primrec atoi_loop :: "int \<Rightarrow> string \<Rightarrow> int" where
  "atoi_loop n [] = n"
| "atoi_loop n (c # s) = (if is_digit c then atoi_loop (s32 (u32_of (n * 10 + int (of_char c) - 48))) s else n)"

definition atoi :: "string \<Rightarrow> int" where
  "atoi s = atoi_loop 0 s"

text \<open>\<open>memmove\<close> of the library copies upwards, from index \<open>src\<close> to index \<open>dst\<close> of a buffer; \<open>None\<close> outside the buffer.\<close>

primrec umemmove :: "string \<Rightarrow> nat \<Rightarrow> nat \<Rightarrow> nat \<Rightarrow> string option" where
  "umemmove m dst src 0 = Some m"
| "umemmove m dst src (Suc n) =
     (if dst < length m \<and> src < length m then umemmove (m[dst := m ! src]) (Suc dst) (Suc src) n else None)"

section \<open>Formatted output\<close>

function udigits :: "nat \<Rightarrow> nat \<Rightarrow> string" where
  "udigits x base = ''0123456789ABCDEF'' ! (x mod base) # (if x div base \<noteq> 0 \<and> 2 \<le> base then udigits (x div base) base else [])"
  by pat_completeness auto
termination by (relation "measure fst") (auto intro!: div_less_dividend, metis div_0 gr0I neq0_conv)

declare udigits.simps [simp del]

definition uprintint :: "int \<Rightarrow> nat \<Rightarrow> bool \<Rightarrow> string" where
  "uprintint xx base sign = (let neg = sign \<and> xx < 0; x = (if neg then u32_of (- xx) else u32_of xx) in
     rev (udigits x base @ (if neg then ''-'' else [])))"

datatype uarg = UInt int | UStr "string option" | UChar char

text \<open>The characters written for a format and its arguments; \<open>None\<close> if an argument is missing or of another type.\<close>

fun printf :: "string \<Rightarrow> uarg list \<Rightarrow> string option" where
  "printf [] args = Some []"
| "printf (c # cs) args =
     (if c \<noteq> CHR ''%'' then map_option ((#) c) (printf cs args)
      else case cs of
        [] \<Rightarrow> Some []
      | d # ds \<Rightarrow>
          if d = CHR ''d'' then (case args of UInt i # as \<Rightarrow> map_option ((@) (uprintint i 10 True)) (printf ds as) | _ \<Rightarrow> None)
          else if d = CHR ''x'' \<or> d = CHR ''p'' then
            (case args of UInt i # as \<Rightarrow> map_option ((@) (uprintint i 16 False)) (printf ds as) | _ \<Rightarrow> None)
          else if d = CHR ''s'' then
            (case args of UStr s # as \<Rightarrow> map_option ((@) (case s of None \<Rightarrow> ''(null)'' | Some t \<Rightarrow> take (ustrlen t) t)) (printf ds as) | _ \<Rightarrow> None)
          else if d = CHR ''c'' then (case args of UChar x # as \<Rightarrow> map_option ((#) x) (printf ds as) | _ \<Rightarrow> None)
          else if d = CHR ''%'' then map_option ((#) d) (printf ds args)
          else map_option ((@) [CHR ''%'', d]) (printf ds args))"

section \<open>Strings as lists\<close>

definition text_of :: "string \<Rightarrow> string" where
  "text_of s = takeWhile (\<lambda>c. c \<noteq> NUL) s"

lemma strlen_text_of: "ustrlen s = length (text_of s)"
  by (induction s) (auto simp: text_of_def)

lemma strlen_no_NUL [simp]: "NUL \<notin> set s \<Longrightarrow> ustrlen s = length s"
  by (induction s) auto

lemma strcpy_text_of: "strcpy d t = (if length (text_of t) < length d then Some (text_of t @ NUL # drop (Suc (length (text_of t))) d) else None)"
proof (induction d arbitrary: t)
  case IH: (Cons c d)
  show ?case
  proof (cases t)
    case (Cons x xs)
    then show ?thesis using IH.IH [of xs] by (auto simp: at_def text_of_def)
  qed (simp add: at_def text_of_def)
qed simp

lemma strcmp_eq: "strcmp p q = 0 \<longleftrightarrow> text_of p = text_of q"
proof (induction p q rule: strcmp.induct)
  case (1 p q)
  show ?case
  proof (cases "at p 0 \<noteq> NUL \<and> at p 0 = at q 0")
    case True
    then obtain c p' q' where "p = c # p'" "q = c # q'" "c \<noteq> NUL"
      by (cases p; cases q) (auto simp: at_def split: if_splits)
    then show ?thesis using 1 [OF True] by (simp add: strcmp.simps [of "c # p'" "c # q'"] at_def text_of_def)
  next
    case False
    then have s: "strcmp p q = int (of_char (at p 0)) - int (of_char (at q 0))" by (subst strcmp.simps) (auto)
    show ?thesis
    proof (cases "at p 0 = at q 0")
      case True
      with False show ?thesis using s by (cases p; cases q) (auto simp: at_def text_of_def split: if_splits)
    next
      case ne: False
      then have "(of_char (at p 0) :: nat) \<noteq> of_char (at q 0)" by (simp add: of_char_eq_iff)
      then show ?thesis using s ne by (cases p; cases q) (auto simp: at_def text_of_def split: if_splits)
    qed
  qed
qed

lemma strchr_Some: "strchr s c = Some i \<Longrightarrow> i < length s \<and> s ! i = c \<and> c \<noteq> NUL \<and> (\<forall>j < i. s ! j \<noteq> c \<and> s ! j \<noteq> NUL)"
  by (induction s arbitrary: i) (fastforce simp: less_Suc_eq_0_disj split: if_splits)+

lemma strchr_None: "strchr s c = None \<longleftrightarrow> c = NUL \<or> c \<notin> set (text_of s)"
  by (induction s) (auto simp: text_of_def)

lemma gets_loop_append: "gets_loop n inp = (s, r) \<Longrightarrow> inp = s @ r \<and> length s \<le> n"
  by (induction n inp arbitrary: s r rule: gets_loop.induct) (auto split: if_splits prod.splits)

text \<open>The upward copy is right when it goes down in memory, as in \<open>grep\<close>; a copy up into its own source repeats what it wrote.\<close>

lemma umemmove_down:
  "dst \<le> src \<Longrightarrow> src + n \<le> length m \<Longrightarrow> umemmove m dst src n = Some (take dst m @ take n (drop src m) @ drop (dst + n) m)"
proof (induction n arbitrary: m dst src)
  case (Suc n)
  let ?m = "m[dst := m ! src]"
  have "umemmove ?m (Suc dst) (Suc src) n = Some (take (Suc dst) ?m @ take n (drop (Suc src) ?m) @ drop (Suc dst + n) ?m)"
    using Suc.prems by (intro Suc.IH) auto
  moreover have "take (Suc dst) ?m = take dst m @ [m ! src]" using Suc.prems by (simp add: take_Suc_conv_app_nth)
  moreover have "drop src m = m ! src # drop (Suc src) m" using Suc.prems by (simp add: Cons_nth_drop_Suc)
  ultimately show ?case using Suc.prems by simp
qed simp

lemma umemmove_up_repeats: "umemmove ''abcd'' 1 0 3 = Some ''aaaa''"
  by (simp add: numeral_3_eq_3)

section \<open>Numbers\<close>

lemma of_char_digit: "n < 10 \<Longrightarrow> of_char (''0123456789ABCDEF'' ! n) = (48 + n :: nat)"
proof -
  assume "n < 10"
  then have "n \<in> set [0..<10]" by simp
  then show ?thesis by (auto simp: upt_rec)
qed

lemma atoi_loop_digits:
  "x < 2147483648 \<Longrightarrow> atoi_loop 0 (rev (udigits x 10) @ s) = atoi_loop (int x) s"
proof (induction x arbitrary: s rule: less_induct)
  case (less x)
  let ?d = "''0123456789ABCDEF'' ! (x mod 10)"
  have d: "is_digit ?d" "int (of_char ?d) = 48 + int (x mod 10)" using of_char_digit [of "x mod 10"] by (simp_all add: is_digit_def)
  have last: "atoi_loop (int (x div 10)) (?d # s) = atoi_loop (int x) s"
  proof -
    have "int (x div 10) * 10 + int (of_char ?d) - 48 = int x" unfolding d(2) by presburger
    then show ?thesis using d(1) less.prems by (simp add: s32_u32_of)
  qed
  show ?case
  proof (cases "x div 10 = 0")
    case True
    then show ?thesis using last by (subst udigits.simps) simp
  next
    case False
    then have "atoi_loop 0 (rev (udigits (x div 10) 10) @ ?d # s) = atoi_loop (int (x div 10)) (?d # s)"
      using less.prems by (intro less.IH) auto
    then show ?thesis using last False by (subst udigits.simps) simp
  qed
qed

text \<open>What \<open>%d\<close> prints for a number that is not negative, \<open>atoi\<close> reads.\<close>

lemma atoi_uprintint:
  assumes "0 \<le> n" "n < 2147483648"
  shows "atoi (uprintint n 10 True) = n"
proof -
  have "nat n < 2147483648" "u32_of n = nat n" using assms by (simp_all add: u32_of_def nat_less_iff)
  then show ?thesis using atoi_loop_digits [of "nat n" "[]"] assms by (simp add: atoi_def uprintint_def Let_def)
qed

end
