(* ===== verification/Grep.thy ===== *)
theory Grep
  imports Ulib
begin

text \<open>
  The user program \<open>grep.c\<close>. A C string is the list of its characters before the terminating NUL, so that \<open>re[0]\<close> and \<open>re[1]\<close> of
  the source are the first two elements, or NUL where there are none. The matcher is compared with the language that a pattern
  denotes; the loop that reads the input runs on the successive results of the system call \<open>read\<close>.
\<close>

section \<open>The matcher\<close>

abbreviation (input) NL :: char where "NL \<equiv> CHR 0x0A"

function matchhere :: "string \<Rightarrow> string \<Rightarrow> bool" and matchstar :: "char \<Rightarrow> string \<Rightarrow> string \<Rightarrow> bool" where
  "matchhere re s = (case re of
     [] \<Rightarrow> True
   | r # re' \<Rightarrow>
     if re' \<noteq> [] \<and> hd re' = CHR ''*'' then matchstar r (tl re') s
     else if r = CHR ''$'' \<and> re' = [] then s = []
     else (case s of [] \<Rightarrow> False | t # ts \<Rightarrow> (r = CHR ''.'' \<or> r = t) \<and> matchhere re' ts))"
| "matchstar c re s = (if matchhere re s then True
     else case s of [] \<Rightarrow> False | t # ts \<Rightarrow> (t = c \<or> c = CHR ''.'') \<and> matchstar c re ts)"
  by pat_completeness auto
termination
  by (relation "measure (case_sum (\<lambda>(re, s). 2 * (length re + length s)) (\<lambda>(c, re, s). 2 * (length re + length s) + 1))")
    (auto simp: neq_Nil_conv)

declare matchhere.simps [simp del] matchstar.simps [simp del]

primrec match_from :: "string \<Rightarrow> string \<Rightarrow> bool" where
  "match_from re [] = matchhere re []"
| "match_from re (t # ts) = (if matchhere re (t # ts) then True else match_from re ts)"

definition match :: "string \<Rightarrow> string \<Rightarrow> bool" where
  "match re s = (if re \<noteq> [] \<and> hd re = CHR ''^'' then matchhere (tl re) s else match_from re s)"

section \<open>The reading loop\<close>

text \<open>The inner loop, from \<open>p\<close> on: the lines written, and what is left behind the last newline.\<close>

function grep_lines :: "string \<Rightarrow> string \<Rightarrow> string list \<times> string" where
  "grep_lines pattern p = (case strchr p NL of
     None \<Rightarrow> ([], p)
   | Some i \<Rightarrow>
     let (ws, r) = grep_lines pattern (drop (Suc i) p) in
     (if match pattern (take i p) then take (Suc i) p # ws else ws, r))"
  by pat_completeness auto
termination by (relation "measure (length o snd)") (auto dest: strchr_Some)

declare grep_lines.simps [simp del]

text \<open>The outer loop, with the first \<open>m\<close> characters of \<open>buf\<close> and the results of the \<open>read\<close>s to come; \<open>None\<close> if one of them delivers
  more than the \<open>sizeof(buf)-m-1\<close> characters that were asked for.\<close>

fun grep :: "string \<Rightarrow> string list \<Rightarrow> string \<Rightarrow> string list option" where
  "grep pattern [] b = Some []"
| "grep pattern (r # rs) b =
     (if r = [] then Some []
      else if 1024 - length b - 1 < length r then None
      else let b' = b @ r; (ws, p) = grep_lines pattern b'
        in map_option ((@) ws) (grep pattern rs (if length p = length b' then [] else p)))"

section \<open>What a pattern means\<close>

text \<open>The items of a pattern: a character or any character, a repetition of one of these, the end of the line.\<close>

datatype item = One char | Many char | End

fun items :: "string \<Rightarrow> item list" where
  "items [] = []"
| "items [r] = (if r = CHR ''$'' then [End] else [One r])"
| "items (r # r' # re) = (if r' = CHR ''*'' then Many r # items re else One r # items (r' # re))"

definition stands_for :: "char \<Rightarrow> char \<Rightarrow> bool" where
  "stands_for c t \<longleftrightarrow> c = CHR ''.'' \<or> c = t"

text \<open>\<open>denotes is w rest\<close>: the items match the text \<open>w\<close> when \<open>rest\<close> follows it on the line.\<close>

inductive denotes :: "item list \<Rightarrow> string \<Rightarrow> string \<Rightarrow> bool" where
  none: "denotes [] [] rest"
| one: "stands_for c t \<Longrightarrow> denotes is w rest \<Longrightarrow> denotes (One c # is) (t # w) rest"
| many: "\<forall>t \<in> set u. stands_for c t \<Longrightarrow> denotes is w rest \<Longrightarrow> denotes (Many c # is) (u @ w) rest"
| at_end: "denotes [End] [] []"

inductive_simps denotes_simps: "denotes [] w rest" "denotes (One c # is) w rest" "denotes (Many c # is) w rest" "denotes [End] w rest"

definition starts_with :: "item list \<Rightarrow> string \<Rightarrow> bool" where
  "starts_with is s \<longleftrightarrow> (\<exists>w rest. s = w @ rest \<and> denotes is w rest)"

lemma starts_with_Nil [simp]: "starts_with [] s"
  by (simp add: starts_with_def denotes_simps)

lemma starts_with_End [simp]: "starts_with [End] s \<longleftrightarrow> s = []"
  by (simp add: starts_with_def denotes_simps)

lemma starts_with_One: "starts_with (One c # is) s \<longleftrightarrow> (\<exists>t ts. s = t # ts \<and> stands_for c t \<and> starts_with is ts)"
proof -
  have "starts_with (One c # is) s \<longleftrightarrow> (\<exists>t w rest. s = t # w @ rest \<and> stands_for c t \<and> denotes is w rest)"
    unfolding starts_with_def denotes_simps(2) by (metis append_Cons)
  then show ?thesis unfolding starts_with_def by metis
qed

lemma starts_with_Many_iff:
  "starts_with (Many c # is) s \<longleftrightarrow> (\<exists>u ts. s = u @ ts \<and> (\<forall>t \<in> set u. stands_for c t) \<and> starts_with is ts)"
proof
  assume "starts_with (Many c # is) s"
  then obtain u w rest where "s = (u @ w) @ rest" "\<forall>t \<in> set u. stands_for c t" "denotes is w rest"
    by (auto simp: starts_with_def denotes_simps)
  then show "\<exists>u ts. s = u @ ts \<and> (\<forall>t \<in> set u. stands_for c t) \<and> starts_with is ts"
    by (intro exI [of _ u] exI [of _ "w @ rest"]) (auto simp: starts_with_def)
next
  assume "\<exists>u ts. s = u @ ts \<and> (\<forall>t \<in> set u. stands_for c t) \<and> starts_with is ts"
  then obtain u w rest where "s = (u @ w) @ rest" "\<forall>t \<in> set u. stands_for c t" "denotes is w rest"
    by (auto simp: starts_with_def)
  then show "starts_with (Many c # is) s" unfolding starts_with_def by (blast intro: many)
qed

lemma starts_with_Many_Nil: "starts_with (Many c # is) [] \<longleftrightarrow> starts_with is []"
  by (simp add: starts_with_Many_iff)

lemma starts_with_Many_Cons:
  "starts_with (Many c # is) (t # ts) \<longleftrightarrow> starts_with is (t # ts) \<or> stands_for c t \<and> starts_with (Many c # is) ts"
proof
  assume "starts_with (Many c # is) (t # ts)"
  then obtain u v where u: "t # ts = u @ v" "\<forall>t \<in> set u. stands_for c t" "starts_with is v" by (auto simp: starts_with_Many_iff)
  show "starts_with is (t # ts) \<or> stands_for c t \<and> starts_with (Many c # is) ts"
  proof (cases u)
    case (Cons a u')
    then have "ts = u' @ v" "\<forall>t \<in> set u'. stands_for c t" "stands_for c t" using u by auto
    then show ?thesis using u(3) unfolding starts_with_Many_iff [of c "is" ts] by blast
  qed (use u in simp)
next
  assume "starts_with is (t # ts) \<or> stands_for c t \<and> starts_with (Many c # is) ts"
  then consider "starts_with is (t # ts)"
    | u v where "t # ts = (t # u) @ v" "\<forall>x \<in> set (t # u). stands_for c x" "starts_with is v"
    by (auto simp: starts_with_Many_iff [of c "is" ts])
  then show "starts_with (Many c # is) (t # ts)"
  proof cases
    case 1
    then show ?thesis unfolding starts_with_Many_iff by (intro exI [of _ "[]"] exI [of _ "t # ts"]) simp
  next
    case 2
    then show ?thesis unfolding starts_with_Many_iff by blast
  qed
qed

lemmas starts_with_Many_simps = starts_with_Many_Nil starts_with_Many_Cons

lemma matchhere_Nil [simp]: "matchhere [] s"
  by (subst matchhere.simps) simp

lemma matchhere_single:
  "matchhere [r] s = (if r = CHR ''$'' then s = [] else case s of [] \<Rightarrow> False | t # ts \<Rightarrow> r = CHR ''.'' \<or> r = t)"
  by (subst matchhere.simps) (simp split: list.split)

lemma matchhere_Cons:
  "matchhere (r # r' # re) s = (if r' = CHR ''*'' then matchstar r re s
     else case s of [] \<Rightarrow> False | t # ts \<Rightarrow> (r = CHR ''.'' \<or> r = t) \<and> matchhere (r' # re) ts)"
  by (subst matchhere.simps) simp

lemma matchstar_Nil: "matchstar c re [] = matchhere re []"
  by (subst matchstar.simps) simp

lemma matchstar_Cons: "matchstar c re (t # ts) = (matchhere re (t # ts) \<or> (t = c \<or> c = CHR ''.'') \<and> matchstar c re ts)"
  by (subst matchstar.simps) simp

lemmas matchhere_simps = matchhere_single matchhere_Cons
lemmas matchstar_simps = matchstar_Nil matchstar_Cons

lemma matchhere_starts_with:
  "matchhere re s \<longleftrightarrow> starts_with (items re) s"
  "matchstar c re s \<longleftrightarrow> starts_with (Many c # items re) s"
proof (induction re s and c re s rule: matchhere_matchstar.induct)
  case (1 re s)
  show ?case
  proof (cases re rule: items.cases)
    case 1
    then show ?thesis by (simp add: matchhere_simps)
  next
    case (2 r)
    then show ?thesis by (cases s) (auto simp: matchhere_simps starts_with_One stands_for_def)
  next
    case (3 r r' re')
    then show ?thesis using "1.IH" [of r "r' # re'"] by (cases s) (auto simp: matchhere_simps starts_with_One stands_for_def)
  qed
next
  case (2 c re s)
  show ?case using "2.IH" by (cases s) (auto simp: matchstar_simps starts_with_Many_simps stands_for_def)
qed

lemma match_from_iff: "match_from re s \<longleftrightarrow> (\<exists>pre suf. s = pre @ suf \<and> starts_with (items re) suf)"
  by (induction s) (auto simp: matchhere_starts_with Cons_eq_append_conv)

text \<open>C28. \<open>match\<close> decides the language of the pattern: a pattern that starts with \<open>^\<close> has to match at the beginning of the text, any other
  one somewhere in it; a character stands for itself, \<open>.\<close> for any character, \<open>*\<close> after one of them for any number of repetitions,
  and \<open>$\<close> at the end of the pattern for the end of the text.\<close>

theorem match_correct:
  "match re s \<longleftrightarrow> (\<exists>pre w rest. s = pre @ w @ rest \<and>
     (if re \<noteq> [] \<and> hd re = CHR ''^'' then pre = [] \<and> denotes (items (tl re)) w rest else denotes (items re) w rest))"
  by (auto simp: match_def match_from_iff matchhere_starts_with starts_with_def)

section \<open>The lines of the input\<close>

primrec split_lines :: "string \<Rightarrow> string \<Rightarrow> string list \<times> string" where
  "split_lines cur [] = ([], cur)"
| "split_lines cur (c # cs) = (if c = NL then (let (ls, r) = split_lines [] cs in (cur # ls, r)) else split_lines (cur @ [c]) cs)"

lemma split_lines_append:
  "split_lines cur (xs @ ys) = (fst (split_lines cur xs) @ fst (split_lines (snd (split_lines cur xs)) ys),
     snd (split_lines (snd (split_lines cur xs)) ys))"
  by (induction xs arbitrary: cur) (auto simp: split_beta)

lemma split_lines_no_NL: "NL \<notin> set xs \<Longrightarrow> split_lines cur xs = ([], cur @ xs)"
  by (induction xs arbitrary: cur) auto

definition last_line :: "string \<Rightarrow> string" where
  "last_line xs = rev (takeWhile (\<lambda>c. c \<noteq> NL) (rev xs))"

lemma last_line_set: "set (last_line xs) \<subseteq> set xs" "NL \<notin> set (last_line xs)"
  by (auto simp: last_line_def dest: set_takeWhileD)

lemma split_lines_rest:
  assumes "NL \<in> set xs"
  shows "snd (split_lines cur xs) = last_line xs" "length (last_line xs) < length xs"
proof -
  obtain ys zs where xs: "xs = ys @ NL # zs" "NL \<notin> set zs" using split_list_last [OF assms] by blast
  then have "takeWhile (\<lambda>c. c \<noteq> NL) (rev xs) = rev zs" by (auto simp: takeWhile_append)
  then have l: "last_line xs = zs" by (simp add: last_line_def)
  show "snd (split_lines cur xs) = last_line xs" unfolding l using xs(2) by (simp add: xs(1) split_lines_append split_lines_no_NL split_beta)
  show "length (last_line xs) < length xs" unfolding l by (simp add: xs(1))
qed

lemma grep_lines_split:
  assumes "NUL \<notin> set p"
  shows "grep_lines pattern p =
    (map (\<lambda>l. l @ [NL]) (filter (match pattern) (fst (split_lines [] p))), snd (split_lines [] p))"
  using assms
proof (induction pattern p rule: grep_lines.induct)
  case (1 pattern p)
  show ?case
  proof (cases "strchr p NL")
    case None
    moreover have "text_of p = p" using 1(2) by (auto simp: text_of_def takeWhile_eq_all_conv)
    ultimately have "NL \<notin> set p" by (simp add: strchr_None)
    then show ?thesis using None by (subst grep_lines.simps) (simp add: split_lines_no_NL)
  next
    case (Some i)
    then have i: "i < length p" "p ! i = NL" "NL \<notin> set (take i p)" using strchr_Some [OF Some] by (auto simp: in_set_conv_nth)
    then have p: "p = take i p @ NL # drop (Suc i) p" by (metis id_take_nth_drop)
    have "NUL \<notin> set (drop (Suc i) p)" using 1(2) by (meson in_set_dropD)
    note IH = 1(1) [OF Some this]
    have s: "split_lines [] p = (take i p # fst (split_lines [] (drop (Suc i) p)), snd (split_lines [] (drop (Suc i) p)))"
      by (subst p) (simp add: split_lines_append split_lines_no_NL i split_beta)
    show ?thesis unfolding s using i Some IH by (subst grep_lines.simps) (simp add: take_Suc_conv_app_nth)
  qed
qed

text \<open>Reads into a buffer that holds \<open>m\<close> characters, each of which fits and delivers the end of a line.\<close>

primrec line_reads :: "nat \<Rightarrow> string list \<Rightarrow> bool" where
  "line_reads m [] = True"
| "line_reads m (r # rs) = (NL \<in> set r \<and> NUL \<notin> set r \<and> m + length r < 1024 \<and> line_reads (length (last_line r)) rs)"

lemma grep_from:
  assumes "line_reads (length b) rs" "NL \<notin> set b" "NUL \<notin> set b"
  shows "grep pattern rs b = Some (map (\<lambda>l. l @ [NL]) (filter (match pattern) (fst (split_lines b (concat rs)))))"
  using assms
proof (induction rs arbitrary: b)
  case (Cons r rs)
  have r: "r \<noteq> []" "NL \<in> set r" "NUL \<notin> set (b @ r)" "length b + length r < 1024" using Cons.prems by auto
  have s: "split_lines [] (b @ r) = split_lines b r" using Cons.prems(2) by (simp add: split_lines_append [of "[]"] split_lines_no_NL)
  have p: "length (last_line r) \<noteq> length b + length r" using split_lines_rest(2) [OF r(2)] by simp
  have IH: "grep pattern rs (last_line r) =
      Some (map (\<lambda>l. l @ [NL]) (filter (match pattern) (fst (split_lines (last_line r) (concat rs)))))"
    using Cons.prems last_line_set [of r] by (intro Cons.IH) auto
  show ?case using r(1,4) p IH
    by (simp add: grep_lines_split [OF r(3)] s split_lines_append [of b] split_lines_rest(1) [OF r(2)])
qed simp

text \<open>C29. When every \<open>read\<close> delivers the end of a line and fits into the buffer, \<open>grep\<close> writes the lines of the whole input that match the
  pattern, in their order and each with its newline, however the input is cut into pieces; what follows the last newline is not written.\<close>

theorem grep_writes_matching_lines:
  assumes "line_reads 0 rs"
  shows "grep pattern rs [] = Some (map (\<lambda>l. l @ [NL]) (filter (match pattern) (fst (split_lines [] (concat rs)))))"
  using assms by (intro grep_from) auto

theorem grep_writes_matching_lines_witness:
  "grep ''b*c'' [''ac'' @ [NL] @ ''x'', ''y'' @ [NL, CHR ''c'', NL]] [] = Some [''ac'' @ [NL], [CHR ''c'', NL]]"
  by (subst grep_writes_matching_lines) (simp_all add: last_line_def match_def matchhere_simps matchstar_simps)

text \<open>A line that no \<open>read\<close> delivers whole is lost when a piece of it has no newline: then \<open>p\<close> is still \<open>buf\<close>, and \<open>m\<close> is reset.\<close>

theorem grep_loses_split_line:
  "match ''ab'' ''ab'' \<and> split_lines [] (concat [''a'', [CHR ''b'', NL]]) = ([''ab''], []) \<and> grep ''ab'' [''a'', [CHR ''b'', NL]] [] = Some []"
  by (simp add: match_def matchhere_simps grep_lines_split)

end
