(* ===== verification/Spec2Isabelle.thy ===== *)
theory Spec2Isabelle
  imports Syscall Mp Content Pagetable Sleeping Keyboard Grep
begin

text \<open>
  A verification of the kernel, and of parts of the user library, of the xv6 system in \<open>src/xv6-public\<close>, a teaching operating system for the 32-bit PC,
  with the system calls \<open>cps\<close> and \<open>nice\<close> and a scheduler with priorities added to it.

  \<^bold>\<open>The program.\<close> Processes run in user mode on the pages of their page tables (\<open>vm.c\<close>, over the page allocator
  \<open>kalloc.c\<close>) and enter the kernel through \<open>trap\<close> (\<open>trap.c\<close>): system calls go through the table of \<open>syscall.c\<close> to
  \<open>sysproc.c\<close>, \<open>sysfile.c\<close> and \<open>exec.c\<close>; timer, keyboard and serial interrupts go to their drivers. \<open>proc.c\<close> holds the
  process table and the scheduler; processes exclude each other with the locks of \<open>spinlock.c\<close> and \<open>sleeplock.c\<close> and wait
  with \<open>sleep\<close> and \<open>wakeup\<close>. The file system is a stack of layers: disk (\<open>memide.c\<close>), buffer cache (\<open>bio.c\<close>), redo log
  (\<open>log.c\<close>), blocks, inodes, contents, directories and paths (\<open>fs.c\<close>), open files (\<open>file.c\<close>), with pipes (\<open>pipe.c\<close>) and the
  console (\<open>console.c\<close>) behind the same interface.

  \<^bold>\<open>How the code is modelled.\<close> A function of the kernel is a command: a function from the kernel state to an outcome
  (\<open>Prelude\<close>). \<open>Ok a s\<close> is a return; \<open>Stop (Panic msg) s\<close> a call of \<open>panic\<close>; \<open>Stop (Undef what) s\<close> a step C does not define, such
  as an index outside an array or a null pointer; \<open>Stop Spin s\<close> a spinlock that is taken and will not be released while this
  processor waits; \<open>Stop Switch s\<close> the switch to the scheduler in \<open>sched\<close>, with the state in which other processes go on. What a
  function does after it is resumed is a definition of its own whose name ends in \<open>_return\<close>. Loops with a bound known on entry
  are recursions on it; \<open>scheduler_loop\<close> has the number of rounds as fuel, and the number of entries in the run queue is shown to
  be enough; the walk of \<open>mpinit\<close>, which may not end, is a \<open>partial_function\<close> whose value \<open>None\<close> is that it does not.

  The state is one record that grows from theory to theory, in the order of the imports: \<open>mach\<close> (memory, processors, locks),
  \<open>kalloc_st\<close>, \<open>ptable_st\<close> (process table, run queue), \<open>vm_st\<close>, \<open>sched_st\<close>, \<open>slp_st\<close> (sleep locks), \<open>bio_st\<close> (buffers, disk), \<open>log_st\<close>,
  \<open>balloc_st\<close> (superblock), \<open>inode_st\<close>, \<open>cons_st\<close> (screen, keyboard, input line, interrupt controllers), \<open>file_st\<close>, \<open>proc_st\<close>,
  \<open>trap_st\<close>. An operation is polymorphic in the fields above its own, so that it cannot touch them; \<open>t.more = s.more\<close> says so for
  the rest of the state. A pointer to an object of a table is its index; pointers into page tables, user memory and the free list
  are addresses in a memory of bytes. \<open>unsigned\<close> values are natural numbers with \<open>u32\<close> where they wrap, \<open>int\<close> values integers
  through \<open>s32\<close>, and bytes \<open>8 word\<close>.

  \<^bold>\<open>Theories and what they show.\<close>
  \<^item> \<open>Prelude\<close>: outcomes, the combinators of commands, a calculus of weakest preconditions, memories of bytes with loads and
    stores, searches. \<open>Ring\<close>: circular buffers with free running indices, as an interface with one implementation of its laws
    for all sizes that divide \<open>2 ^ 32\<close>; the console's input buffer and the pipe are its two interpretations.
  \<^item> \<open>Spinlock\<close> (\<open>spinlock.c\<close>): mutual exclusion, release by the holder only, and that a critical section restores the
    interrupt flag.
  \<^item> \<open>Cstring\<close> (\<open>string.c\<close>): each routine against its mathematical meaning, overlapping \<open>memmove\<close> and terminating \<open>strlen\<close> included.
  \<^item> \<open>Kalloc\<close> (\<open>kalloc.c\<close>): the free list in memory represents a set of pages; no page is handed out twice.
  \<^item> \<open>Ptable\<close> and \<open>Sched\<close> (\<open>proc.c\<close>): the rows of \<open>priority_q\<close> refine lists of processes; the scheduler runs the first process of
    the best row and makes progress. The invariant \<open>sched_inv\<close> is kept by \<open>allocproc\<close>, \<open>wakeup\<close>, \<open>yield\<close>, \<open>sleep\<close> and the rounds of
    the scheduler; it is not shown for \<open>fork\<close>, \<open>exit\<close>, \<open>wait\<close> and \<open>kill\<close>, and \<open>nice\<close> does not keep the process in the row of its
    priority. \<open>Sleeping\<close> interleaves the statements of \<open>sleep\<close> with steps of the other processors: from the moment the caller's lock
    is free, no \<open>wakeup1\<close> on the channel misses the process.
  \<^item> \<open>Vm\<close> (\<open>vm.c\<close>) and \<open>Pagetable\<close>: \<open>vm s d ps E\<close> abstracts a page directory in memory to the map \<open>E\<close> from page numbers to
    entries, beside the free pages \<open>ps\<close>; mapping, growing and shrinking an address space act on \<open>E\<close> and \<open>ps\<close> alone, and growing gives
    everything back when memory runs out.
  \<^item> \<open>Sleeplock\<close> (\<open>sleeplock.c\<close>), with \<open>crit\<close>: the laws of a critical section of a process that holds one spinlock, which the
    proofs about the log, inodes, pipes and the console use.
  \<^item> \<open>Bio\<close> (\<open>bio.c\<close>, \<open>memide.c\<close>) and \<open>Cache\<close>: the buffer list is a ring in order of last use; \<open>cache p s H C D X\<close> abstracts from it to the
    buffers \<open>H\<close> that process \<open>p\<close> holds, the content \<open>C\<close> of all blocks, that of the disk \<open>D\<close>, and the blocks \<open>X\<close> that differ.
  \<^item> \<open>Log\<close> (\<open>log.c\<close>): a crash at any disk write of \<open>commit\<close> leaves all or nothing of the transaction after recovery;
    \<open>txn p s H C D X k\<close> adds to \<open>cache\<close> an open transaction that may log \<open>k\<close> more blocks.
  \<^item> \<open>Balloc\<close>, \<open>Inode\<close>, \<open>Fs\<close> (\<open>fs.c\<close>) and \<open>Content\<close>: free map, inodes, contents, directories, paths; allocation, the round trip of an
    inode through the disk, and reads and writes of file contents, on top of \<open>txn\<close>.
  \<^item> \<open>Console\<close> (\<open>console.c\<close>, \<open>kbd.c\<close>, \<open>uart.c\<close>, \<open>picirq.c\<close>, \<open>ioapic.c\<close>): printed numbers read back, the cursor stays on the
    screen, and the interrupt handler implements a line editor for every sequence of character codes, with the process listing on
    Control-P. \<open>Keyboard\<close>: the scan codes of any sequence of keys of the US layout give the characters and modifiers expected.
  \<^item> \<open>File\<close> (\<open>file.c\<close>, \<open>pipe.c\<close>): the pipe is a bounded queue of bytes.
  \<^item> \<open>Exec\<close> (\<open>exec.c\<close>, the argument routines of \<open>syscall.c\<close>): what system calls accept lies in the memory of the process.
  \<^item> \<open>Proc\<close> (the life of a process in \<open>proc.c\<close>), with what \<open>nice\<close> does to the run queue.
  \<^item> \<open>Sysfile\<close>, \<open>Syscall\<close> (\<open>sysfile.c\<close>, \<open>sysproc.c\<close>, \<open>syscall.c\<close>, \<open>trap.c\<close>, \<open>lapic.c\<close>), \<open>Mp\<close> (\<open>mp.c\<close>); this theory has what spans
    the way from the trap to the system call.
  \<^item> \<open>Ulib\<close> (\<open>ulib.c\<close>, \<open>printf.c\<close>) and \<open>Grep\<close> (\<open>grep.c\<close>) are programs of user processes, functions on strings of characters and on what
    \<open>read\<close> delivers: string routines, numbers printed and read, and that \<open>grep\<close> decides the language of its pattern and writes the
    matching lines, where each \<open>read\<close> delivers the end of a line.

  \<^bold>\<open>Builds.\<close> The field \<open>cfg_custom\<close> tells whether \<open>CUSTOM_SCHEDULER\<close> is defined: the code under \<open>#ifndef CUSTOM_SCHEDULER\<close>, the priority
  scheduler, is modelled beside the round robin scheduler that the Makefile builds. The disk is that of the target \<open>kernelmemfs\<close>.

  \<^bold>\<open>Bounds.\<close> The constants of \<open>param.h\<close> are used as they are. The witnesses evaluate the theorems on a machine with one
  processor or two, a disk of 1000 blocks and a few processes. The loops of \<open>deallocuvm\<close> and \<open>copyuvm\<close> count addresses without the wrap at
  \<open>2 ^ 32\<close>: their sizes are at most \<open>KERNBASE\<close>. \<open>cprintf\<close> records its format and arguments and leaves the console lock out.

  \<^bold>\<open>Not modelled.\<close> Assembly and boot code (\<open>bootasm.S\<close>, \<open>bootmain.c\<close>, \<open>entry.S\<close>, \<open>swtch.S\<close>, \<open>trapasm.S\<close>, \<open>vectors.S\<close>, \<open>initcode.S\<close>) and \<open>main.c\<close>, which
  calls the initialisers in turn; the drivers \<open>ide.c\<close> and \<open>timer.c\<close>, which are sequences of port accesses; \<open>cmostime\<close> and \<open>microdelay\<close>;
  the user programs but \<open>grep\<close>, of the user library \<open>umalloc.c\<close>, \<open>stat\<close> and \<open>memset\<close>, the image builder \<open>mkfs.c\<close> and the test programs. Steps of different processors do not
  interleave inside a command, but for \<open>sleep\<close> and the lock code: elsewhere exclusion is what the theorems on locks give, and the
  states at which processes alternate are those of \<open>Switch\<close>.
\<close>

section \<open>From the trap to the system call and back\<close>

lemma length_syscalls: "length syscalls = 24"
  by (simp add: syscalls_def)

text \<open>C40. A system call trap with a number outside the table, as \<open>alltraps\<close> hands it to \<open>trap\<close>: the process gets -1 in \<open>eax\<close> of
  its trap frame and a line on the console; its \<open>tf\<close> is the frame of this trap, and the rest of the machine is as it was.\<close>

theorem trap_unknown_call:
  assumes me: "c_proc (the_cpu s) = Some me" "me < length (procs s)" "\<not> p_killed (procs s ! me)"
    and no: "rd32 (mem s) (tf + TF_TRAPNO) = T_SYSCALL"
    and num: "num = s32 (rd32 (mem s) (tf + TF_EAX))" "num \<le> 0 \<or> 23 < num"
  shows "trap tf inp s = Ok () (s\<lparr>procs := (procs s)[me := (procs s ! me)\<lparr>p_tf := tf\<rparr>],
    mem := wr32 (mem s) (tf + TF_EAX) 0xFFFFFFFF,
    cons_out := cons_out s @ [(''%d %s: unknown sys call %d\<newline>'',
      [PInt (p_pid (procs s ! me)), PStr (p_name (procs s ! me)), PInt num])]\<rparr>)"
proof -
  have "\<not> (0 < num \<and> nat num < 24)" using num(2) by auto
  then show ?thesis using me no num(1) unfolding trap_def syscall_def length_syscalls
    by (auto simp: with_proc_def set_eax_def upd_mem_def upd_proc_def cprintf_def exec_simps Let_def the_cpu_def u32_of_def)
qed

definition trap0 :: trap_st where
  "trap0 = proc_st.extend
     (file_st.extend (file0\<lparr>mem := wr32 (wr32 (\<lambda>_. 0) TF_TRAPNO T_SYSCALL) TF_EAX 24\<rparr>) (proc_st.fields False))
     (trap_st.fields 0 [] 0 [])"

theorem trap_unknown_call_witness:
  "\<exists>t. trap 0 \<lparr>ti_scancodes = [], ti_serial = [], ti_cr2 = 0, ti_pc = 0\<rparr> trap0 = Ok () t \<and> rd32 (mem t) TF_EAX = 0xFFFFFFFF"
proof -
  have "c_proc (the_cpu file0) = Some 1" "1 < length (procs file0)"
    using quiet_proc [OF quiet_file0] table_ok_length [OF quiet_table [OF quiet_file0]] by (simp_all add: NPROC_def)
  moreover have "\<not> p_killed (procs file0 ! 1)" by (simp add: cons0_defs bio0_def busy0_def proc0_def NPROC_def)
  ultimately show ?thesis
    using trap_unknown_call [of trap0 1 0 24]
    by (simp add: trap0_def proc_st.defs file_st.defs trap_st.defs the_cpu_def rd32_wr32_other TF_TRAPNO_def TF_EAX_def
        T_SYSCALL_def u32_def s32_def)
qed

end
